(* ===== verification/Prelude.thy ===== *)
theory Prelude
  imports Main "HOL-Library.Word"
begin

unbundle bit_operations_syntax

text \<open>
  The shared vocabulary of the development: machine integers, the results of kernel code
  (a value and a state, a panic, or a process gone to sleep), the combinators that compose
  kernel code in the order the C statements have, partial and total correctness statements
  over them, little-endian byte access and generic list lemmas.
\<close>

section \<open>Machine integers\<close>

type_synonym u8 = "8 word"
type_synonym u16 = "16 word"
type_synonym u32 = "32 word"

named_theorems km_simps \<open>unfolding of the kernel combinators\<close>
named_theorems ret_iff \<open>when kernel code returns\<close>
named_theorems pcases \<open>partial-correctness rules\<close>

section \<open>Names of locks and sleep channels\<close>

text \<open>
  A sleep lock is the lock of a disk buffer or of a cached inode, named by its index.
  A spin lock is one of the kernel's static locks, the lock of a pipe (named by the address
  of its page) or the guard inside a sleep lock. A channel is the address a process sleeps
  on; the kernel's channels are pairwise distinct addresses. \<open>ChNone\<close> stands for no channel, for a
  process that gives up the CPU without going to sleep.
\<close>

datatype slk = SlkBuf nat | SlkInode nat

datatype lockid =
    LkPtable | LkKmem | LkIde | LkBcache | LkLog | LkIcache | LkFtable | LkCons | LkTicks
  | LkPipe u32 | LkSlk slk

datatype chan =
    ChLog | ChBuf nat | ChSlk slk | ChProc nat | ChPipeRead u32 | ChPipeWrite u32
  | ChTicks | ChInput | ChNone

section \<open>Results of kernel code\<close>

text \<open>
  \<open>Ret a s\<close>: the code returned \<open>a\<close> in state \<open>s\<close>. \<open>Panic m\<close>: it called \<open>panic(m)\<close>, which
  never returns. \<open>Sleep c s\<close>: the process gave up the CPU in state \<open>s\<close>, asleep on \<open>c\<close>.
  \<open>Spin s\<close>: it loops in state \<open>s\<close> until another CPU or a device changes the state.
\<close>

datatype ('a, 's) res = Ret 'a 's | Panic string | Sleep chan 's | Spin 's

type_synonym ('s, 'a) km = "'s \<Rightarrow> ('a, 's) res"

definition retK :: "'a \<Rightarrow> ('s, 'a) km" where
  [km_simps]: "retK a s = Ret a s"

definition panicK :: "string \<Rightarrow> ('s, 'a) km" where
  [km_simps]: "panicK m s = Panic m"

definition getK :: "('s \<Rightarrow> 'a) \<Rightarrow> ('s, 'a) km" where
  [km_simps]: "getK f s = Ret (f s) s"

definition modK :: "('s \<Rightarrow> 's) \<Rightarrow> ('s, unit) km" where
  [km_simps]: "modK f s = Ret () (f s)"

definition bindK :: "('s, 'a) km \<Rightarrow> ('a \<Rightarrow> ('s, 'b) km) \<Rightarrow> ('s, 'b) km" where
  "bindK m f s = (case m s of Ret a t \<Rightarrow> f a t | Panic e \<Rightarrow> Panic e | Sleep c t \<Rightarrow> Sleep c t | Spin t \<Rightarrow> Spin t)"

definition thenK :: "('s, 'a) km \<Rightarrow> ('s, 'b) km \<Rightarrow> ('s, 'b) km" where
  "thenK m n = bindK m (\<lambda>_. n)"

text \<open>\<open>assertK c m\<close>: the C idiom \<open>if(!c) panic(m)\<close>.\<close>

definition assertK :: "bool \<Rightarrow> string \<Rightarrow> ('s, unit) km" where
  [km_simps]: "assertK c m s = (if c then Ret () s else Panic m)"

definition whenK :: "bool \<Rightarrow> ('s, unit) km \<Rightarrow> ('s, unit) km" where
  [km_simps]: "whenK c m s = (if c then m s else Ret () s)"

lemma bindK_cases [km_simps]:
  "m s = Ret a t \<Longrightarrow> bindK m f s = f a t"
  "m s = Panic e \<Longrightarrow> bindK m f s = Panic e"
  "m s = Sleep c t \<Longrightarrow> bindK m f s = Sleep c t"
  "m s = Spin t \<Longrightarrow> bindK m f s = Spin t"
  by (simp_all add: bindK_def)

lemma thenK_cases [km_simps]:
  "m s = Ret a t \<Longrightarrow> thenK m n s = n t"
  "m s = Panic e \<Longrightarrow> thenK m n s = Panic e"
  "m s = Sleep c t \<Longrightarrow> thenK m n s = Sleep c t"
  "m s = Spin t \<Longrightarrow> thenK m n s = Spin t"
  by (simp_all add: thenK_def bindK_def)

lemma bindK_Ret [ret_iff]:
  "bindK m f s = Ret b u \<longleftrightarrow> (\<exists>a t. m s = Ret a t \<and> f a t = Ret b u)"
  by (auto simp: bindK_def split: res.splits)

lemma thenK_Ret [ret_iff]:
  "thenK m n s = Ret b u \<longleftrightarrow> (\<exists>a t. m s = Ret a t \<and> n t = Ret b u)"
  by (auto simp: thenK_def bindK_def split: res.splits)

lemma basic_Ret [ret_iff]:
  "retK a s = Ret b u \<longleftrightarrow> b = a \<and> u = s"
  "panicK m s = Ret b u \<longleftrightarrow> False"
  "getK g s = Ret v u \<longleftrightarrow> v = g s \<and> u = s"
  "modK h s = Ret x u \<longleftrightarrow> u = h s"
  "assertK c m s = Ret x u \<longleftrightarrow> c \<and> u = s"
  "whenK c n s = Ret x u \<longleftrightarrow> (if c then n s = Ret x u else u = s)"
  by (auto simp: km_simps)

lemma bindK_assoc: "bindK (bindK m f) g = bindK m (\<lambda>a. bindK (f a) g)"
  by (rule ext) (auto simp: bindK_def split: res.splits)

lemma bindK_retK [simp]: "bindK (retK a) f = f a"
  by (rule ext) (simp add: bindK_def retK_def)

lemma bindK_panicK [simp]: "bindK (panicK e) f = panicK e"
  by (rule ext) (simp add: bindK_def panicK_def)

section \<open>Partial and total correctness\<close>

text \<open>
  \<open>valid P m Q\<close>: from a state with \<open>P\<close>, if \<open>m\<close> returns then \<open>Q\<close> holds of the value and
  the final state. \<open>total P m Q\<close>: it does return (no panic, no sleep), with \<open>Q\<close>.
\<close>

definition valid :: "('s \<Rightarrow> bool) \<Rightarrow> ('s, 'a) km \<Rightarrow> ('a \<Rightarrow> 's \<Rightarrow> bool) \<Rightarrow> bool" where
  "valid P m Q \<longleftrightarrow> (\<forall>s a t. P s \<longrightarrow> m s = Ret a t \<longrightarrow> Q a t)"

definition total :: "('s \<Rightarrow> bool) \<Rightarrow> ('s, 'a) km \<Rightarrow> ('a \<Rightarrow> 's \<Rightarrow> bool) \<Rightarrow> bool" where
  "total P m Q \<longleftrightarrow> (\<forall>s. P s \<longrightarrow> (\<exists>a t. m s = Ret a t \<and> Q a t))"

lemma validI: "(\<And>s a t. P s \<Longrightarrow> m s = Ret a t \<Longrightarrow> Q a t) \<Longrightarrow> valid P m Q"
  by (simp add: valid_def)

lemma validD: "valid P m Q \<Longrightarrow> P s \<Longrightarrow> m s = Ret a t \<Longrightarrow> Q a t"
  by (simp add: valid_def)

lemma valid_weaken:
  "valid P m Q \<Longrightarrow> (\<And>s. P' s \<Longrightarrow> P s) \<Longrightarrow> (\<And>a t. Q a t \<Longrightarrow> Q' a t) \<Longrightarrow> valid P' m Q'"
  by (fastforce simp: valid_def)

lemma valid_bindK [pcases]:
  "valid P m R \<Longrightarrow> (\<And>a. valid (R a) (f a) Q) \<Longrightarrow> valid P (bindK m f) Q"
  by (auto simp: valid_def ret_iff)

lemma valid_thenK [pcases]:
  "valid P m (\<lambda>_. R) \<Longrightarrow> valid R n Q \<Longrightarrow> valid P (thenK m n) Q"
  by (auto simp: valid_def ret_iff)

lemma total_valid: "total P m Q \<Longrightarrow> valid P m Q"
  by (fastforce simp: total_def valid_def)

lemma totalD: "total P m Q \<Longrightarrow> P s \<Longrightarrow> \<exists>a t. m s = Ret a t \<and> Q a t"
  by (simp add: total_def)

lemma total_bindK:
  "total P m R \<Longrightarrow> (\<And>a. total (R a) (f a) Q) \<Longrightarrow> total P (bindK m f) Q"
  by (fastforce simp: total_def bindK_def)

section \<open>Relations every returning run satisfies\<close>

text \<open>
  \<open>keeps R m\<close>: a returning run of \<open>m\<close> relates its first and last state by \<open>R\<close>. With a
  reflexive and transitive \<open>R\<close> the rules compose along the code.
\<close>

definition keeps :: "('s \<Rightarrow> 's \<Rightarrow> bool) \<Rightarrow> ('s, 'a) km \<Rightarrow> bool" where
  "keeps R m \<longleftrightarrow> (\<forall>s a t. m s = Ret a t \<longrightarrow> R s t)"

lemma keepsI: "(\<And>s a t. m s = Ret a t \<Longrightarrow> R s t) \<Longrightarrow> keeps R m"
  by (simp add: keeps_def)

lemma keepsD: "keeps R m \<Longrightarrow> m s = Ret a t \<Longrightarrow> R s t"
  by (simp add: keeps_def)

locale frame =
  fixes R :: "'s \<Rightarrow> 's \<Rightarrow> bool"
  assumes refl: "R s s"
    and trans: "R s t \<Longrightarrow> R t u \<Longrightarrow> R s u"
begin

lemma retK: "keeps R (retK a)"
  by (auto intro!: keepsI simp: ret_iff refl)

lemma panicK: "keeps R (panicK e)"
  by (auto intro!: keepsI simp: ret_iff)

lemma getK: "keeps R (getK f)"
  by (auto intro!: keepsI simp: ret_iff refl)

lemma assertK: "keeps R (assertK c e)"
  by (auto intro!: keepsI simp: ret_iff refl)

lemma modK: "(\<And>s. R s (f s)) \<Longrightarrow> keeps R (modK f)"
  by (auto intro!: keepsI simp: ret_iff)

lemma bindK: "keeps R m \<Longrightarrow> (\<And>a. keeps R (f a)) \<Longrightarrow> keeps R (bindK m f)"
  unfolding keeps_def ret_iff by (blast intro: trans)

lemma thenK: "keeps R m \<Longrightarrow> keeps R n \<Longrightarrow> keeps R (thenK m n)"
  unfolding keeps_def ret_iff by (blast intro: trans)

lemma whenK: "keeps R m \<Longrightarrow> keeps R (whenK c m)"
  by (auto intro!: keepsI simp: ret_iff refl dest: keepsD split: if_splits)

lemmas frame_rules = retK panicK getK assertK modK bindK thenK whenK

end

section \<open>Little-endian access to byte arrays\<close>

definition get16 :: "u8 list \<Rightarrow> nat \<Rightarrow> u16" where
  "get16 bs i = ucast (bs ! i) OR push_bit 8 (ucast (bs ! Suc i))"

definition put16 :: "u8 list \<Rightarrow> nat \<Rightarrow> u16 \<Rightarrow> u8 list" where
  "put16 bs i w = bs[i := ucast w, Suc i := ucast (drop_bit 8 w)]"

definition get32 :: "u8 list \<Rightarrow> nat \<Rightarrow> u32" where
  "get32 bs i = ucast (bs ! i) OR push_bit 8 (ucast (bs ! (i + 1)))
     OR push_bit 16 (ucast (bs ! (i + 2))) OR push_bit 24 (ucast (bs ! (i + 3)))"

definition put32 :: "u8 list \<Rightarrow> nat \<Rightarrow> u32 \<Rightarrow> u8 list" where
  "put32 bs i w = bs[i := ucast w, i + 1 := ucast (drop_bit 8 w),
     i + 2 := ucast (drop_bit 16 w), i + 3 := ucast (drop_bit 24 w)]"

lemma length_put16 [simp]: "length (put16 bs i w) = length bs"
  by (simp add: put16_def)

lemma length_put32 [simp]: "length (put32 bs i w) = length bs"
  by (simp add: put32_def)

lemma join16: "(ucast (ucast (w :: u16) :: u8) :: u16) OR push_bit 8 (ucast (ucast (drop_bit 8 w) :: u8)) = w"
  by (rule bit_word_eqI) (auto simp: bit_simps)

lemma join32:
  "(ucast (ucast (w :: u32) :: u8) :: u32) OR push_bit 8 (ucast (ucast (drop_bit 8 w) :: u8))
     OR push_bit 16 (ucast (ucast (drop_bit 16 w) :: u8))
     OR push_bit 24 (ucast (ucast (drop_bit 24 w) :: u8)) = w"
proof (rule bit_word_eqI)
  fix n assume "n < LENGTH(32)"
  then consider "n < 8" | "8 \<le> n" "n < 16" | "16 \<le> n" "n < 24" | "24 \<le> n" "n < 32"
    by fastforce
  then show "bit ((ucast (ucast w :: u8) :: u32) OR push_bit 8 (ucast (ucast (drop_bit 8 w) :: u8))
     OR push_bit 16 (ucast (ucast (drop_bit 16 w) :: u8))
     OR push_bit 24 (ucast (ucast (drop_bit 24 w) :: u8))) n = bit w n"
    by cases (auto simp: bit_simps)
qed

lemma get16_put16 [simp]: "i + 2 \<le> length bs \<Longrightarrow> get16 (put16 bs i w) i = w"
  by (simp add: get16_def put16_def join16)

lemma get32_put32 [simp]: "i + 4 \<le> length bs \<Longrightarrow> get32 (put32 bs i w) i = w"
  by (simp add: get32_def put32_def join32)

lemma nth_put16: "j < i \<or> i + 2 \<le> j \<Longrightarrow> put16 bs i w ! j = bs ! j"
  by (auto simp: put16_def nth_list_update)

lemma nth_put32: "j < i \<or> i + 4 \<le> j \<Longrightarrow> put32 bs i w ! j = bs ! j"
  by (auto simp: put32_def nth_list_update)

lemma get16_put16_other [simp]: "j + 2 \<le> i \<or> i + 2 \<le> j \<Longrightarrow> get16 (put16 bs i w) j = get16 bs j"
  by (auto simp: get16_def nth_put16)

lemma get16_put32_other [simp]: "j + 2 \<le> i \<or> i + 4 \<le> j \<Longrightarrow> get16 (put32 bs i w) j = get16 bs j"
  by (auto simp: get16_def nth_put32)

lemma get32_put16_other [simp]: "j + 4 \<le> i \<or> i + 2 \<le> j \<Longrightarrow> get32 (put16 bs i w) j = get32 bs j"
  by (auto simp: get32_def nth_put16)

lemma get32_put32_other [simp]: "j + 4 \<le> i \<or> i + 4 \<le> j \<Longrightarrow> get32 (put32 bs i w) j = get32 bs j"
  by (auto simp: get32_def nth_put32)

section \<open>Generic lemmas\<close>

lemma unat_u32_less [simp]: "unat (x :: u32) < 4294967296"
  using unsigned_less [of x] by simp

lemma unat_add_u32: "unat (a :: u32) + unat b < 4294967296 \<Longrightarrow> unat (a + b) = unat a + unat b"
  by (simp add: unat_word_ariths)

lemma unat_mod_nat: "unat (w mod v :: u32) = unat w mod unat v"
  by (simp add: unat_mod)

lemma distinct_map_filter_unique:
  "distinct xs \<Longrightarrow> i < length xs \<Longrightarrow> j < length xs \<Longrightarrow> xs ! i = xs ! j \<Longrightarrow> i = j"
  by (simp add: nth_eq_iff_index_eq)

end
