(* ===== verification/Layout.thy ===== *)
theory Layout
  imports Prelude
begin

text \<open>
  The constants and address macros of \<open>param.h\<close>, \<open>memlayout.h\<close>, \<open>mmu.h\<close>, \<open>fs.h\<close> and
  \<open>buf.h\<close>: table sizes, the split of a virtual address into page directory index, page table
  index and offset, rounding to pages and page table entries.
  Lemmas: the three parts of an address rebuild it, the rounding macros give the page
  boundaries around an address (and when \<open>PGROUNDUP\<close> wraps), an entry keeps its address and
  flags apart.
\<close>

section \<open>param.h\<close>

abbreviation (input) NPROC :: nat where "NPROC \<equiv> 64"
abbreviation (input) NOFILE :: nat where "NOFILE \<equiv> 16"
abbreviation (input) NFILE :: nat where "NFILE \<equiv> 100"
abbreviation (input) NINODE :: nat where "NINODE \<equiv> 50"
abbreviation (input) NDEV :: nat where "NDEV \<equiv> 10"
abbreviation (input) ROOTDEV :: u32 where "ROOTDEV \<equiv> 1"
abbreviation (input) MAXOPBLOCKS :: nat where "MAXOPBLOCKS \<equiv> 10"
abbreviation (input) LOGSIZE :: nat where "LOGSIZE \<equiv> 30"
abbreviation (input) NBUF :: nat where "NBUF \<equiv> 30"
abbreviation (input) FSSIZE :: u32 where "FSSIZE \<equiv> 1000"
abbreviation (input) KSTACKSIZE :: u32 where "KSTACKSIZE \<equiv> 4096"

section \<open>memlayout.h\<close>

abbreviation (input) EXTMEM :: u32 where "EXTMEM \<equiv> 0x100000"
abbreviation (input) PHYSTOP :: u32 where "PHYSTOP \<equiv> 0xE000000"
abbreviation (input) DEVSPACE :: u32 where "DEVSPACE \<equiv> 0xFE000000"
abbreviation (input) KERNBASE :: u32 where "KERNBASE \<equiv> 0x80000000"
abbreviation (input) KERNLINK :: u32 where "KERNLINK \<equiv> 0x80100000"

definition V2P :: "u32 \<Rightarrow> u32" where "V2P a = a - KERNBASE"
definition P2V :: "u32 \<Rightarrow> u32" where "P2V a = a + KERNBASE"

section \<open>mmu.h\<close>

abbreviation (input) PGSIZE :: u32 where "PGSIZE \<equiv> 4096"

definition PDX :: "u32 \<Rightarrow> u32" where "PDX va = drop_bit 22 va AND 0x3FF"
definition PTX :: "u32 \<Rightarrow> u32" where "PTX va = drop_bit 12 va AND 0x3FF"

definition PGADDR :: "u32 \<Rightarrow> u32 \<Rightarrow> u32 \<Rightarrow> u32" where
  "PGADDR d t off = push_bit 22 d OR push_bit 12 t OR off"

definition PGROUNDUP :: "u32 \<Rightarrow> u32" where
  "PGROUNDUP sz = (sz + PGSIZE - 1) AND NOT (PGSIZE - 1)"

definition PGROUNDDOWN :: "u32 \<Rightarrow> u32" where
  "PGROUNDDOWN a = a AND NOT (PGSIZE - 1)"

abbreviation (input) PTE_P :: u32 where "PTE_P \<equiv> 0x001"
abbreviation (input) PTE_W :: u32 where "PTE_W \<equiv> 0x002"
abbreviation (input) PTE_U :: u32 where "PTE_U \<equiv> 0x004"

definition PTE_ADDR :: "u32 \<Rightarrow> u32" where "PTE_ADDR pte = pte AND NOT 0xFFF"
definition PTE_FLAGS :: "u32 \<Rightarrow> u32" where "PTE_FLAGS pte = pte AND 0xFFF"

section \<open>fs.h, stat.h, buf.h\<close>

abbreviation (input) ROOTINO :: u32 where "ROOTINO \<equiv> 1"
abbreviation (input) BSIZE :: nat where "BSIZE \<equiv> 512"
abbreviation (input) NDIRECT :: nat where "NDIRECT \<equiv> 12"
abbreviation (input) NINDIRECT :: nat where "NINDIRECT \<equiv> 128"
abbreviation (input) MAXFILE :: nat where "MAXFILE \<equiv> 140"
abbreviation (input) IPB :: nat where "IPB \<equiv> 8"
abbreviation (input) BPB :: nat where "BPB \<equiv> 4096"
abbreviation (input) DIRSIZ :: nat where "DIRSIZ \<equiv> 14"
abbreviation (input) T_DIR :: u16 where "T_DIR \<equiv> 1"
abbreviation (input) T_FILE :: u16 where "T_FILE \<equiv> 2"
abbreviation (input) T_DEV :: u16 where "T_DEV \<equiv> 3"
abbreviation (input) B_VALID :: u32 where "B_VALID \<equiv> 2"
abbreviation (input) B_DIRTY :: u32 where "B_DIRTY \<equiv> 4"

record superblock =
  sb_size :: u32
  sb_nblocks :: u32
  sb_ninodes :: u32
  sb_nlog :: u32
  sb_logstart :: u32
  sb_inodestart :: u32
  sb_bmapstart :: u32

definition IBLOCK :: "u32 \<Rightarrow> superblock \<Rightarrow> u32" where
  "IBLOCK i sb = i div of_nat IPB + sb_inodestart sb"

definition BBLOCK :: "u32 \<Rightarrow> superblock \<Rightarrow> u32" where
  "BBLOCK b sb = b div of_nat BPB + sb_bmapstart sb"

section \<open>Lemmas\<close>

lemma P2V_V2P [simp]: "P2V (V2P a) = a"
  by (simp add: P2V_def V2P_def)

lemma V2P_P2V [simp]: "V2P (P2V a) = a"
  by (simp add: P2V_def V2P_def)

lemma mask_3FF: "(0x3FF :: u32) = mask 10"
  by (simp add: mask_eq_exp_minus_1)

lemma mask_FFF: "(0xFFF :: u32) = mask 12"
  by (simp add: mask_eq_exp_minus_1)

lemma PGADDR_parts: "PGADDR (PDX va) (PTX va) (va AND 0xFFF) = va"
proof (rule bit_word_eqI)
  fix n
  show "bit (PGADDR (PDX va) (PTX va) (va AND 0xFFF)) n = bit va n" if "n < LENGTH(32)"
    unfolding PGADDR_def PDX_def PTX_def mask_3FF mask_FFF
    using that by (cases "n < 22") (auto simp: bit_simps)
qed

lemma take_bit_u32: "(d :: u32) < 2 ^ n \<Longrightarrow> take_bit n d = d"
  by (simp add: take_bit_eq_mod mod_word_less)

lemma small_bits: "(d :: u32) < 2 ^ k \<Longrightarrow> bit d n \<Longrightarrow> n < k"
  by (metis bit_take_bit_iff take_bit_u32)

lemma PGADDR_inverse:
  assumes "d < 1024" "t < 1024" "off < 4096"
  shows PDX_PGADDR: "PDX (PGADDR d t off) = d"
    and PTX_PGADDR: "PTX (PGADDR d t off) = t"
    and off_PGADDR: "PGADDR d t off AND 0xFFF = off"
proof -
  have d: "bit d n \<Longrightarrow> n < 10" and t: "bit t n \<Longrightarrow> n < 10" and o12: "bit off n \<Longrightarrow> n < 12" for n
    using assms small_bits [of d 10 n] small_bits [of t 10 n] small_bits [of off 12 n] by simp_all
  show "PDX (PGADDR d t off) = d"
    unfolding PGADDR_def PDX_def mask_3FF
    by (rule bit_word_eqI) (auto simp: bit_simps dest: d t o12)
  show "PTX (PGADDR d t off) = t"
    unfolding PGADDR_def PTX_def mask_3FF
    by (rule bit_word_eqI) (auto simp: bit_simps dest: d t o12)
  show "PGADDR d t off AND 0xFFF = off"
    unfolding PGADDR_def mask_FFF
    by (rule bit_word_eqI) (auto simp: bit_simps dest: d t o12)
qed

lemma and_not_FFF: "(a :: u32) AND NOT 0xFFF = push_bit 12 (drop_bit 12 a)"
  unfolding mask_FFF by (rule bit_word_eqI) (auto simp: bit_simps)

lemma unat_page_part: "unat (push_bit 12 (drop_bit 12 (a :: u32))) = unat a div 4096 * 4096"
proof -
  have "unat a div 4096 * 4096 \<le> unat a"
    by simp
  also have "\<dots> < 4294967296"
    by simp
  finally show ?thesis
    by (simp add: push_bit_eq_mult drop_bit_eq_div unat_word_ariths unat_div mult.commute)
qed

lemma page_mask: "NOT (PGSIZE - 1) = NOT (0xFFF :: u32)"
  by simp

lemma unat_PGROUNDDOWN: "unat (PGROUNDDOWN a) = unat a div 4096 * 4096"
  by (simp only: PGROUNDDOWN_def page_mask and_not_FFF unat_page_part)

lemma unat_PGROUNDUP:
  assumes "unat sz + 4095 < 4294967296"
  shows "unat (PGROUNDUP sz) = (unat sz + 4095) div 4096 * 4096"
proof -
  have "unat (sz + 4095) = unat sz + 4095"
    using assms unat_add_u32 [of sz 4095] by simp
  moreover have "sz + PGSIZE - 1 = sz + 4095"
    by simp
  ultimately show ?thesis
    by (simp only: PGROUNDUP_def page_mask and_not_FFF unat_page_part)
qed

lemma PTE_split: "PTE_ADDR p OR PTE_FLAGS p = p"
  by (simp add: PTE_ADDR_def PTE_FLAGS_def flip: bit.conj_disj_distrib)

lemma aligned_bits:
  assumes "pa AND 0xFFF = 0" "n < 12"
  shows "\<not> bit (pa :: u32) n"
proof
  assume "bit pa n"
  with assms(2) have "bit (pa AND 0xFFF) n"
    unfolding mask_FFF by (simp add: bit_simps)
  with assms(1) show False
    by simp
qed

end
