(* ===== verification/Spinlock.thy ===== *)
theory Spinlock
  imports Layout
begin

text \<open>
  \<open>spinlock.c\<close> on a multiprocessor: \<open>mycpu\<close>, \<open>pushcli\<close>, \<open>popcli\<close>, \<open>holding\<close>, \<open>acquire\<close> and
  \<open>release\<close> with the nesting count and the interrupt flag of each CPU, and a step relation in
  which any number of CPUs run them, interleaved at the atomic \<open>xchg\<close> and at each later store.
  Lemmas: matched \<open>pushcli\<close>/\<open>popcli\<close>; in every reachable state at most one CPU is between
  \<open>acquire\<close> and \<open>release\<close> of a lock, with its interrupts off.
\<close>

section \<open>State\<close>

text \<open>
  \<open>lk_cpu\<close>: the index in \<open>cpus\<close> of the holder. A CPU is named by its local APIC id; \<open>ifl\<close>
  is the \<open>FL_IF\<close> bit of its \<open>eflags\<close>. An id is a byte in the code, compared as an \<open>int\<close> with what
  \<open>lapicid\<close> returns; here it is the word compared. \<open>ncli\<close> is not bounded: it counts nested calls. The saved call stack \<open>pcs\<close> is for debugging only.
\<close>

record spinlock =
  lk_locked :: u32
  lk_cpu :: "nat option"

record cpu =
  apicid :: u32
  ncli :: int
  intena :: bool

record smp =
  cpus :: "cpu list"
  ifl :: "u32 \<Rightarrow> bool"
  locks :: "lockid \<Rightarrow> spinlock"

definition upd_cpu :: "nat \<Rightarrow> (cpu \<Rightarrow> cpu) \<Rightarrow> 'z smp_scheme \<Rightarrow> 'z smp_scheme" where
  "upd_cpu i f s = s\<lparr>cpus := (cpus s)[i := f (cpus s ! i)]\<rparr>"

definition upd_lock :: "lockid \<Rightarrow> (spinlock \<Rightarrow> spinlock) \<Rightarrow> 'z smp_scheme \<Rightarrow> 'z smp_scheme" where
  "upd_lock l f s = s\<lparr>locks := (locks s)(l := f (locks s l))\<rparr>"

section \<open>Operations\<close>

fun find_cpu :: "u32 \<Rightarrow> nat \<Rightarrow> cpu list \<Rightarrow> nat option" where
  "find_cpu a i [] = None"
| "find_cpu a i (c # cs) = (if apicid c = a then Some i else find_cpu a (Suc i) cs)"

definition mycpu :: "u32 \<Rightarrow> ('z smp_scheme, nat) km" where
  "mycpu a = bindK (getK (\<lambda>s. ifl s a)) (\<lambda>f.
     thenK (assertK (\<not> f) ''mycpu called with interrupts enabled'')
    (bindK (getK cpus) (\<lambda>cs. case find_cpu a 0 cs of
        Some i \<Rightarrow> retK i
      | None \<Rightarrow> panicK ''unknown apicid'')))"

definition cli :: "u32 \<Rightarrow> ('z smp_scheme, unit) km" where
  "cli a = modK (\<lambda>s. s\<lparr>ifl := (ifl s)(a := False)\<rparr>)"

definition sti :: "u32 \<Rightarrow> ('z smp_scheme, unit) km" where
  "sti a = modK (\<lambda>s. s\<lparr>ifl := (ifl s)(a := True)\<rparr>)"

definition pushcli :: "u32 \<Rightarrow> ('z smp_scheme, unit) km" where
  "pushcli a = bindK (getK (\<lambda>s. ifl s a)) (\<lambda>eflags.
     thenK (cli a)
    (bindK (mycpu a) (\<lambda>c. bindK (getK cpus) (\<lambda>cs.
     thenK (whenK (ncli (cs ! c) = 0) (modK (upd_cpu c (\<lambda>k. k\<lparr>intena := eflags\<rparr>))))
     (modK (upd_cpu c (\<lambda>k. k\<lparr>ncli := ncli k + 1\<rparr>)))))))"

definition popcli :: "u32 \<Rightarrow> ('z smp_scheme, unit) km" where
  "popcli a = bindK (getK (\<lambda>s. ifl s a)) (\<lambda>f.
     thenK (assertK (\<not> f) ''popcli - interruptible'')
    (bindK (mycpu a) (\<lambda>c.
     thenK (modK (upd_cpu c (\<lambda>k. k\<lparr>ncli := ncli k - 1\<rparr>)))
    (bindK (getK cpus) (\<lambda>cs.
     thenK (assertK (0 \<le> ncli (cs ! c)) ''popcli'')
     (whenK (ncli (cs ! c) = 0 \<and> intena (cs ! c)) (sti a)))))))"

definition initlock :: "lockid \<Rightarrow> ('z smp_scheme, unit) km" where
  "initlock l = modK (upd_lock l (\<lambda>_. \<lparr>lk_locked = 0, lk_cpu = None\<rparr>))"

definition holding :: "u32 \<Rightarrow> lockid \<Rightarrow> ('z smp_scheme, bool) km" where
  "holding a l = thenK (pushcli a) (bindK (mycpu a) (\<lambda>c. bindK (getK locks) (\<lambda>ls.
     thenK (popcli a) (retK (lk_locked (ls l) \<noteq> 0 \<and> lk_cpu (ls l) = Some c)))))"

text \<open>\<open>acquire\<close> in its three parts: up to the loop, one turn of the loop, and after it.\<close>

definition acquire_enter :: "u32 \<Rightarrow> lockid \<Rightarrow> ('z smp_scheme, unit) km" where
  "acquire_enter a l = thenK (pushcli a) (bindK (holding a l) (\<lambda>h. assertK (\<not> h) ''acquire''))"

definition xchg_locked :: "lockid \<Rightarrow> u32 \<Rightarrow> ('z smp_scheme, u32) km" where
  "xchg_locked l v = bindK (getK (\<lambda>s. lk_locked (locks s l))) (\<lambda>old.
     thenK (modK (upd_lock l (\<lambda>k. k\<lparr>lk_locked := v\<rparr>))) (retK old))"

definition acquire_record :: "u32 \<Rightarrow> lockid \<Rightarrow> ('z smp_scheme, unit) km" where
  "acquire_record a l = bindK (mycpu a) (\<lambda>c.
     modK (upd_lock l (\<lambda>k. k\<lparr>lk_cpu := Some c\<rparr>)))"

definition acquire :: "u32 \<Rightarrow> lockid \<Rightarrow> ('z smp_scheme, unit) km" where
  "acquire a l = thenK (acquire_enter a l)
    (bindK (xchg_locked l 1) (\<lambda>old. if old \<noteq> 0 then Spin else acquire_record a l))"

text \<open>\<open>release\<close>: the check and the debug store, then the store of 0 and \<open>popcli\<close>.\<close>

definition release_enter :: "u32 \<Rightarrow> lockid \<Rightarrow> ('z smp_scheme, unit) km" where
  "release_enter a l = bindK (holding a l) (\<lambda>h. thenK (assertK h ''release'')
     (modK (upd_lock l (\<lambda>k. k\<lparr>lk_cpu := None\<rparr>))))"

definition release_exit :: "u32 \<Rightarrow> lockid \<Rightarrow> ('z smp_scheme, unit) km" where
  "release_exit a l = thenK (modK (upd_lock l (\<lambda>k. k\<lparr>lk_locked := 0\<rparr>))) (popcli a)"

definition release :: "u32 \<Rightarrow> lockid \<Rightarrow> ('z smp_scheme, unit) km" where
  "release a l = thenK (release_enter a l) (release_exit a l)"

section \<open>CPUs interleaved\<close>

text \<open>
  Where each CPU is: outside the lock code, in the spin loop, past the \<open>xchg\<close> that took the
  lock, past the check of \<open>release\<close>. \<open>crit\<close>: the locks whose \<open>acquire\<close> has returned and whose
  \<open>release\<close> has not been called.
\<close>

datatype lpc = Run | Spinning lockid | Took lockid | Dropping lockid

record lsys = smp +
  lpc :: "u32 \<Rightarrow> lpc"
  crit :: "u32 \<Rightarrow> lockid set"

definition init_lsys :: "cpu list \<Rightarrow> (u32 \<Rightarrow> bool) \<Rightarrow> lsys" where
  "init_lsys cs f = \<lparr>cpus = map (\<lambda>c. c\<lparr>ncli := 0\<rparr>) cs, ifl = f,
     locks = (\<lambda>_. \<lparr>lk_locked = 0, lk_cpu = None\<rparr>), lpc = (\<lambda>_. Run), crit = (\<lambda>_. {})\<rparr>"

inductive lstep :: "lsys \<Rightarrow> lsys \<Rightarrow> bool" where
  enter: "lpc s a = Run \<Longrightarrow> acquire_enter a l s = Ret () t \<Longrightarrow>
     lstep s (t\<lparr>lpc := (lpc t)(a := Spinning l)\<rparr>)"
| spin: "lpc s a = Spinning l \<Longrightarrow> xchg_locked l 1 s = Ret old t \<Longrightarrow>
     lstep s (if old \<noteq> 0 then t else t\<lparr>lpc := (lpc t)(a := Took l)\<rparr>)"
| took: "lpc s a = Took l \<Longrightarrow> acquire_record a l s = Ret () t \<Longrightarrow>
     lstep s (t\<lparr>lpc := (lpc t)(a := Run), crit := (crit t)(a := insert l (crit t a))\<rparr>)"
| drop: "lpc s a = Run \<Longrightarrow> release_enter a l s = Ret () t \<Longrightarrow>
     lstep s (t\<lparr>lpc := (lpc t)(a := Dropping l), crit := (crit t)(a := crit t a - {l})\<rparr>)"
| dropped: "lpc s a = Dropping l \<Longrightarrow> release_exit a l s = Ret () t \<Longrightarrow>
     lstep s (t\<lparr>lpc := (lpc t)(a := Run)\<rparr>)"
| enable: "lpc s a = Run \<Longrightarrow> crit s a = {} \<Longrightarrow> sti a s = Ret () t \<Longrightarrow> lstep s t"

inductive lreach :: "cpu list \<Rightarrow> (u32 \<Rightarrow> bool) \<Rightarrow> lsys \<Rightarrow> bool" for cs f where
  init: "lreach cs f (init_lsys cs f)"
| step: "lreach cs f s \<Longrightarrow> lstep s t \<Longrightarrow> lreach cs f t"

section \<open>When the operations return\<close>

lemma find_cpu_Some:
  "find_cpu a k cs = Some i \<Longrightarrow> k \<le> i \<and> i - k < length cs \<and> apicid (cs ! (i - k)) = a"
proof (induction cs arbitrary: k)
  case (Cons c cs)
  show ?case
  proof (cases "apicid c = a")
    case False
    with Cons.prems have "find_cpu a (Suc k) cs = Some i" by simp
    from Cons.IH [OF this] show ?thesis by (auto simp: nth_Cons' Suc_diff_le)
  qed (use Cons.prems in auto)
qed simp

lemma find_cpu_inj: "find_cpu a 0 cs = Some i \<Longrightarrow> find_cpu b 0 cs = Some i \<Longrightarrow> a = b"
  by (fastforce dest: find_cpu_Some)

lemma find_cpu_cong: "map apicid cs = map apicid ds \<Longrightarrow> find_cpu a k cs = find_cpu a k ds"
proof (induction cs arbitrary: k ds)
  case (Cons c cs)
  then show ?case by (cases ds) auto
qed simp

lemma find_cpu_upd [simp]:
  assumes "apicid x = apicid (cs ! i)"
  shows "find_cpu a k (cs[i := x]) = find_cpu a k cs"
proof (rule find_cpu_cong)
  show "map apicid (cs[i := x]) = map apicid cs"
    using assms by (cases "i < length cs") (auto simp: list_eq_iff_nth_eq nth_list_update list_update_beyond)
qed

lemma find_cpu_less: "find_cpu a 0 cs = Some i \<Longrightarrow> i < length cs"
  by (drule find_cpu_Some) simp

lemma mycpu_Ret [ret_iff]:
  "mycpu a s = Ret i t \<longleftrightarrow> \<not> ifl s a \<and> find_cpu a 0 (cpus s) = Some i \<and> t = s"
  by (auto simp: mycpu_def ret_iff split: option.splits)

lemma pushcli_Ret [ret_iff]:
  "pushcli a s = Ret u t \<longleftrightarrow> (\<exists>i. find_cpu a 0 (cpus s) = Some i \<and>
     t = s\<lparr>ifl := (ifl s)(a := False),
           cpus := (cpus s)[i := (cpus s ! i)
             \<lparr>intena := (if ncli (cpus s ! i) = 0 then ifl s a else intena (cpus s ! i)),
              ncli := ncli (cpus s ! i) + 1\<rparr>]\<rparr>)"
proof (cases "find_cpu a 0 (cpus s)")
  case (Some i)
  with find_cpu_less [OF this] show ?thesis
    by (simp add: pushcli_def cli_def upd_cpu_def ret_iff)
qed (simp add: pushcli_def cli_def ret_iff)

lemma popcli_Ret [ret_iff]:
  "popcli a s = Ret u t \<longleftrightarrow> (\<exists>i. find_cpu a 0 (cpus s) = Some i \<and> \<not> ifl s a \<and>
     1 \<le> ncli (cpus s ! i) \<and>
     t = s\<lparr>ifl := (if ncli (cpus s ! i) = 1 \<and> intena (cpus s ! i) then (ifl s)(a := True) else ifl s),
           cpus := (cpus s)[i := (cpus s ! i)\<lparr>ncli := ncli (cpus s ! i) - 1\<rparr>]\<rparr>)"
proof (cases "find_cpu a 0 (cpus s)")
  case (Some i)
  with find_cpu_less [OF this] show ?thesis
    by (simp add: popcli_def sti_def upd_cpu_def ret_iff) auto
qed (simp add: popcli_def ret_iff)

lemma holding_nested:
  assumes "find_cpu a 0 (cpus s) = Some i" "\<not> ifl s a" "1 \<le> ncli (cpus s ! i)"
  shows "holding a l s = Ret (lk_locked (locks s l) \<noteq> 0 \<and> lk_cpu (locks s l) = Some i) s"
proof -
  have i: "i < length (cpus s)"
    using assms(1) by (rule find_cpu_less)
  have same: "(ifl s)(a := False) = ifl s"
    using assms(2) by (simp add: fun_upd_idem_iff)
  show ?thesis
    using assms i by (simp add: holding_def ret_iff same)
qed

section \<open>Invariant\<close>

definition owns :: "lsys \<Rightarrow> u32 \<Rightarrow> lockid \<Rightarrow> bool" where
  "owns s a l \<longleftrightarrow> lpc s a = Took l \<or> l \<in> crit s a \<or> lpc s a = Dropping l"

definition pending :: "lsys \<Rightarrow> u32 \<Rightarrow> int" where
  "pending s a = (if lpc s a = Run then 0 else 1)"

definition cpu_inv :: "lsys \<Rightarrow> u32 \<Rightarrow> bool" where
  "cpu_inv s a \<longleftrightarrow> finite (crit s a) \<and>
     (\<forall>l. lpc s a \<in> {Spinning l, Took l, Dropping l} \<longrightarrow> l \<notin> crit s a) \<and>
     (case find_cpu a 0 (cpus s) of
        None \<Rightarrow> crit s a = {} \<and> lpc s a = Run
      | Some i \<Rightarrow> ncli (cpus s ! i) = int (card (crit s a)) + pending s a \<and>
          (0 < ncli (cpus s ! i) \<longrightarrow> \<not> ifl s a))"

definition lock_inv :: "lsys \<Rightarrow> lockid \<Rightarrow> bool" where
  "lock_inv s l \<longleftrightarrow>
     (lk_locked (locks s l) \<noteq> 0 \<longleftrightarrow> (\<exists>a. owns s a l)) \<and>
     (\<forall>a b. owns s a l \<and> owns s b l \<longrightarrow> a = b) \<and>
     (\<forall>a i. find_cpu a 0 (cpus s) = Some i \<longrightarrow> (lk_cpu (locks s l) = Some i \<longleftrightarrow> l \<in> crit s a))"

definition linv :: "lsys \<Rightarrow> bool" where
  "linv s \<longleftrightarrow> (\<forall>a. cpu_inv s a) \<and> (\<forall>l. lock_inv s l)"

lemma find_cpu_init: "find_cpu a k (map (\<lambda>c. c\<lparr>ncli := 0\<rparr>) cs) = find_cpu a k cs"
  by (rule find_cpu_cong) simp

lemma linv_init: "linv (init_lsys cs f)"
  by (auto simp: linv_def init_lsys_def cpu_inv_def lock_inv_def owns_def pending_def
      find_cpu_less find_cpu_init split: option.splits)


lemma cpu_inv_cong:
  assumes "cpu_inv s b" "find_cpu b 0 (cpus t) = find_cpu b 0 (cpus s)"
    "\<And>i. find_cpu b 0 (cpus s) = Some i \<Longrightarrow> ncli (cpus t ! i) = ncli (cpus s ! i)"
    "ifl t b = ifl s b" "crit t b = crit s b" "lpc t b = lpc s b"
  shows "cpu_inv t b"
  using assms by (auto simp: cpu_inv_def pending_def split: option.splits)

lemma lock_inv_cong:
  assumes "lock_inv s l" "locks t l = locks s l" "\<And>a. find_cpu a 0 (cpus t) = find_cpu a 0 (cpus s)"
    "\<And>a. owns t a l = owns s a l" "\<And>a. (l \<in> crit t a) = (l \<in> crit s a)"
  shows "lock_inv t l"
  using assms by (simp add: lock_inv_def)

lemma cpu_inv_ncli: "cpu_inv s a \<Longrightarrow> find_cpu a 0 (cpus s) = Some i \<Longrightarrow>
    ncli (cpus s ! i) = int (card (crit s a)) + pending s a"
  by (simp add: cpu_inv_def)

lemma acquire_enter_Ret:
  assumes "acquire_enter a l s = Ret u t" "\<And>i. find_cpu a 0 (cpus s) = Some i \<Longrightarrow> 0 \<le> ncli (cpus s ! i)"
  shows "\<exists>i. find_cpu a 0 (cpus s) = Some i \<and> pushcli a s = Ret () t \<and>
     \<not> (lk_locked (locks s l) \<noteq> 0 \<and> lk_cpu (locks s l) = Some i)"
proof -
  from assms(1) obtain r t1 where push: "pushcli a s = Ret () t1" and hold: "holding a l t1 = Ret r t"
    and "\<not> r"
    by (auto simp: acquire_enter_def ret_iff)
  from push obtain i where i: "find_cpu a 0 (cpus s) = Some i"
    by (auto simp: ret_iff)
  then have il: "i < length (cpus s)" by (rule find_cpu_less)
  have "holding a l t1 = Ret (lk_locked (locks t1 l) \<noteq> 0 \<and> lk_cpu (locks t1 l) = Some i) t1"
    by (rule holding_nested) (use push i il assms(2) in \<open>auto simp: ret_iff\<close>)
  with hold push i \<open>\<not> r\<close> show ?thesis
    by (auto simp: ret_iff)
qed

lemma holding_val:
  assumes "holding a l s = Ret r t"
  shows "\<exists>i. find_cpu a 0 (cpus s) = Some i \<and> r = (lk_locked (locks s l) \<noteq> 0 \<and> lk_cpu (locks s l) = Some i)"
  using assms by (auto simp: holding_def ret_iff)

lemma lstep_enter:
  assumes "linv s" "lpc s a = Run" "acquire_enter a l s = Ret () t"
  shows "linv (t\<lparr>lpc := (lpc t)(a := Spinning l)\<rparr>)"
proof -
  have ca: "cpu_inv s b" and li: "lock_inv s k" for b k
    using assms(1) by (auto simp: linv_def)
  from acquire_enter_Ret [OF assms(3)] cpu_inv_ncli [OF ca]
  obtain i where i: "find_cpu a 0 (cpus s) = Some i" and push: "pushcli a s = Ret () t"
    and nh: "\<not> (lk_locked (locks s l) \<noteq> 0 \<and> lk_cpu (locks s l) = Some i)"
    by (fastforce simp: pending_def)
  have il: "i < length (cpus s)" using i by (rule find_cpu_less)
  have oth: "find_cpu b 0 (cpus s) = Some j \<Longrightarrow> b \<noteq> a \<Longrightarrow> i \<noteq> j" for b j
    using i find_cpu_inj by blast
  have lnc: "l \<notin> crit s a"
    using nh li [of l] i by (auto simp: lock_inv_def owns_def)
  let ?t = "t\<lparr>lpc := (lpc t)(a := Spinning l)\<rparr>"
  have "cpu_inv ?t b" for b
  proof (cases "b = a")
    case True
    with ca [of a] push i il lnc assms(2) show ?thesis
      by (simp add: cpu_inv_def ret_iff pending_def)
  next
    case False
    show ?thesis
      by (rule cpu_inv_cong [OF ca]) (use False push i oth in \<open>auto simp: ret_iff\<close>)
  qed
  moreover have "lock_inv ?t k" for k
    by (rule lock_inv_cong [OF li]) (use push i assms(2) in \<open>auto simp: ret_iff owns_def\<close>)
  ultimately show ?thesis by (simp add: linv_def)
qed

lemma owns_unique: "linv s \<Longrightarrow> owns s a l \<Longrightarrow> owns s b l \<Longrightarrow> a = b"
  by (auto simp: linv_def lock_inv_def)

lemma lstep_spin:
  assumes "linv s" "lpc s a = Spinning l" "xchg_locked l 1 s = Ret old t"
  shows "linv (if old \<noteq> 0 then t else t\<lparr>lpc := (lpc t)(a := Took l)\<rparr>)"
proof -
  have ca: "cpu_inv s b" and li: "lock_inv s k" for b k
    using assms(1) by (auto simp: linv_def)
  have t: "t = upd_lock l (\<lambda>k. k\<lparr>lk_locked := 1\<rparr>) s" and old: "old = lk_locked (locks s l)"
    using assms(3) by (auto simp: xchg_locked_def ret_iff)
  show ?thesis
  proof (cases "old = 0")
    case False
    have "cpu_inv t b" for b
      by (rule cpu_inv_cong [OF ca]) (simp_all add: t upd_lock_def)
    moreover have "lock_inv t k" for k
      using li [of k] False old by (auto simp: lock_inv_def t upd_lock_def owns_def)
    ultimately show ?thesis using False by (simp add: linv_def)
  next
    case True
    let ?t = "t\<lparr>lpc := (lpc t)(a := Took l)\<rparr>"
    have free: "\<not> owns s b l" for b
      using li [of l] True old by (auto simp: lock_inv_def)
    have "cpu_inv ?t b" for b
    proof (cases "b = a")
      case True
      with ca [of a] assms(2) show ?thesis
        by (auto simp: cpu_inv_def t upd_lock_def pending_def split: option.splits)
    next
      case False
      show ?thesis by (rule cpu_inv_cong [OF ca]) (use False in \<open>simp_all add: t upd_lock_def\<close>)
    qed
    moreover have "lock_inv ?t k" for k
    proof -
      have own: "owns ?t b k \<longleftrightarrow> owns s b k \<or> b = a \<and> k = l" for b
        using assms(2) by (auto simp: owns_def t upd_lock_def)
      show ?thesis
        using li [of k] free unfolding lock_inv_def own by (auto simp: t upd_lock_def)
    qed
    ultimately show ?thesis using True by (simp add: linv_def)
  qed
qed

lemma lstep_took:
  assumes "linv s" "lpc s a = Took l" "acquire_record a l s = Ret () t"
  shows "linv (t\<lparr>lpc := (lpc t)(a := Run), crit := (crit t)(a := insert l (crit t a))\<rparr>)"
    (is "linv ?t")
proof -
  have ca: "cpu_inv s b" and li: "lock_inv s k" for b k
    using assms(1) by (auto simp: linv_def)
  from assms(3) obtain i where i: "find_cpu a 0 (cpus s) = Some i"
    and t: "t = upd_lock l (\<lambda>k. k\<lparr>lk_cpu := Some i\<rparr>) s"
    by (auto simp: acquire_record_def ret_iff)
  have own: "owns s a l" using assms(2) by (simp add: owns_def)
  have oth: "find_cpu b 0 (cpus s) = Some j \<Longrightarrow> b \<noteq> a \<Longrightarrow> i \<noteq> j" for b j
    using i find_cpu_inj by blast
  have "cpu_inv ?t b" for b
  proof (cases "b = a")
    case True
    with ca [of a] i assms(2) show ?thesis
      by (auto simp: cpu_inv_def t upd_lock_def pending_def)
  next
    case False
    show ?thesis by (rule cpu_inv_cong [OF ca]) (use False in \<open>simp_all add: t upd_lock_def\<close>)
  qed
  moreover have "lock_inv ?t k" for k
  proof (cases "k = l")
    case True
    have same: "owns ?t b l \<longleftrightarrow> owns s b l" for b
      using assms(2) by (auto simp: owns_def t upd_lock_def)
    have only: "b \<noteq> a \<Longrightarrow> l \<notin> crit s b" for b
      using owns_unique [OF assms(1) own] by (auto simp: owns_def)
    show ?thesis
      using True li [of l] i oth only unfolding lock_inv_def same [folded True] True same
      by (auto simp: t upd_lock_def)
  next
    case False
    show ?thesis
      by (rule lock_inv_cong [OF li]) (use False assms(2) in \<open>auto simp: t upd_lock_def owns_def\<close>)
  qed
  ultimately show ?thesis by (simp add: linv_def)
qed

lemma crit_ncli:
  assumes "cpu_inv s a" "l \<in> crit s a" "find_cpu a 0 (cpus s) = Some i"
  shows "1 \<le> ncli (cpus s ! i)" "\<not> ifl s a"
proof -
  have "card (crit s a) \<ge> 1"
    using assms by (auto simp: cpu_inv_def Suc_le_eq card_gt_0_iff)
  then show "1 \<le> ncli (cpus s ! i)"
    using cpu_inv_ncli [OF assms(1,3)] by (simp add: pending_def)
  then show "\<not> ifl s a"
    using assms(1,3) by (simp add: cpu_inv_def)
qed

lemma release_enter_Ret:
  assumes "linv s" "release_enter a l s = Ret () t"
  shows "l \<in> crit s a \<and> t = upd_lock l (\<lambda>k. k\<lparr>lk_cpu := None\<rparr>) s"
proof -
  from assms(2) obtain s1 where hold: "holding a l s = Ret True s1"
    and t: "t = upd_lock l (\<lambda>k. k\<lparr>lk_cpu := None\<rparr>) s1"
    by (auto simp: release_enter_def ret_iff)
  from holding_val [OF hold] obtain i where i: "find_cpu a 0 (cpus s) = Some i"
    and "lk_cpu (locks s l) = Some i" by auto
  then have c: "l \<in> crit s a"
    using assms(1) by (auto simp: linv_def lock_inv_def)
  have "cpu_inv s a" using assms(1) by (simp add: linv_def)
  from crit_ncli [OF this c i] hold i have "s1 = s"
    by (simp add: holding_nested)
  with c t show ?thesis by simp
qed

lemma lstep_drop:
  assumes "linv s" "lpc s a = Run" "release_enter a l s = Ret () t"
  shows "linv (t\<lparr>lpc := (lpc t)(a := Dropping l), crit := (crit t)(a := crit t a - {l})\<rparr>)"
    (is "linv ?t")
proof -
  have ca: "cpu_inv s b" and li: "lock_inv s k" for b k
    using assms(1) by (auto simp: linv_def)
  have c: "l \<in> crit s a" and t: "t = upd_lock l (\<lambda>k. k\<lparr>lk_cpu := None\<rparr>) s"
    using release_enter_Ret [OF assms(1,3)] by auto
  have own: "owns ?t b k \<longleftrightarrow> owns s b k" for b k
    using assms(2) c by (auto simp: owns_def t upd_lock_def)
  have only: "b \<noteq> a \<Longrightarrow> l \<notin> crit s b" for b
    using owns_unique [OF assms(1), of a l b] c by (auto simp: owns_def)
  have "cpu_inv ?t b" for b
  proof (cases "b = a")
    case True
    have "finite (crit s a)" using ca [of a] by (simp add: cpu_inv_def)
    with c have card: "int (card (crit s a - {l})) + 1 = int (card (crit s a))"
      using card_Suc_Diff1 [of "crit s a" l] by (simp del: card_Diff_singleton)
    show ?thesis
    proof (cases "find_cpu a 0 (cpus s)")
      case None
      then show ?thesis using ca [of a] c by (simp add: cpu_inv_def)
    next
      case (Some i)
      then show ?thesis using True ca [of a] assms(2) card
        by (simp add: cpu_inv_def t upd_lock_def pending_def del: card_Diff_singleton)
    qed
  next
    case False
    show ?thesis by (rule cpu_inv_cong [OF ca]) (use False in \<open>simp_all add: t upd_lock_def\<close>)
  qed
  moreover have "lock_inv ?t k" for k
  proof (cases "k = l")
    case True
    have gone: "l \<notin> crit ?t b" for b
      using only [of b] by (cases "b = a") (simp_all add: t upd_lock_def)
    have "locks ?t l = (locks s l)\<lparr>lk_cpu := None\<rparr>"
      by (simp add: t upd_lock_def)
    then show ?thesis
      using li [of l] gone unfolding lock_inv_def own True by simp
  next
    case False
    show ?thesis
      by (rule lock_inv_cong [OF li]) (use False own in \<open>auto simp: t upd_lock_def\<close>)
  qed
  ultimately show ?thesis by (simp add: linv_def)
qed

lemma lstep_dropped:
  assumes "linv s" "lpc s a = Dropping l" "release_exit a l s = Ret () t"
  shows "linv (t\<lparr>lpc := (lpc t)(a := Run)\<rparr>)" (is "linv ?t")
proof -
  have ca: "cpu_inv s b" and li: "lock_inv s k" for b k
    using assms(1) by (auto simp: linv_def)
  let ?s = "upd_lock l (\<lambda>k. k\<lparr>lk_locked := 0\<rparr>) s"
  have pop: "popcli a ?s = Ret () t"
    using assms(3) by (auto simp: release_exit_def ret_iff)
  then obtain i where i: "find_cpu a 0 (cpus s) = Some i"
    by (auto simp: ret_iff upd_lock_def)
  have il: "i < length (cpus s)" using i by (rule find_cpu_less)
  have oth: "find_cpu b 0 (cpus s) = Some j \<Longrightarrow> b \<noteq> a \<Longrightarrow> i \<noteq> j" for b j
    using i find_cpu_inj by blast
  have only: "owns s b l \<Longrightarrow> b = a" for b
    using owns_unique [OF assms(1), of a l b] assms(2) by (auto simp: owns_def)
  have lnc: "l \<notin> crit s b" for b
  proof
    assume "l \<in> crit s b"
    moreover have "b = a" by (rule only) (simp add: owns_def \<open>l \<in> crit s b\<close>)
    ultimately show False using ca [of a] assms(2) by (simp add: cpu_inv_def)
  qed
  have "cpu_inv ?t b" for b
  proof (cases "b = a")
    case True
    with ca [of a] pop i il assms(2) show ?thesis
      by (simp add: cpu_inv_def ret_iff upd_lock_def pending_def)
  next
    case False
    show ?thesis
      by (rule cpu_inv_cong [OF ca]) (use False pop i oth in \<open>auto simp: ret_iff upd_lock_def\<close>)
  qed
  moreover have "lock_inv ?t k" for k
  proof (cases "k = l")
    case True
    have lk: "locks ?t l = (locks s l)\<lparr>lk_locked := 0\<rparr>" "crit ?t = crit s"
      "find_cpu b 0 (cpus ?t) = find_cpu b 0 (cpus s)" "lpc ?t = (lpc s)(a := Run)" for b
      using pop i by (auto simp: ret_iff upd_lock_def)
    have none: "\<not> owns ?t b l" for b
      using only [of b] lnc [of b] unfolding owns_def lk by (cases "b = a") auto
    show ?thesis
      using li [of l] lnc none unfolding lock_inv_def True lk by simp
  next
    case False
    show ?thesis
      by (rule lock_inv_cong [OF li])
        (use False pop i assms(2) in \<open>auto simp: ret_iff upd_lock_def owns_def\<close>)
  qed
  ultimately show ?thesis by (simp add: linv_def)
qed

lemma lstep_enable:
  assumes "linv s" "lpc s a = Run" "crit s a = {}" "sti a s = Ret () t"
  shows "linv t"
proof -
  have ca: "cpu_inv s b" and li: "lock_inv s k" for b k
    using assms(1) by (auto simp: linv_def)
  have t: "t = s\<lparr>ifl := (ifl s)(a := True)\<rparr>"
    using assms(4) by (simp add: sti_def ret_iff)
  have "cpu_inv t b" for b
    using ca [of b] assms(2,3)
    by (cases "b = a") (auto simp: t cpu_inv_def pending_def split: option.splits)
  moreover have "lock_inv t k" for k
    by (rule lock_inv_cong [OF li]) (simp_all add: t owns_def)
  ultimately show ?thesis by (simp add: linv_def)
qed

lemma lstep_linv: "lstep s t \<Longrightarrow> linv s \<Longrightarrow> linv t"
proof (induction rule: lstep.induct)
  case (enter s a l t) then show ?case by (blast intro: lstep_enter)
next
  case (spin s a l old t) then show ?case by (blast intro: lstep_spin)
next
  case (took s a l t) then show ?case by (blast intro: lstep_took)
next
  case (drop s a l t) then show ?case by (blast intro: lstep_drop)
next
  case (dropped s a l t) then show ?case by (blast intro: lstep_dropped)
next
  case (enable s a t) then show ?case by (blast intro: lstep_enable)
qed

lemma lreach_linv: "lreach cs f s \<Longrightarrow> linv s"
  by (induction rule: lreach.induct) (auto intro: linv_init lstep_linv)

text \<open>
  C5. However the CPUs interleave in \<open>acquire\<close> and \<open>release\<close>, no two CPUs are past \<open>acquire\<close> of
  the same lock, and a CPU that holds a lock runs with its interrupts off.
\<close>

theorem mutual_exclusion:
  assumes "lreach cs f s" "l \<in> crit s a" "l \<in> crit s b"
  shows "a = b \<and> \<not> ifl s a \<and> lk_locked (locks s l) \<noteq> 0"
proof -
  have inv: "linv s" using assms(1) by (rule lreach_linv)
  then have ca: "cpu_inv s a" and li: "lock_inv s l" by (auto simp: linv_def)
  have own: "owns s a l" "owns s b l" using assms(2,3) by (auto simp: owns_def)
  obtain i where "find_cpu a 0 (cpus s) = Some i"
    using ca assms(2) by (auto simp: cpu_inv_def split: option.splits)
  from crit_ncli(2) [OF ca assms(2) this] owns_unique [OF inv own] li own(1)
  show ?thesis by (auto simp: lock_inv_def)
qed

lemma acquire_enter_cases:
  assumes "find_cpu a 0 (cpus s) = Some i" "0 \<le> ncli (cpus s ! i)" "pushcli a s = Ret () t"
  shows "acquire_enter a l s =
    (if lk_locked (locks s l) \<noteq> 0 \<and> lk_cpu (locks s l) = Some i then Panic ''acquire'' else Ret () t)"
proof -
  have il: "i < length (cpus s)" using assms(1) by (rule find_cpu_less)
  have "holding a l t = Ret (lk_locked (locks t l) \<noteq> 0 \<and> lk_cpu (locks t l) = Some i) t"
    by (rule holding_nested) (use assms il in \<open>auto simp: ret_iff\<close>)
  then show ?thesis
    using assms by (auto simp: acquire_enter_def km_simps ret_iff)
qed

text \<open>
  C14. \<open>acquire\<close> from any reachable state: it panics exactly for a lock this CPU holds, it spins
  exactly while another CPU owns the lock, and otherwise it returns with the lock word set,
  this CPU recorded as the holder and interrupts off.
\<close>

theorem acquire_cases:
  assumes "lreach cs f s" "lpc s a = Run" "find_cpu a 0 (cpus s) = Some i"
  shows "case acquire a l s of
      Panic m \<Rightarrow> l \<in> crit s a \<and> m = ''acquire''
    | Spin t \<Rightarrow> \<exists>b. b \<noteq> a \<and> owns s b l
    | Ret _ t \<Rightarrow> (\<forall>b. \<not> owns s b l) \<and> \<not> ifl t a \<and> locks t l = \<lparr>lk_locked = 1, lk_cpu = Some i\<rparr>
    | Sleep _ _ \<Rightarrow> False"
proof -
  have inv: "linv s" using assms(1) by (rule lreach_linv)
  then have ca: "cpu_inv s a" and li: "lock_inv s l" by (auto simp: linv_def)
  have il: "i < length (cpus s)" using assms(3) by (rule find_cpu_less)
  have n0: "0 \<le> ncli (cpus s ! i)"
    using cpu_inv_ncli [OF ca assms(3)] by (simp add: pending_def)
  obtain t where push: "pushcli a s = Ret () t"
    using assms(3) by (auto simp: ret_iff)
  have t: "\<not> ifl t a" "find_cpu a 0 (cpus t) = Some i" "locks t = locks s"
    using push assms(3) by (auto simp: ret_iff)
  note enter = acquire_enter_cases [OF assms(3) n0 push, of l]
  show ?thesis
  proof (cases "l \<in> crit s a")
    case True
    then have "lk_locked (locks s l) \<noteq> 0" "lk_cpu (locks s l) = Some i"
      using li assms(3) by (auto simp: lock_inv_def owns_def)
    with True show ?thesis by (simp add: acquire_def km_simps enter)
  next
    case False
    then have e: "acquire_enter a l s = Ret () t"
      using li assms(3) by (auto simp: lock_inv_def enter)
    have na: "\<not> owns s a l" using False assms(2) by (simp add: owns_def)
    show ?thesis
    proof (cases "lk_locked (locks s l) = 0")
      case True
      have m: "mycpu a (upd_lock l (\<lambda>k. k\<lparr>lk_locked := 1\<rparr>) t) =
          Ret i (upd_lock l (\<lambda>k. k\<lparr>lk_locked := 1\<rparr>) t)"
        using t by (simp add: ret_iff upd_lock_def)
      show ?thesis
        using True li t m
        by (simp add: acquire_def km_simps e xchg_locked_def acquire_record_def upd_lock_def lock_inv_def)
    next
      case False
      then have "\<exists>b. b \<noteq> a \<and> owns s b l" using li na by (auto simp: lock_inv_def)
      with False t show ?thesis
        by (simp add: acquire_def km_simps e xchg_locked_def)
    qed
  qed
qed

text \<open>A whole \<open>acquire\<close>, and a whole \<open>release\<close>, is a run of the step relation.\<close>

lemma lreach_acquire:
  assumes "lreach cs f s" "lpc s a = Run" "acquire a l s = Ret () t"
  shows "lreach cs f (t\<lparr>lpc := (lpc t)(a := Run), crit := (crit t)(a := insert l (crit t a))\<rparr>)"
proof -
  from assms(3) obtain t1 t2 where e: "acquire_enter a l s = Ret () t1"
    and x: "xchg_locked l 1 t1 = Ret 0 t2" and r: "acquire_record a l t2 = Ret () t"
    by (auto simp: acquire_def ret_iff split: if_splits)
  let ?s1 = "t1\<lparr>lpc := (lpc t1)(a := Spinning l)\<rparr>"
  let ?s2 = "t2\<lparr>lpc := (lpc t2)(a := Took l)\<rparr>"
  have 1: "lreach cs f ?s1"
    using assms(1,2) e by (blast intro: lreach.step lstep.enter)
  have "xchg_locked l 1 ?s1 = Ret 0 (t2\<lparr>lpc := (lpc t2)(a := Spinning l)\<rparr>)"
    using x by (auto simp: xchg_locked_def ret_iff upd_lock_def)
  from lstep.spin [OF _ this, of a] have "lstep ?s1 ?s2" by simp
  with 1 have 2: "lreach cs f ?s2" by (rule lreach.step)
  have "acquire_record a l ?s2 = Ret () (t\<lparr>lpc := (lpc t)(a := Took l)\<rparr>)"
    using r by (auto simp: acquire_record_def ret_iff upd_lock_def)
  from lstep.took [OF _ this] have "lstep ?s2
      (t\<lparr>lpc := (lpc t)(a := Run), crit := (crit t)(a := insert l (crit t a))\<rparr>)" by simp
  with 2 show ?thesis by (rule lreach.step)
qed

definition demo_cpu :: cpu where
  "demo_cpu = \<lparr>apicid = 0, ncli = 0, intena = False\<rparr>"

lemma demo_acquire: "\<exists>t. acquire 0 LkKmem (init_lsys [demo_cpu] (\<lambda>_. True)) = Ret () t"
  by (simp add: acquire_def acquire_enter_def holding_def acquire_record_def xchg_locked_def
      ret_iff upd_lock_def init_lsys_def demo_cpu_def) auto

theorem mutual_exclusion_witness:
  "\<exists>s. lreach [demo_cpu] (\<lambda>_. True) s \<and> LkKmem \<in> crit s 0 \<and> \<not> ifl s 0"
proof -
  obtain t where t: "acquire 0 LkKmem (init_lsys [demo_cpu] (\<lambda>_. True)) = Ret () t"
    using demo_acquire by blast
  let ?s = "t\<lparr>lpc := (lpc t)(0 := Run), crit := (crit t)(0 := insert LkKmem (crit t 0))\<rparr>"
  have r: "lreach [demo_cpu] (\<lambda>_. True) ?s"
    by (rule lreach_acquire [OF lreach.init _ t]) (simp add: init_lsys_def)
  have c: "LkKmem \<in> crit ?s 0" by simp
  from mutual_exclusion [OF r c c] r c show ?thesis by blast
qed

theorem acquire_cases_witness: "\<not> (\<exists>m. acquire 0 LkKmem (init_lsys [demo_cpu] (\<lambda>_. True)) = Panic m)"
  using acquire_cases [OF lreach.init, of "[demo_cpu]" "\<lambda>_. True" 0 0 LkKmem]
  by (auto simp: init_lsys_def demo_cpu_def)

end
