(* ===== verification/Machine.thy ===== *)
theory Machine
  imports Layout
begin

text \<open>
  The base of the kernel state: the spin locks the running kernel thread holds, the process
  table of \<open>proc.c\<close> with \<open>struct proc\<close> of \<open>proc.h\<close>, the sleep locks of \<open>sleeplock.c\<close>, and
  the operations every other component calls: \<open>acquire\<close> and \<open>release\<close> as seen by one kernel
  thread, \<open>sched\<close>, \<open>sleep\<close>, \<open>wakeup1\<close>, \<open>wakeup\<close>, and \<open>acquiresleep\<close>, \<open>releasesleep\<close>,
  \<open>holdingsleep\<close>.
  Spin locks are modelled per CPU, with interrupts, in \<open>Spinlock\<close>; here a thread sees which
  locks it holds. Lemmas: what each operation returns from a state with no spin lock held,
  a thread that goes to sleep holds no lock but \<open>ptable.lock\<close>, \<open>wakeup\<close> on every process.
\<close>

section \<open>proc.h\<close>

datatype procstate = UNUSED | EMBRYO | SLEEPING | RUNNABLE | RUNNING | ZOMBIE

record trapframe =
  tf_edi :: u32
  tf_esi :: u32
  tf_ebp :: u32
  tf_oesp :: u32
  tf_ebx :: u32
  tf_edx :: u32
  tf_ecx :: u32
  tf_eax :: u32
  tf_gs :: u16
  tf_fs :: u16
  tf_es :: u16
  tf_ds :: u16
  tf_trapno :: u32
  tf_err :: u32
  tf_eip :: u32
  tf_cs :: u16
  tf_eflags :: u32
  tf_esp :: u32
  tf_ss :: u16

text \<open>
  \<open>struct proc\<close>. A pointer into the process table, the file table or the inode cache is
  the index of the entry, 0 is \<open>None\<close>. \<open>tf\<close> points into the kernel stack, of which the
  model keeps the trap frame it holds and where the saved context resumes: nowhere, at \<open>forkret\<close> or
  inside \<open>sched\<close>.
\<close>

datatype kcode = NoCode | ForkRet | InSched

record proc =
  psz :: u32
  pgdir :: u32
  kstack :: u32
  pstate :: procstate
  pid :: u32
  parent :: "nat option"
  ptf :: trapframe
  ctx_eip :: kcode
  pchan :: "chan option"
  killed :: bool
  ofile :: "nat option list"
  cwd :: "nat option"
  pname :: "u8 list"

record sleeplock =
  locked :: bool
  slpid :: u32

text \<open>
  \<open>held\<close>: the spin locks this kernel thread holds. \<open>cur\<close>: \<open>mycpu()->proc\<close>. \<open>slocks\<close>: the
  sleep locks embedded in buffers and inodes, by their owner.
\<close>

record kbase =
  held :: "lockid set"
  cur :: "nat option"
  ptable :: "proc list"
  nextpid :: u32
  initproc :: "nat option"
  ticks :: u32
  slocks :: "slk \<Rightarrow> sleeplock"

section \<open>Spin locks of a kernel thread\<close>

definition lk_acquire :: "lockid \<Rightarrow> ('z kbase_scheme, unit) km" where
  "lk_acquire l = bindK (getK held) (\<lambda>h.
     thenK (assertK (l \<notin> h) ''acquire'') (modK (\<lambda>s. s\<lparr>held := insert l (held s)\<rparr>)))"

definition lk_release :: "lockid \<Rightarrow> ('z kbase_scheme, unit) km" where
  "lk_release l = bindK (getK held) (\<lambda>h.
     thenK (assertK (l \<in> h) ''release'') (modK (\<lambda>s. s\<lparr>held := held s - {l}\<rparr>)))"

section \<open>The current process\<close>

definition myproc :: "('z kbase_scheme, nat option) km" where
  "myproc = getK cur"

text \<open>\<open>myproc()->field\<close>: a null current process would fault in the kernel, which panics.\<close>

definition curproc :: "('z kbase_scheme, nat) km" where
  "curproc = bindK myproc (\<lambda>p. case p of None \<Rightarrow> panicK ''trap'' | Some i \<Rightarrow> retK i)"

definition upd_proc :: "nat \<Rightarrow> (proc \<Rightarrow> proc) \<Rightarrow> 'z kbase_scheme \<Rightarrow> 'z kbase_scheme" where
  "upd_proc i f s = s\<lparr>ptable := (ptable s)[i := f (ptable s ! i)]\<rparr>"

definition upd_slk :: "slk \<Rightarrow> sleeplock \<Rightarrow> 'z kbase_scheme \<Rightarrow> 'z kbase_scheme" where
  "upd_slk lk v s = s\<lparr>slocks := (slocks s)(lk := v)\<rparr>"

definition curpid :: "'z kbase_scheme \<Rightarrow> u32" where
  "curpid s = pid (ptable s ! the (cur s))"

section \<open>proc.c: sleep and wakeup\<close>

text \<open>
  \<open>sched\<close> checks that the caller holds \<open>ptable.lock\<close> and nothing else and that its process
  is not \<open>RUNNING\<close>, then switches to the scheduler: the thread is suspended. The channel is
  the one the process sleeps on. That \<open>ncli\<close> is 1 is said as: \<open>ptable.lock\<close> is the only lock held. The flag
  \<open>FL_IF\<close> is part of the model of \<open>Spinlock\<close> only, so the check \<open>sched interruptible\<close> is left out here.
\<close>

definition sched :: "chan \<Rightarrow> ('z kbase_scheme, unit) km" where
  "sched c = bindK curproc (\<lambda>p. bindK (getK held) (\<lambda>h. bindK (getK ptable) (\<lambda>t.
     thenK (assertK (LkPtable \<in> h) ''sched ptable.lock'')
    (thenK (assertK (h = {LkPtable}) ''sched locks'')
    (thenK (assertK (pstate (t ! p) \<noteq> RUNNING) ''sched running'')
    (\<lambda>s. Sleep c s))))))"

definition sleep :: "chan \<Rightarrow> lockid \<Rightarrow> ('z kbase_scheme, unit) km" where
  "sleep c lk = bindK myproc (\<lambda>mp. case mp of None \<Rightarrow> panicK ''sleep'' | Some p \<Rightarrow>
     thenK (if lk \<noteq> LkPtable then thenK (lk_acquire LkPtable) (lk_release lk) else retK ())
    (thenK (modK (upd_proc p (\<lambda>q. q\<lparr>pchan := Some c, pstate := SLEEPING\<rparr>)))
     (sched c)))"

text \<open>What \<open>sleep\<close> does once the scheduler has switched back to the thread.\<close>

definition sleep_resume :: "lockid \<Rightarrow> ('z kbase_scheme, unit) km" where
  "sleep_resume lk = bindK curproc (\<lambda>p.
     thenK (modK (upd_proc p (\<lambda>q. q\<lparr>pchan := None\<rparr>)))
     (if lk \<noteq> LkPtable then thenK (lk_release LkPtable) (lk_acquire lk) else retK ()))"

definition wakeup_proc :: "chan \<Rightarrow> proc \<Rightarrow> proc" where
  "wakeup_proc c p =
     (if pstate p = SLEEPING \<and> pchan p = Some c then p\<lparr>pstate := RUNNABLE\<rparr> else p)"

definition wakeup1 :: "chan \<Rightarrow> ('z kbase_scheme, unit) km" where
  "wakeup1 c = modK (\<lambda>s. s\<lparr>ptable := map (wakeup_proc c) (ptable s)\<rparr>)"

definition wakeup :: "chan \<Rightarrow> ('z kbase_scheme, unit) km" where
  "wakeup c = thenK (lk_acquire LkPtable) (thenK (wakeup1 c) (lk_release LkPtable))"

section \<open>sleeplock.c\<close>

definition initsleeplock :: "slk \<Rightarrow> ('z kbase_scheme, unit) km" where
  "initsleeplock lk = modK (upd_slk lk \<lparr>locked = False, slpid = 0\<rparr>)"

text \<open>
  \<open>while(lk->locked) sleep(lk, &lk->lk)\<close>: a thread that finds the lock taken is suspended;
  when it runs again it tests the lock again.
\<close>

definition acquiresleep :: "slk \<Rightarrow> ('z kbase_scheme, unit) km" where
  "acquiresleep lk =
     thenK (lk_acquire (LkSlk lk))
    (bindK (getK (\<lambda>s. locked (slocks s lk))) (\<lambda>b.
     thenK (if b then sleep (ChSlk lk) (LkSlk lk) else retK ())
    (bindK curproc (\<lambda>p. bindK (getK ptable) (\<lambda>t.
     thenK (modK (upd_slk lk \<lparr>locked = True, slpid = pid (t ! p)\<rparr>))
     (lk_release (LkSlk lk)))))))"

definition releasesleep :: "slk \<Rightarrow> ('z kbase_scheme, unit) km" where
  "releasesleep lk =
     thenK (lk_acquire (LkSlk lk))
    (thenK (modK (upd_slk lk \<lparr>locked = False, slpid = 0\<rparr>))
    (thenK (wakeup (ChSlk lk))
     (lk_release (LkSlk lk))))"

definition holdingsleep :: "slk \<Rightarrow> ('z kbase_scheme, bool) km" where
  "holdingsleep lk =
     thenK (lk_acquire (LkSlk lk))
    (bindK curproc (\<lambda>p. bindK (getK id) (\<lambda>s.
     let r = locked (slocks s lk) \<and> slpid (slocks s lk) = pid (ptable s ! p) in
     thenK (lk_release (LkSlk lk)) (retK r))))"

section \<open>Lemmas\<close>

lemmas lk_defs = lk_acquire_def lk_release_def

lemma lk_acquire_free [simp]:
  "l \<notin> held s \<Longrightarrow> lk_acquire l s = Ret () (s\<lparr>held := insert l (held s)\<rparr>)"
  by (simp add: lk_acquire_def km_simps)

lemma lk_acquire_held: "l \<in> held s \<Longrightarrow> lk_acquire l s = Panic ''acquire''"
  by (simp add: lk_acquire_def km_simps)

lemma lk_release_held [simp]:
  "l \<in> held s \<Longrightarrow> lk_release l s = Ret () (s\<lparr>held := held s - {l}\<rparr>)"
  by (simp add: lk_release_def km_simps)

lemma lk_release_free: "l \<notin> held s \<Longrightarrow> lk_release l s = Panic ''release''"
  by (simp add: lk_release_def km_simps)

lemma lk_Ret [ret_iff]:
  "lk_acquire l s = Ret u t \<longleftrightarrow> l \<notin> held s \<and> t = s\<lparr>held := insert l (held s)\<rparr>"
  "lk_release l s = Ret u t \<longleftrightarrow> l \<in> held s \<and> t = s\<lparr>held := held s - {l}\<rparr>"
  by (auto simp: lk_defs ret_iff)

lemma curproc_Ret [ret_iff]: "curproc s = Ret i t \<longleftrightarrow> cur s = Some i \<and> t = s"
  by (auto simp: curproc_def myproc_def ret_iff split: option.splits)

lemma curproc_Some [simp]: "cur s = Some i \<Longrightarrow> curproc s = Ret i s"
  by (simp add: ret_iff)

lemma sched_never_Ret [ret_iff]: "sched c s = Ret u t \<longleftrightarrow> False"
  by (auto simp: sched_def ret_iff)

lemma sleep_never_Ret [ret_iff]: "sleep c lk s = Ret u t \<longleftrightarrow> False"
  by (auto simp: sleep_def myproc_def ret_iff split: option.splits)

lemma wakeup_Ret [ret_iff]:
  "wakeup c s = Ret u t \<longleftrightarrow> LkPtable \<notin> held s \<and> t = s\<lparr>ptable := map (wakeup_proc c) (ptable s)\<rparr>"
  by (auto simp: wakeup_def wakeup1_def ret_iff)

lemma wakeup_ok [simp]:
  "LkPtable \<notin> held s \<Longrightarrow> wakeup c s = Ret () (s\<lparr>ptable := map (wakeup_proc c) (ptable s)\<rparr>)"
  by (simp add: ret_iff)

lemma wakeup_proc_fields [simp]:
  "psz (wakeup_proc c p) = psz p" "pgdir (wakeup_proc c p) = pgdir p"
  "kstack (wakeup_proc c p) = kstack p" "pid (wakeup_proc c p) = pid p"
  "parent (wakeup_proc c p) = parent p" "ptf (wakeup_proc c p) = ptf p"
  "pchan (wakeup_proc c p) = pchan p" "killed (wakeup_proc c p) = killed p"
  "ofile (wakeup_proc c p) = ofile p" "cwd (wakeup_proc c p) = cwd p"
  "pname (wakeup_proc c p) = pname p" "ctx_eip (wakeup_proc c p) = ctx_eip p"
  by (simp_all add: wakeup_proc_def)

lemma acquiresleep_Ret [ret_iff]:
  "acquiresleep lk s = Ret u t \<longleftrightarrow>
     LkSlk lk \<notin> held s \<and> \<not> locked (slocks s lk) \<and> (\<exists>i. cur s = Some i) \<and>
     t = s\<lparr>slocks := (slocks s)(lk := \<lparr>locked = True, slpid = curpid s\<rparr>)\<rparr>"
  by (auto simp: acquiresleep_def ret_iff curpid_def upd_slk_def split: if_splits)

lemma acquiresleep_ok [simp]:
  "LkSlk lk \<notin> held s \<Longrightarrow> \<not> locked (slocks s lk) \<Longrightarrow> cur s = Some i \<Longrightarrow>
   acquiresleep lk s = Ret () (s\<lparr>slocks := (slocks s)(lk := \<lparr>locked = True, slpid = curpid s\<rparr>)\<rparr>)"
  by (simp add: ret_iff)

lemma releasesleep_Ret [ret_iff]:
  "releasesleep lk s = Ret u t \<longleftrightarrow>
     LkSlk lk \<notin> held s \<and> LkPtable \<notin> held s \<and>
     t = s\<lparr>slocks := (slocks s)(lk := \<lparr>locked = False, slpid = 0\<rparr>),
           ptable := map (wakeup_proc (ChSlk lk)) (ptable s)\<rparr>"
  by (auto simp: releasesleep_def ret_iff upd_slk_def)

lemma holdingsleep_Ret [ret_iff]:
  "holdingsleep lk s = Ret r t \<longleftrightarrow>
     LkSlk lk \<notin> held s \<and> (\<exists>i. cur s = Some i) \<and> t = s \<and>
     r = (locked (slocks s lk) \<and> slpid (slocks s lk) = curpid s)"
  by (auto simp: holdingsleep_def ret_iff curpid_def Let_def)

end
