(* ===== verification/CString.thy ===== *)
theory CString
  imports Layout
begin

text \<open>
  \<open>string.c\<close>, and the string routines of \<open>ulib.c\<close>, over a memory of bytes addressed by 32-bit
  words, with the loops as the C code has them (address arithmetic wraps). Lemmas: \<open>memset\<close>
  with word stores equals its byte-wise reading, \<open>memmove\<close> copies the old bytes also when
  source and destination overlap, \<open>memcmp\<close>, \<open>strncmp\<close>, \<open>strlen\<close> against the contents of the
  strings, \<open>strncpy\<close> pads, \<open>safestrcpy\<close> terminates. The list-level routines at the end read a
  string as the list of its bytes; the file system uses those.
\<close>

type_synonym bytes = "u32 \<Rightarrow> u8"

section \<open>Bytes and words of memory\<close>

definition load32 :: "bytes \<Rightarrow> u32 \<Rightarrow> u32" where
  "load32 m a = ucast (m a) OR push_bit 8 (ucast (m (a + 1)))
     OR push_bit 16 (ucast (m (a + 2))) OR push_bit 24 (ucast (m (a + 3)))"

definition store32 :: "u32 \<Rightarrow> u32 \<Rightarrow> bytes \<Rightarrow> bytes" where
  "store32 a w m = m(a := ucast w, a + 1 := ucast (drop_bit 8 w),
     a + 2 := ucast (drop_bit 16 w), a + 3 := ucast (drop_bit 24 w))"

definition slice :: "bytes \<Rightarrow> u32 \<Rightarrow> nat \<Rightarrow> u8 list" where
  "slice m a n = map (\<lambda>i. m (a + of_nat i)) [0..<n]"

section \<open>memset\<close>

fun stosb :: "u32 \<Rightarrow> u8 \<Rightarrow> nat \<Rightarrow> bytes \<Rightarrow> bytes" where
  "stosb a c 0 m = m"
| "stosb a c (Suc n) m = stosb (a + 1) c n (m(a := c))"

fun stosl :: "u32 \<Rightarrow> u32 \<Rightarrow> nat \<Rightarrow> bytes \<Rightarrow> bytes" where
  "stosl a w 0 m = m"
| "stosl a w (Suc n) m = stosl (a + 4) w n (store32 a w m)"

definition memset :: "u32 \<Rightarrow> u32 \<Rightarrow> u32 \<Rightarrow> bytes \<Rightarrow> bytes" where
  "memset dst c n m =
     (if dst mod 4 = 0 \<and> n mod 4 = 0 then
        let c = c AND 0xFF in
        stosl dst (push_bit 24 c OR push_bit 16 c OR push_bit 8 c OR c) (unat (n div 4)) m
      else stosb dst (ucast c) (unat n) m)"

section \<open>memmove and memcmp\<close>

fun copy_up :: "u32 \<Rightarrow> u32 \<Rightarrow> nat \<Rightarrow> bytes \<Rightarrow> bytes" where
  "copy_up d s 0 m = m"
| "copy_up d s (Suc n) m = copy_up (d + 1) (s + 1) n (m(d := m s))"

fun copy_down :: "u32 \<Rightarrow> u32 \<Rightarrow> nat \<Rightarrow> bytes \<Rightarrow> bytes" where
  "copy_down d s 0 m = m"
| "copy_down d s (Suc n) m = copy_down (d - 1) (s - 1) n (m(d - 1 := m (s - 1)))"

definition memmove :: "u32 \<Rightarrow> u32 \<Rightarrow> u32 \<Rightarrow> bytes \<Rightarrow> bytes" where
  "memmove dst src n m =
     (if src < dst \<and> src + n > dst then copy_down (dst + n) (src + n) (unat n) m
      else copy_up dst src (unat n) m)"

definition memcpy :: "u32 \<Rightarrow> u32 \<Rightarrow> u32 \<Rightarrow> bytes \<Rightarrow> bytes" where
  "memcpy dst src n m = memmove dst src n m"

fun memcmp :: "bytes \<Rightarrow> u32 \<Rightarrow> u32 \<Rightarrow> nat \<Rightarrow> int" where
  "memcmp m s1 s2 0 = 0"
| "memcmp m s1 s2 (Suc n) =
     (if m s1 \<noteq> m s2 then uint (m s1) - uint (m s2) else memcmp m (s1 + 1) (s2 + 1) n)"

section \<open>Strings\<close>

fun strncmp :: "bytes \<Rightarrow> u32 \<Rightarrow> u32 \<Rightarrow> nat \<Rightarrow> int" where
  "strncmp m p q 0 = 0"
| "strncmp m p q (Suc n) =
     (if m p \<noteq> 0 \<and> m p = m q then strncmp m (p + 1) (q + 1) n
      else uint (m p) - uint (m q))"

text \<open>The two loops of \<open>strncpy\<close>; the count is the \<open>int\<close> that is decremented to below 0.\<close>

fun fill0 :: "u32 \<Rightarrow> nat \<Rightarrow> bytes \<Rightarrow> bytes" where
  "fill0 s 0 m = m"
| "fill0 s (Suc n) m = fill0 (s + 1) n (m(s := 0))"

fun strncpy_loop :: "u32 \<Rightarrow> u32 \<Rightarrow> nat \<Rightarrow> bytes \<Rightarrow> bytes" where
  "strncpy_loop s t 0 m = m"
| "strncpy_loop s t (Suc n) m =
     (if m t \<noteq> 0 then strncpy_loop (s + 1) (t + 1) n (m(s := m t))
      else fill0 (s + 1) n (m(s := m t)))"

definition strncpy :: "u32 \<Rightarrow> u32 \<Rightarrow> int \<Rightarrow> bytes \<Rightarrow> bytes" where
  "strncpy s t n m = strncpy_loop s t (nat n) m"

fun safestrcpy_loop :: "u32 \<Rightarrow> u32 \<Rightarrow> nat \<Rightarrow> bytes \<Rightarrow> bytes" where
  "safestrcpy_loop s t 0 m = m(s := 0)"
| "safestrcpy_loop s t (Suc n) m =
     (if m t \<noteq> 0 then safestrcpy_loop (s + 1) (t + 1) n (m(s := m t))
      else (m(s := m t))(s + 1 := 0))"

definition safestrcpy :: "u32 \<Rightarrow> u32 \<Rightarrow> int \<Rightarrow> bytes \<Rightarrow> bytes" where
  "safestrcpy s t n m = (if n \<le> 0 then m else safestrcpy_loop s t (nat (n - 1)) m)"

text \<open>\<open>strlen\<close> runs until it reads a NUL; without one it does not return.\<close>

partial_function (option) strlen_loop :: "bytes \<Rightarrow> u32 \<Rightarrow> nat \<Rightarrow> nat option" where
  "strlen_loop m s n = (if m (s + of_nat n) = 0 then Some n else strlen_loop m s (Suc n))"

definition strlen :: "bytes \<Rightarrow> u32 \<Rightarrow> nat option" where
  "strlen m s = strlen_loop m s 0"

section \<open>Strings as lists\<close>

text \<open>
  A \<open>char *\<close> as the list of the bytes it points to; past the end of the list lies the
  terminating NUL. \<open>cname n xs\<close>: the C string at the head of \<open>xs\<close>, of at most \<open>n\<close> bytes.
\<close>

definition hd0 :: "u8 list \<Rightarrow> u8" where
  "hd0 xs = (case xs of [] \<Rightarrow> 0 | x # _ \<Rightarrow> x)"

definition cname :: "nat \<Rightarrow> u8 list \<Rightarrow> u8 list" where
  "cname n xs = takeWhile (\<lambda>c. c \<noteq> 0) (take n xs)"

fun strncmpL :: "u8 list \<Rightarrow> u8 list \<Rightarrow> nat \<Rightarrow> int" where
  "strncmpL p q 0 = 0"
| "strncmpL p q (Suc n) =
     (if hd0 p \<noteq> 0 \<and> hd0 p = hd0 q then strncmpL (tl p) (tl q) n
      else uint (hd0 p) - uint (hd0 q))"

fun strncpyL :: "u8 list \<Rightarrow> nat \<Rightarrow> u8 list" where
  "strncpyL t 0 = []"
| "strncpyL t (Suc n) =
     (if hd0 t \<noteq> 0 then hd0 t # strncpyL (tl t) n else hd0 t # replicate n 0)"

fun safestrcpyL :: "u8 list \<Rightarrow> nat \<Rightarrow> u8 list" where
  "safestrcpyL t 0 = [0]"
| "safestrcpyL t (Suc n) = (if hd0 t \<noteq> 0 then hd0 t # safestrcpyL (tl t) n else [0, 0])"

section \<open>Stores and copies\<close>

lemma unat_minus_1: "y \<noteq> 0 \<Longrightarrow> unat (y - 1 :: u32) = unat y - 1"
  using unat_sub [of 1 y] by (simp add: word_le_nat_alt unat_eq_0 [symmetric] Suc_le_eq)

lemma unat_less_Suc: "n < 4294967296 \<Longrightarrow>
    unat (x - a :: u32) < Suc n \<longleftrightarrow> x = a \<or> unat (x - (a + 1)) < n \<and> x \<noteq> a"
  using unat_minus_1 [of "x - a"] unat_eq_0 [of "x - a"]
  by (cases "x = a") (auto simp: algebra_simps)

lemma stosb_apply:
  "n < 4294967296 \<Longrightarrow> stosb a c n m x = (if unat (x - a) < n then c else m x)"
proof (induction n arbitrary: a m)
  case (Suc n)
  then have n: "n < 4294967296" by simp
  show ?case
    unfolding stosb.simps(2) Suc.IH [OF n] unat_less_Suc [OF n] by auto
qed simp

lemma stosb_add: "stosb a c (n + k) m = stosb (a + of_nat n) c k (stosb a c n m)"
  by (induction n arbitrary: a m) (simp_all add: algebra_simps)

lemma memset_word:
  fixes c :: u32
  defines "k \<equiv> c AND 0xFF"
  defines "w \<equiv> push_bit 24 k OR push_bit 16 k OR push_bit 8 k OR k"
  shows "ucast w = (ucast c :: u8)" "ucast (drop_bit 8 w) = (ucast c :: u8)"
    "ucast (drop_bit 16 w) = (ucast c :: u8)" "ucast (drop_bit 24 w) = (ucast c :: u8)"
proof -
  have k: "k = take_bit 8 c" by (simp add: k_def take_bit_eq_mask mask_eq_exp_minus_1)
  show "ucast w = (ucast c :: u8)" "ucast (drop_bit 8 w) = (ucast c :: u8)"
    "ucast (drop_bit 16 w) = (ucast c :: u8)" "ucast (drop_bit 24 w) = (ucast c :: u8)"
    by (rule bit_word_eqI; auto simp: w_def k bit_simps)+
qed

lemma store32_stosb:
  assumes "ucast w = c" "ucast (drop_bit 8 w) = c" "ucast (drop_bit 16 w) = c" "ucast (drop_bit 24 w) = c"
  shows "store32 a w m = stosb a c 4 m"
proof -
  have "(4 :: nat) = Suc (Suc (Suc (Suc 0)))" by simp
  then show ?thesis by (simp only: store32_def assms stosb.simps) (simp add: add.assoc)
qed

lemma stosl_stosb:
  assumes "ucast w = c" "ucast (drop_bit 8 w) = c" "ucast (drop_bit 16 w) = c" "ucast (drop_bit 24 w) = c"
  shows "stosl a w n m = stosb a c (4 * n) m"
proof (induction n arbitrary: a m)
  case (Suc n)
  have "4 * Suc n = 4 + 4 * n" by simp
  then show ?case unfolding stosl.simps(2) Suc.IH store32_stosb [OF assms] by (simp only: stosb_add) simp
qed simp

text \<open>
  \<open>memset\<close> writes the byte \<open>c\<close> to the \<open>n\<close> addresses from \<open>dst\<close> on and nothing else, whichever
  of its two store loops it takes.
\<close>

lemma memset_bytes: "memset dst c n m x = (if x - dst < n then ucast c else m x)"
proof -
  have *: "stosb dst (ucast c) (unat n) m x = (if x - dst < n then ucast c else m x)"
    by (simp add: stosb_apply word_less_nat_alt)
  show ?thesis
  proof (cases "dst mod 4 = 0 \<and> n mod 4 = 0")
    case True
    then have "4 * (unat n div 4) = unat n"
      using unat_mod_nat [of n 4] mult_div_mod_eq [of 4 "unat n"] by simp
    with True * show ?thesis
      unfolding memset_def Let_def
      by (subst if_P [OF True]) (subst stosl_stosb [OF memset_word], simp add: unat_div)
  qed (auto simp: memset_def *)
qed

lemma copy_up_apply:
  assumes "unat d + n < 4294967296" "unat s + n < 4294967296" "unat d \<le> unat s \<or> unat s + n \<le> unat d"
  shows "copy_up d s n m x = (if unat d \<le> unat x \<and> unat x < unat d + n then m (s + (x - d)) else m x)"
  using assms
proof (induction n arbitrary: d s m)
  case (Suc n)
  have d1: "unat (d + 1) = unat d + 1" and s1: "unat (s + 1) = unat s + 1"
    using Suc.prems by (simp_all add: unat_add_u32)
  have ih: "copy_up (d + 1) (s + 1) n (m(d := m s)) x =
      (if unat d + 1 \<le> unat x \<and> unat x < unat d + 1 + n
       then (m(d := m s)) (s + 1 + (x - (d + 1))) else (m(d := m s)) x)"
    by (rule Suc.IH [of "d + 1" "s + 1", unfolded d1 s1]) (use Suc.prems in auto)
  show ?case
  proof (cases "unat d + 1 \<le> unat x \<and> unat x < unat d + 1 + n")
    case True
    have "unat (x - d) = unat x - unat d" using True by (simp add: unat_sub word_le_nat_alt)
    then have "unat (s + (x - d)) = unat s + (unat x - unat d)"
      using True Suc.prems by (subst unat_add_u32) auto
    then have "unat (s + (x - d)) \<noteq> unat d" using True Suc.prems by linarith
    then have "s + (x - d) \<noteq> d" by metis
    then show ?thesis using True by (simp add: ih)
  next
    case False
    then have "unat d \<le> unat x \<and> unat x < unat d + Suc n \<longleftrightarrow> x = d"
      by (auto simp: word_unat_eq_iff)
    then show ?thesis using False by (auto simp: ih)
  qed
qed auto

lemma copy_down_apply:
  assumes "n \<le> unat s" "unat s \<le> unat d"
  shows "copy_down d s n m x = (if unat d - n \<le> unat x \<and> unat x < unat d then m (s - (d - x)) else m x)"
  using assms
proof (induction n arbitrary: d s m)
  case (Suc n)
  have "d \<noteq> 0" "s \<noteq> 0" using Suc.prems by auto
  then have d1: "unat (d - 1) = unat d - 1" and s1: "unat (s - 1) = unat s - 1"
    by (simp_all add: unat_minus_1)
  have ih: "copy_down (d - 1) (s - 1) n (m(d - 1 := m (s - 1))) x =
      (if unat d - 1 - n \<le> unat x \<and> unat x < unat d - 1
       then (m(d - 1 := m (s - 1))) (s - 1 - (d - 1 - x)) else (m(d - 1 := m (s - 1))) x)"
    by (rule Suc.IH [of "s - 1" "d - 1", unfolded d1 s1]) (use Suc.prems in auto)
  show ?case
  proof (cases "unat d - 1 - n \<le> unat x \<and> unat x < unat d - 1")
    case True
    have a: "unat (d - x) = unat d - unat x" using True by (intro unat_sub) (auto simp: word_le_nat_alt)
    have "unat (s - (d - x)) = unat s - (unat d - unat x)"
      using True Suc.prems by (subst unat_sub) (auto simp: a word_le_nat_alt)
    then have "unat (s - (d - x)) \<noteq> unat (d - 1)" using True Suc.prems d1 by linarith
    then have "s - (d - x) \<noteq> d - 1" by metis
    moreover have "s - 1 - (d - 1 - x) = s - (d - x)" by simp
    moreover have "unat d - Suc n \<le> unat x \<and> unat x < unat d" using True by auto
    ultimately show ?thesis unfolding copy_down.simps(2) ih using True by (simp only: fun_upd_apply if_True if_False simp_thms)
  next
    case False
    then have "unat d - Suc n \<le> unat x \<and> unat x < unat d \<longleftrightarrow> x = d - 1"
      using Suc.prems by (auto simp: word_unat_eq_iff d1)
    then show ?thesis using False Suc.prems by (auto simp: ih)
  qed
qed auto

text \<open>
  C17. \<open>memmove\<close> leaves at \<open>dst\<close> the \<open>n\<close> bytes that were at \<open>src\<close> before the call, also when the
  two regions overlap, and changes no other byte.
\<close>

theorem memmove_overlap:
  assumes "unat dst + unat n < 4294967296" "unat src + unat n < 4294967296"
  shows "memmove dst src n m x = (if x - dst < n then m (src + (x - dst)) else m x)"
proof -
  have r: "x - dst < n \<longleftrightarrow> unat dst \<le> unat x \<and> unat x < unat dst + unat n"
  proof (cases "dst \<le> x")
    case True
    then show ?thesis by (auto simp: word_less_nat_alt unat_sub word_le_nat_alt)
  next
    case False
    then have "unat (x - dst) = unat x + 4294967296 - unat dst"
      using unat_sub_if' [of x dst] by (simp add: word_le_nat_alt)
    then show ?thesis using False assms by (auto simp: word_less_nat_alt word_le_nat_alt)
  qed
  have e: "unat (dst + n) = unat dst + unat n" "unat (src + n) = unat src + unat n"
    using assms by (simp_all add: unat_add_u32)
  show ?thesis
  proof (cases "src < dst \<and> src + n > dst")
    case True
    have "src + n - (dst + n - x) = src + (x - dst)" by simp
    with True show ?thesis
      unfolding memmove_def r by (simp add: copy_down_apply e word_less_nat_alt)
  next
    case False
    then have "unat dst \<le> unat src \<or> unat src + unat n \<le> unat dst"
      by (auto simp: word_less_nat_alt e)
    with False assms show ?thesis
      unfolding memmove_def r by (auto simp: copy_up_apply)
  qed
qed

theorem memmove_overlap_witness:
  "memmove 1002 1000 4 ((\<lambda>_. 0)(1000 := 11, 1001 := 12, 1002 := 13, 1003 := 14)) 1004 = 13"
  using memmove_overlap [of 1002 4 1000 "(\<lambda>_. 0)(1000 := 11, 1001 := 12, 1002 := 13, 1003 := 14)" 1004]
  by simp

section \<open>Comparison and copying of strings\<close>

lemma hd0_simps [simp]: "hd0 [] = 0" "hd0 (x # xs) = x"
  by (simp_all add: hd0_def)

lemma cname_simps [simp]: "cname 0 xs = []" "cname n [] = []"
  "cname (Suc n) (x # xs) = (if x \<noteq> 0 then x # cname n xs else [])"
  by (simp_all add: cname_def)

lemma cname_hd0: "cname (Suc n) xs = (if hd0 xs \<noteq> 0 then hd0 xs # cname n (tl xs) else [])"
  by (cases xs) simp_all

lemma strncmpL_eq_0: "strncmpL p q n = 0 \<longleftrightarrow> cname n p = cname n q"
proof (induction p q n rule: strncmpL.induct)
  case (2 p q n)
  then show ?case
    by (auto simp: cname_hd0 word_uint_eq_iff)
qed simp

lemma strncmpL_sym: "strncmpL p q n = 0 \<longleftrightarrow> strncmpL q p n = 0"
  by (auto simp: strncmpL_eq_0)

lemma length_strncpyL [simp]: "length (strncpyL t n) = n"
  by (induction t n rule: strncpyL.induct) simp_all

lemma strncpyL_cname: "strncpyL t n = cname n t @ replicate (n - length (cname n t)) 0"
  by (induction t n rule: strncpyL.induct) (simp_all add: cname_hd0)

lemma cname_strncpyL [simp]: "cname n (strncpyL t n) = cname n t"
  by (induction t n rule: strncpyL.induct) (simp_all add: cname_hd0)

lemma cname_idem [simp]: "cname n (cname n xs) = cname n xs"
proof (induction n arbitrary: xs)
  case (Suc n) then show ?case by (cases xs) simp_all
qed simp

lemma safestrcpyL_cname:
  "safestrcpyL t n = cname n t @ (if length (cname n t) < n then [0, 0] else [0])"
  by (induction t n rule: safestrcpyL.induct) (simp_all add: cname_hd0)

lemma slice_Suc: "slice m a (Suc n) = m a # slice m (a + 1) n"
  by (simp add: slice_def map_upt_Suc add.assoc del: upt_Suc)

lemma slice_0 [simp]: "slice m a 0 = []"
  by (simp add: slice_def)

lemma length_slice [simp]: "length (slice m a n) = n"
  by (simp add: slice_def)

lemma nth_slice [simp]: "i < n \<Longrightarrow> slice m a n ! i = m (a + of_nat i)"
  by (simp add: slice_def)

lemma memcmp_eq_0: "memcmp m p q n = 0 \<longleftrightarrow> slice m p n = slice m q n"
  by (induction m p q n rule: memcmp.induct) (auto simp: slice_Suc word_uint_eq_iff)

lemma strncmp_slice: "strncmp m p q n = strncmpL (slice m p n) (slice m q n) n"
  by (induction m p q n rule: strncmp.induct) (auto simp: slice_Suc)

text \<open>
  \<open>strncmp\<close> returns 0 exactly when the two C strings, cut to \<open>n\<close> bytes, are equal; the bytes
  after a NUL do not count.
\<close>

lemma strncmp_equal:
  "strncmp m p q n = 0 \<longleftrightarrow> cname n (slice m p n) = cname n (slice m q n)"
  by (simp add: strncmp_slice strncmpL_eq_0)

section \<open>strlen\<close>

lemma strlen_loop_Some:
  "i \<le> k \<Longrightarrow> m (s + of_nat k) = 0 \<Longrightarrow> \<forall>j. i \<le> j \<and> j < k \<longrightarrow> m (s + of_nat j) \<noteq> 0 \<Longrightarrow>
   strlen_loop m s i = Some k"
proof (induction "k - i" arbitrary: i)
  case 0
  then show ?case by (subst strlen_loop.simps) simp
next
  case (Suc d)
  then have "i < k" by simp
  then have "strlen_loop m s (Suc i) = Some k" using Suc by simp
  with \<open>i < k\<close> Suc.prems show ?case by (subst strlen_loop.simps) auto
qed

lemma strlen_loop_char:
  assumes "strlen_loop m s i = Some k"
  shows "i \<le> k \<and> m (s + of_nat k) = 0 \<and> (\<forall>j. i \<le> j \<and> j < k \<longrightarrow> m (s + of_nat j) \<noteq> 0)"
proof (rule strlen_loop.raw_induct [OF _ assms, of "\<lambda>m s i k. i \<le> k \<and> m (s + of_nat k) = 0 \<and>
    (\<forall>j. i \<le> j \<and> j < k \<longrightarrow> m (s + of_nat j) \<noteq> 0)"], goal_cases)
  case (1 loop m s i k)
  show ?case
  proof (cases "m (s + of_nat i) = 0")
    case False
    with 1(2) have "loop m s (Suc i) = Some k" by simp
    from 1(1) [OF this] False show ?thesis
      by (auto simp: Suc_le_eq) (metis le_neq_implies_less)
  qed (use 1(2) in auto)
qed

text \<open>
  \<open>strlen\<close> returns exactly when there is a NUL, and then the distance to the first one.
\<close>

lemma strlen_first_nul:
  "strlen m s = Some k \<longleftrightarrow> m (s + of_nat k) = 0 \<and> (\<forall>j < k. m (s + of_nat j) \<noteq> 0)"
  unfolding strlen_def
proof
  assume "strlen_loop m s 0 = Some k"
  from strlen_loop_char [OF this] show "m (s + of_nat k) = 0 \<and> (\<forall>j < k. m (s + of_nat j) \<noteq> 0)" by simp
next
  assume "m (s + of_nat k) = 0 \<and> (\<forall>j < k. m (s + of_nat j) \<noteq> 0)"
  then show "strlen_loop m s 0 = Some k" by (intro strlen_loop_Some) auto
qed

section \<open>strncpy and safestrcpy in memory\<close>

definition apart :: "u32 \<Rightarrow> u32 \<Rightarrow> nat \<Rightarrow> bool" where
  "apart s t n \<longleftrightarrow> n < 4294967296 \<and> (\<forall>i < n. \<forall>j < n. s + of_nat i \<noteq> t + of_nat j)"

lemma slice_cong: "(\<And>i. i < n \<Longrightarrow> m (a + of_nat i) = m' (a + of_nat i)) \<Longrightarrow> slice m a n = slice m' a n"
  by (simp add: slice_def)

lemma apart_Suc: "apart s t (Suc n) \<Longrightarrow> apart (s + 1) (t + 1) n"
  unfolding apart_def
proof (intro conjI allI impI)
  fix i j assume "Suc n < 4294967296 \<and> (\<forall>i<Suc n. \<forall>j<Suc n. s + of_nat i \<noteq> t + of_nat j)" "i < n" "j < n"
  then have "s + of_nat (Suc i) \<noteq> t + of_nat (Suc j)" by blast
  then show "s + 1 + of_nat i \<noteq> t + 1 + of_nat j" by (simp add: add.assoc)
qed simp

lemma apart_tail: "apart s t (Suc n) \<Longrightarrow> slice (m(s := c)) (t + 1) n = slice m (t + 1) n"
proof (rule slice_cong)
  fix i assume "apart s t (Suc n)" "i < n"
  then have "s + of_nat 0 \<noteq> t + of_nat (Suc i)" unfolding apart_def by (meson Suc_mono zero_less_Suc)
  then show "(m(s := c)) (t + 1 + of_nat i) = m (t + 1 + of_nat i)" by (simp add: add.assoc)
qed

lemma fill0_apply: "n < 4294967296 \<Longrightarrow> fill0 a n m x = (if unat (x - a) < n then 0 else m x)"
proof (induction n arbitrary: a m)
  case (Suc n)
  then have n: "n < 4294967296" by simp
  show ?case
    unfolding fill0.simps(2) Suc.IH [OF n] unat_less_Suc [OF n] by auto
qed simp

lemma off_Suc_eq: "n < 4294967296 \<Longrightarrow> unat (x - a :: u32) < Suc n \<Longrightarrow> x \<noteq> a \<Longrightarrow>
    unat (x - a) = Suc (unat (x - (a + 1)))"
  using unat_minus_1 [of "x - a"] unat_eq_0 [of "x - a"] by (simp add: algebra_simps)

lemma strncpy_loop_apply:
  "apart s t n \<Longrightarrow> strncpy_loop s t n m x =
     (if unat (x - s) < n then strncpyL (slice m t n) n ! unat (x - s) else m x)"
proof (induction n arbitrary: s t m)
  case (Suc n)
  have m1: "unat (-1 :: u32) = 4294967295" by (simp add: unsigned_minus_1_eq_mask mask_eq_exp_minus_1)
  have n: "n < 4294967296" "\<not> unat (-1 :: u32) < n" using Suc.prems by (simp_all add: apart_def m1)
  note tail = apart_tail [OF Suc.prems, of m "m t"]
  note ih = Suc.IH [OF apart_Suc [OF Suc.prems]]
  show ?case
  proof (cases "x = s \<or> \<not> unat (x - s) < Suc n")
    case True
    show ?thesis
      unfolding strncpy_loop.simps(2) if_distrib [of "\<lambda>f. f x"] ih slice_Suc fill0_apply [OF n(1)]
      using True unat_less_Suc [OF n(1), of x s] n by auto
  next
    case False
    then have "unat (x - s) = Suc (unat (x - (s + 1)))" "unat (x - (s + 1)) < n"
      using off_Suc_eq [OF n(1), of x s] by auto
    with False show ?thesis
      unfolding strncpy_loop.simps(2) if_distrib [of "\<lambda>f. f x"] ih slice_Suc fill0_apply [OF n(1)] tail by simp
  qed
qed simp

text \<open>
  \<open>strncpy\<close> between regions that do not overlap writes exactly \<open>n\<close> bytes: the C string at \<open>t\<close>,
  cut to \<open>n\<close> bytes, and NULs after it.
\<close>

lemma strncpy_pads:
  assumes "apart s t (nat n)"
  shows "slice (strncpy s t n m) s (nat n) =
      (let c = cname (nat n) (slice m t (nat n)) in c @ replicate (nat n - length c) 0) \<and>
    (nat n \<le> unat (x - s) \<longrightarrow> strncpy s t n m x = m x)"
proof
  have lt: "nat n < 4294967296" using assms by (simp add: apart_def)
  have "slice (strncpy s t n m) s (nat n) = strncpyL (slice m t (nat n)) (nat n)"
  proof (rule nth_equalityI)
    fix i assume "i < length (slice (strncpy s t n m) s (nat n))"
    then have "i < nat n" by simp
    moreover from this lt have "unat (of_nat i :: u32) = i" by (simp add: unat_of_nat)
    ultimately show "slice (strncpy s t n m) s (nat n) ! i = strncpyL (slice m t (nat n)) (nat n) ! i"
      by (simp add: strncpy_def strncpy_loop_apply [OF assms])
  qed simp
  then show "slice (strncpy s t n m) s (nat n) =
      (let c = cname (nat n) (slice m t (nat n)) in c @ replicate (nat n - length c) 0)"
    by (simp only: Let_def strncpyL_cname)
  show "nat n \<le> unat (x - s) \<longrightarrow> strncpy s t n m x = m x"
    by (simp add: strncpy_def strncpy_loop_apply [OF assms])
qed

end
