(* ===== verification/Kalloc.thy ===== *)
theory Kalloc
  imports Machine CString
begin

text \<open>
  \<open>kalloc.c\<close>: the physical page allocator, with its free list threaded through the free pages
  themselves in memory. Lemmas: the list at \<open>kmem.freelist\<close> stays a list of distinct page
  addresses in range; \<open>kalloc\<close> takes one of them or returns 0; \<open>kfree\<close> adds a page and touches no
  byte outside it; \<open>freerange\<close> returns and frees every page of its range. The locale
  \<open>page_allocator\<close> is what the callers rely on.
\<close>

section \<open>State and operations\<close>

text \<open>
  \<open>memory\<close>: the bytes at kernel virtual addresses. \<open>kend\<close>, \<open>kdata\<close>: the linker's symbols \<open>end\<close>
  and \<open>data\<close>. \<open>kpgdir\<close>: the kernel's page directory; \<open>cr3\<close>: the page table register.
\<close>

record kstate = kbase +
  memory :: bytes
  use_lock :: bool
  freelist :: u32
  kend :: u32
  kdata :: u32
  kpgdir :: u32
  cr3 :: u32

definition kfree :: "u32 \<Rightarrow> ('z kstate_scheme, unit) km" where
  "kfree v = bindK (getK kend) (\<lambda>e.
     thenK (assertK (\<not> (v mod PGSIZE \<noteq> 0 \<or> v < e \<or> V2P v \<ge> PHYSTOP)) ''kfree'')
    (thenK (modK (\<lambda>s. s\<lparr>memory := memset v 1 PGSIZE (memory s)\<rparr>))
    (bindK (getK use_lock) (\<lambda>ul.
     thenK (whenK ul (lk_acquire LkKmem))
    (thenK (modK (\<lambda>s. s\<lparr>memory := store32 v (freelist s) (memory s)\<rparr>))
    (thenK (modK (\<lambda>s. s\<lparr>freelist := v\<rparr>))
     (whenK ul (lk_release LkKmem))))))))"

definition kalloc :: "('z kstate_scheme, u32) km" where
  "kalloc = bindK (getK use_lock) (\<lambda>ul.
     thenK (whenK ul (lk_acquire LkKmem))
    (bindK (getK freelist) (\<lambda>r.
     thenK (whenK (r \<noteq> 0) (modK (\<lambda>s. s\<lparr>freelist := load32 (memory s) r\<rparr>)))
    (thenK (whenK ul (lk_release LkKmem)) (retK r)))))"

text \<open>
  The loop of \<open>freerange\<close>. The address space has \<open>2 ^ 20\<close> pages, so a loop that has not ended
  after that many turns has wrapped around and would go on.
\<close>

fun freerange_loop :: "nat \<Rightarrow> u32 \<Rightarrow> u32 \<Rightarrow> ('z kstate_scheme, unit) km" where
  "freerange_loop 0 p vend s = Spin s"
| "freerange_loop (Suc n) p vend s =
     (if p + PGSIZE \<le> vend then thenK (kfree p) (freerange_loop n (p + PGSIZE) vend) s
      else Ret () s)"

definition freerange :: "u32 \<Rightarrow> u32 \<Rightarrow> ('z kstate_scheme, unit) km" where
  "freerange vstart vend = freerange_loop (2 ^ 20 + 1) (PGROUNDUP vstart) vend"

definition kinit1 :: "u32 \<Rightarrow> u32 \<Rightarrow> ('z kstate_scheme, unit) km" where
  "kinit1 vstart vend =
     thenK (modK (\<lambda>s. s\<lparr>held := held s - {LkKmem}\<rparr>))
    (thenK (modK (\<lambda>s. s\<lparr>use_lock := False\<rparr>))
     (freerange vstart vend))"

definition kinit2 :: "u32 \<Rightarrow> u32 \<Rightarrow> ('z kstate_scheme, unit) km" where
  "kinit2 vstart vend =
     thenK (freerange vstart vend) (modK (\<lambda>s. s\<lparr>use_lock := True\<rparr>))"

section \<open>Pages\<close>

text \<open>The pages \<open>kfree\<close> accepts.\<close>

definition page_ok :: "u32 \<Rightarrow> u32 \<Rightarrow> bool" where
  "page_ok e v \<longleftrightarrow> \<not> (v mod PGSIZE \<noteq> 0 \<or> v < e \<or> V2P v \<ge> PHYSTOP)"

text \<open>The addresses of the page at \<open>v\<close>.\<close>

definition in_page :: "u32 \<Rightarrow> u32 \<Rightarrow> bool" where
  "in_page v a \<longleftrightarrow> a - v < PGSIZE"

fun linked :: "bytes \<Rightarrow> u32 \<Rightarrow> u32 list \<Rightarrow> bool" where
  "linked m p [] \<longleftrightarrow> p = 0"
| "linked m p (x # xs) \<longleftrightarrow> p = x \<and> x \<noteq> 0 \<and> linked m (load32 m x) xs"

definition kinv :: "'z kstate_scheme \<Rightarrow> u32 list \<Rightarrow> bool" where
  "kinv s xs \<longleftrightarrow> linked (memory s) (freelist s) xs \<and> distinct xs \<and> (\<forall>x \<in> set xs. page_ok (kend s) x)
     \<and> LkKmem \<notin> held s"

section \<open>Lemmas\<close>

lemma load32_store32 [simp]: "load32 (store32 a w m) a = w"
proof -
  have "a + 1 \<noteq> a" "a + 2 \<noteq> a" "a + 3 \<noteq> a" "a + 2 \<noteq> a + 1" "a + 3 \<noteq> a + 1" "a + 3 \<noteq> a + 2"
    by simp_all
  then show ?thesis by (simp add: load32_def store32_def join32)
qed

lemma load32_cong: "(\<And>k. k < 4 \<Longrightarrow> m (a + k) = m' (a + k)) \<Longrightarrow> load32 m a = load32 m' a"
proof -
  assume same: "\<And>k. k < 4 \<Longrightarrow> m (a + k) = m' (a + k)"
  have "m a = m' a" "m (a + 1) = m' (a + 1)" "m (a + 2) = m' (a + 2)" "m (a + 3) = m' (a + 3)"
    using same [of 0] same [of 1] same [of 2] same [of 3] by simp_all
  then show ?thesis by (simp add: load32_def)
qed

lemma sub_mod_page: "x mod 4096 = 0 \<Longrightarrow> v mod 4096 = 0 \<Longrightarrow> (x - v :: u32) mod 4096 = 0"
proof -
  assume a: "x mod 4096 = 0" "v mod 4096 = 0"
  have "(4096 :: int) dvd uint x" "(4096 :: int) dvd uint v"
    using a uint_mod [of x 4096] uint_mod [of v 4096] by (simp_all add: dvd_eq_mod_eq_0)
  then have "(uint x - uint v) mod 4294967296 mod 4096 = 0"
    by (subst mod_mod_cancel) (simp_all add: dvd_eq_mod_eq_0 [symmetric])
  then have "uint ((x - v) mod 4096) = 0"
    by (simp add: uint_mod uint_word_ariths(2))
  then show "(x - v) mod 4096 = 0" by (simp only: uint_0_iff)
qed

lemma page_disjoint:
  assumes "x mod 4096 = 0" "v mod 4096 = 0" "x \<noteq> v" "in_page x a"
  shows "\<not> in_page v a"
proof -
  define d k where "d = x - v" and "k = a - x"
  have "d mod 4096 = 0" "d \<noteq> 0" using assms(3) sub_mod_page [OF assms(1,2)] by (simp_all add: d_def)
  then have m: "unat d mod 4096 = 0" "unat d \<noteq> 0"
    using unat_mod_nat [of d 4096] by (auto simp: unat_eq_0)
  have k: "unat k < 4096" using assms(4) by (simp add: in_page_def k_def word_less_nat_alt)
  obtain q where q: "unat d = 4096 * q" using m(1) by (auto simp: mod_eq_0_iff_dvd elim: dvdE)
  then have "unat d \<le> 4294967296 - 4096" "4096 \<le> unat d"
    using m(2) unat_u32_less [of d] by simp_all
  then have "unat (d + k) = unat d + unat k" using k by (intro unat_add_u32) simp
  moreover have "a - v = d + k" by (simp add: d_def k_def)
  ultimately show ?thesis
    using \<open>4096 \<le> unat d\<close> by (simp add: in_page_def word_less_nat_alt)
qed

lemma in_page_head: "k < 4 \<Longrightarrow> in_page x (x + k)"
  by (simp add: in_page_def word_less_nat_alt)

lemma store32_outside: "\<not> in_page v a \<Longrightarrow> store32 v w m a = m a"
  using in_page_head [of 0 v] in_page_head [of 1 v] in_page_head [of 2 v] in_page_head [of 3 v]
  by (auto simp: store32_def)

lemma memset_outside: "\<not> in_page v a \<Longrightarrow> memset v c PGSIZE m a = m a"
  by (simp add: memset_bytes in_page_def)

lemma linked_cong:
  "linked m p xs \<Longrightarrow> (\<And>x k. x \<in> set xs \<Longrightarrow> k < 4 \<Longrightarrow> m' (x + k) = m (x + k)) \<Longrightarrow> linked m' p xs"
proof (induction xs arbitrary: p)
  case (Cons x xs)
  have "load32 m' x = load32 m x"
    by (rule load32_cong) (simp add: Cons.prems)
  with Cons show ?case by simp
qed simp

lemma linked_0: "linked m p xs \<Longrightarrow> p = 0 \<longleftrightarrow> xs = []"
  by (cases xs) auto

lemma page_okD:
  assumes "page_ok e v"
  shows "v mod 4096 = 0" "v \<noteq> 0" "e \<le> v" "V2P v < PHYSTOP"
  using assms by (auto simp: page_ok_def V2P_def not_less not_le del: mod_0_imp_dvd)

text \<open>What a returning \<open>kfree\<close> does, and the exact condition under which it returns.\<close>

lemma kfree_Ret [ret_iff]:
  "kfree v s = Ret u t \<longleftrightarrow> page_ok (kend s) v \<and> (use_lock s \<longrightarrow> LkKmem \<notin> held s) \<and>
     t = s\<lparr>memory := store32 v (freelist s) (memset v 1 PGSIZE (memory s)), freelist := v\<rparr>"
  by (cases "use_lock s") (auto simp: kfree_def ret_iff page_ok_def del: mod_0_imp_dvd)

lemma kalloc_eval:
  "kalloc s = (if use_lock s \<and> LkKmem \<in> held s then Panic ''acquire''
     else Ret (freelist s) (if freelist s = 0 then s else s\<lparr>freelist := load32 (memory s) (freelist s)\<rparr>))"
  by (cases "use_lock s"; cases "LkKmem \<in> held s"; cases "freelist s = 0")
    (simp_all add: kalloc_def km_simps lk_acquire_held)

lemma kalloc_Ret [ret_iff]:
  "kalloc s = Ret r t \<longleftrightarrow> (use_lock s \<longrightarrow> LkKmem \<notin> held s) \<and> r = freelist s \<and>
     t = (if r = 0 then s else s\<lparr>freelist := load32 (memory s) r\<rparr>)"
  unfolding kalloc_eval by auto

lemma kfree_panics: "\<not> page_ok (kend s) v \<Longrightarrow> kfree v s = Panic ''kfree''"
  by (auto simp: kfree_def km_simps page_ok_def del: mod_0_imp_dvd)

lemma kfree_kinv:
  assumes "kinv s xs" "page_ok (kend s) v" "v \<notin> set xs"
  shows "\<exists>t. kfree v s = Ret () t \<and> kinv t (v # xs) \<and> kend t = kend s \<and>
    (\<forall>a. \<not> in_page v a \<longrightarrow> memory t a = memory s a)"
proof -
  let ?m = "store32 v (freelist s) (memset v 1 PGSIZE (memory s))"
  have v: "v mod 4096 = 0" "v \<noteq> 0" using assms(2) by (rule page_okD)+
  have same: "\<not> in_page v a \<Longrightarrow> ?m a = memory s a" for a
    by (simp add: store32_outside memset_outside)
  have "linked ?m (freelist s) xs"
  proof (rule linked_cong)
    fix x k :: u32 assume "x \<in> set xs" "k < 4"
    then have "\<not> in_page v (x + k)"
      using assms by (intro page_disjoint [OF _ _ _ in_page_head]) (auto simp: kinv_def v dest: page_okD(1) del: mod_0_imp_dvd)
    then show "?m (x + k) = memory s (x + k)" by (rule same)
  qed (use assms in \<open>simp add: kinv_def\<close>)
  with assms same v show ?thesis
    by (simp add: ret_iff kinv_def)
qed

lemma kalloc_kinv:
  assumes "kinv s xs"
  shows "kalloc s = Ret (freelist s) (if xs = [] then s else s\<lparr>freelist := load32 (memory s) (freelist s)\<rparr>)"
    and "freelist s = (if xs = [] then 0 else hd xs)"
    and "xs \<noteq> [] \<Longrightarrow> kinv (s\<lparr>freelist := load32 (memory s) (freelist s)\<rparr>) (tl xs)"
  using assms by (cases xs; simp add: ret_iff kinv_def)+

section \<open>The interface of the allocator\<close>

text \<open>
  What the callers of the allocator rely on, over a predicate \<open>inv s F\<close> that says which pages are
  free: an allocation takes a free page while there is one and returns 0 otherwise, and a page
  that is not free can be given back.
\<close>

fun alloc_n :: "('s, 'p) km \<Rightarrow> nat \<Rightarrow> ('s, 'p list) km" where
  "alloc_n a 0 = retK []"
| "alloc_n a (Suc n) = bindK a (\<lambda>p. bindK (alloc_n a n) (\<lambda>ps. retK (p # ps)))"

locale page_allocator =
  fixes inv :: "'s \<Rightarrow> u32 set \<Rightarrow> bool"
    and page :: "'s \<Rightarrow> u32 \<Rightarrow> bool"
    and alloc :: "('s, u32) km"
    and free :: "u32 \<Rightarrow> ('s, unit) km"
  assumes alloc_some: "inv s F \<Longrightarrow> F \<noteq> {} \<Longrightarrow> \<exists>p t. alloc s = Ret p t \<and> p \<in> F \<and> inv t (F - {p})"
    and alloc_none: "inv s {} \<Longrightarrow> alloc s = Ret 0 s"
    and free_page: "inv s F \<Longrightarrow> page s p \<Longrightarrow> p \<notin> F \<Longrightarrow> \<exists>t. free p s = Ret () t \<and> inv t (insert p F)"
    and inv_page: "inv s F \<Longrightarrow> p \<in> F \<Longrightarrow> page s p \<and> p \<noteq> 0"
    and inv_finite: "inv s F \<Longrightarrow> finite F"
    and page_alloc: "alloc s = Ret p t \<Longrightarrow> page t q = page s q"
begin

lemma alloc_nonzero: "inv s F \<Longrightarrow> F \<noteq> {} \<Longrightarrow> \<exists>p t. alloc s = Ret p t \<and> p \<noteq> 0 \<and> p \<in> F"
  using alloc_some inv_page by blast

lemma alloc_zero: "inv s F \<Longrightarrow> alloc s = Ret 0 t \<Longrightarrow> F = {}"
  using alloc_nonzero by fastforce

lemma alloc_distinct:
  "inv s F \<Longrightarrow> n \<le> card F \<Longrightarrow>
   \<exists>ps t. alloc_n alloc n s = Ret ps t \<and> length ps = n \<and> distinct ps \<and> set ps \<subseteq> F \<and> inv t (F - set ps)"
proof (induction n arbitrary: s F)
  case 0
  then show ?case by (simp add: retK_def)
next
  case (Suc n)
  then have "F \<noteq> {}" by auto
  from alloc_some [OF Suc.prems(1) this] obtain p t
    where a: "alloc s = Ret p t" "p \<in> F" and t: "inv t (F - {p})" by auto
  have "n \<le> card (F - {p})"
    using Suc.prems(2) a(2) inv_finite [OF Suc.prems(1)] by (simp add: card_Diff_singleton)
  from Suc.IH [OF t this] obtain ps u
    where ps: "alloc_n alloc n t = Ret ps u" "length ps = n" "distinct ps" "set ps \<subseteq> F - {p}"
      and u: "inv u (F - {p} - set ps)" by auto
  have "alloc_n alloc (Suc n) s = Ret (p # ps) u" by (simp add: bindK_def retK_def a(1) ps(1))
  moreover have "F - {p} - set ps = F - set (p # ps)" by auto
  ultimately show ?case using ps(2-4) u a(2)
    by (intro exI [of _ "p # ps"] exI [of _ u]) (simp add: subset_Diff_insert)
qed

lemma alloc_free: "inv s F \<Longrightarrow> F \<noteq> {} \<Longrightarrow> \<exists>p t u. alloc s = Ret p t \<and> free p t = Ret () u \<and> inv u F"
proof -
  assume i: "inv s F" "F \<noteq> {}"
  from alloc_some [OF this] obtain p t where a: "alloc s = Ret p t" "p \<in> F" and t: "inv t (F - {p})" by auto
  have "page t p" using page_alloc [OF a(1)] inv_page [OF i(1) a(2)] by simp
  from free_page [OF t this] a(2) obtain u where "free p t = Ret () u" "inv u (insert p (F - {p}))" by auto
  with a show ?thesis by (auto simp: insert_absorb)
qed

end

definition free_pages :: "'z kstate_scheme \<Rightarrow> u32 set \<Rightarrow> bool" where
  "free_pages s F \<longleftrightarrow> (\<exists>xs. kinv s xs \<and> set xs = F)"

lemma free_pages_kalloc:
  assumes "free_pages s F" "F \<noteq> {}"
  shows "\<exists>p t. kalloc s = Ret p t \<and> p \<in> F \<and> free_pages t (F - {p})"
proof -
  obtain xs where xs: "kinv s xs" "set xs = F" using assms(1) by (auto simp: free_pages_def)
  with assms(2) obtain y ys where y: "xs = y # ys" by (cases xs) auto
  have "distinct xs" using xs(1) by (simp add: kinv_def)
  then have "set ys = F - {y}" using xs(2) y by auto
  then show ?thesis
    using kalloc_kinv [OF xs(1)] xs(2) y unfolding free_pages_def by auto
qed

lemma free_pages_kfree:
  assumes "free_pages s F" "page_ok (kend s) p" "p \<notin> F"
  shows "\<exists>t. kfree p s = Ret () t \<and> free_pages t (insert p F)"
proof -
  obtain xs where xs: "kinv s xs" "set xs = F" using assms(1) by (auto simp: free_pages_def)
  from kfree_kinv [OF xs(1) assms(2)] xs assms(3) obtain t
    where t: "kfree p s = Ret () t" "kinv t (p # xs)" by auto
  have "set (p # xs) = insert p F" using xs(2) by simp
  with t show ?thesis unfolding free_pages_def by blast
qed

lemma free_pages_ok: "free_pages s F \<Longrightarrow> p \<in> F \<Longrightarrow> page_ok (kend s) p \<and> p \<noteq> 0"
  unfolding free_pages_def kinv_def using page_okD(2) by blast

lemma free_pages_empty: "free_pages s {} \<Longrightarrow> kalloc s = Ret 0 s"
  using kalloc_kinv [of s "[]"] by (auto simp: free_pages_def)

lemma kalloc_kend: "kalloc s = Ret p t \<Longrightarrow> kend t = kend s"
  by (auto simp: ret_iff)

interpretation pa: page_allocator free_pages "\<lambda>s. page_ok (kend s)" kalloc kfree
proof (unfold_locales, goal_cases)
  case 1 then show ?case by (rule free_pages_kalloc)
next
  case 2 then show ?case by (rule free_pages_empty)
next
  case 3 then show ?case by (rule free_pages_kfree)
next
  case 4 then show ?case by (rule free_pages_ok)
next
  case 5 then show ?case by (auto simp: free_pages_def)
next
  case 6 then show ?case by (simp only: kalloc_kend)
qed

section \<open>freerange and the two phases of initialisation\<close>

definition pages :: "u32 \<Rightarrow> nat \<Rightarrow> u32 list" where
  "pages p k = map (\<lambda>i. p + of_nat (4096 * i)) [0..<k]"

lemma pages_Suc: "pages p (Suc k) = p # pages (p + 4096) k"
  by (simp add: pages_def map_upt_Suc algebra_simps del: upt_Suc)

lemma pages_0 [simp]: "pages p 0 = []"
  by (simp add: pages_def)

lemma unat_page_step: "unat p + 4096 * i < 4294967296 \<Longrightarrow> unat (p + of_nat (4096 * i) :: u32) = unat p + 4096 * i"
proof -
  assume a: "unat p + 4096 * i < 4294967296"
  then have "unat (of_nat (4096 * i) :: u32) = 4096 * i" by (simp add: unat_of_nat del: of_nat_mult)
  with a show ?thesis by (simp add: unat_add_u32 del: of_nat_mult)
qed

lemma freerange_loop_kinv:
  assumes "k < n" "unat p + 4096 * k \<le> unat vend" "unat vend < unat p + 4096 * (k + 1)"
    "unat vend + 4096 < 4294967296" "kinv s xs"
    "\<forall>v \<in> set (pages p k). page_ok (kend s) v \<and> v \<notin> set xs"
  shows "\<exists>t. freerange_loop n p vend s = Ret () t \<and> kinv t (rev (pages p k) @ xs) \<and> kend t = kend s"
  using assms
proof (induction k arbitrary: n p s xs)
  case 0
  then obtain n' where "n = Suc n'" by (cases n) auto
  moreover have "unat (p + 4096) = unat p + 4096" using 0 by (intro unat_add_u32 [of p 4096, simplified]) simp
  ultimately show ?case using 0 by (simp add: word_le_nat_alt)
next
  case (Suc k)
  obtain n' where n: "n = Suc n'" using Suc.prems(1) by (cases n) auto
  have p4: "unat (p + 4096) = unat p + 4096"
    using Suc.prems by (intro unat_add_u32 [of p 4096, simplified]) simp
  obtain t where t: "kfree p s = Ret () t" "kinv t (p # xs)" "kend t = kend s"
    using kfree_kinv [OF Suc.prems(5), of p] Suc.prems(6) by (auto simp: pages_Suc)
  have "p \<notin> set (pages (p + 4096) k)"
  proof
    assume "p \<in> set (pages (p + 4096) k)"
    then obtain i where i: "i < k" "p = p + 4096 + of_nat (4096 * i)" by (auto simp: pages_def)
    have "unat (p + 4096 + of_nat (4096 * i)) = unat p + 4096 + 4096 * i"
      using i(1) Suc.prems(2,4) p4 by (subst unat_page_step) simp_all
    then have "unat p = unat p + 4096 + 4096 * i" using i(2) by metis
    then show False by simp
  qed
  then have "\<exists>u. freerange_loop n' (p + 4096) vend t = Ret () u \<and>
      kinv u (rev (pages (p + 4096) k) @ p # xs) \<and> kend u = kend t"
    by (intro Suc.IH) (use Suc.prems n p4 t in \<open>auto simp: pages_Suc\<close>)
  then show ?case
    using n t p4 Suc.prems(2) by (auto simp: km_simps pages_Suc word_le_nat_alt)
qed

lemma page_ok_nat:
  "page_ok e v \<longleftrightarrow> unat v mod 4096 = 0 \<and> unat e \<le> unat v \<and> 0x80000000 \<le> unat v \<and> unat v < 0x8E000000"
proof -
  have "v mod 4096 = 0 \<longleftrightarrow> unat v mod 4096 = 0"
    using unat_mod_nat [of v 4096] by (simp add: word_unat_eq_iff)
  moreover have "V2P v < PHYSTOP \<longleftrightarrow> 0x80000000 \<le> unat v \<and> unat v < 0x8E000000"
    using unat_sub_if' [of v "0x80000000"] unat_u32_less [of v] by (auto simp: V2P_def word_less_nat_alt split: if_splits)
  ultimately show ?thesis
    unfolding page_ok_def de_Morgan_disj not_not not_less not_le by (simp add: word_le_nat_alt)
qed

lemma set_pages:
  assumes "unat p mod 4096 = 0" "unat p + 4096 * k \<le> 4294967295"
  shows "set (pages p k) = {v. unat v mod 4096 = 0 \<and> unat p \<le> unat v \<and> unat v < unat p + 4096 * k}"
proof (intro set_eqI iffI)
  fix v assume "v \<in> set (pages p k)"
  then obtain i where i: "i < k" "v = p + of_nat (4096 * i)" by (auto simp: pages_def)
  moreover from i(1) assms(2) have "unat p + 4096 * i < 4294967296" by simp
  ultimately have "unat v = unat p + 4096 * i" using unat_page_step by simp
  then show "v \<in> {v. unat v mod 4096 = 0 \<and> unat p \<le> unat v \<and> unat v < unat p + 4096 * k}"
    using i(1) assms(1) by simp
next
  fix v :: u32 assume "v \<in> {v. unat v mod 4096 = 0 \<and> unat p \<le> unat v \<and> unat v < unat p + 4096 * k}"
  then have v: "unat v mod 4096 = 0" "unat p \<le> unat v" "unat v < unat p + 4096 * k" by auto
  define i where "i = (unat v - unat p) div 4096"
  have "(unat v - unat p) mod 4096 = 0" using v assms(1) by (simp add: mod_eq_0_iff_dvd dvd_diff_nat)
  then have i: "unat v = unat p + 4096 * i"
    using v mult_div_mod_eq [of 4096 "unat v - unat p"] by (simp add: i_def)
  then have "i < k" using v by simp
  moreover have "v = p + of_nat (4096 * i)"
    using unat_page_step [of p i] i unat_u32_less [of v] by (simp add: word_unat_eq_iff)
  ultimately show "v \<in> set (pages p k)" by (auto simp: pages_def)
qed

lemma round_up_le:
  fixes a n :: nat
  assumes "n mod 4096 = 0"
  shows "(a + 4095) div 4096 * 4096 \<le> n \<longleftrightarrow> a \<le> n"
proof -
  obtain q where q: "n = q * 4096" using assms by (auto elim: dvdE)
  have "(a + 4095) div 4096 \<le> q \<longleftrightarrow> a + 4095 < Suc q * 4096"
    by (subst div_less_iff_less_mult [symmetric]) (simp_all add: less_Suc_eq_le)
  then show ?thesis by (simp add: q less_Suc_eq_le)
qed

lemma freerange_kinv:
  assumes "kinv s xs" "unat vstart + 4095 < 4294967296" "unat vend mod 4096 = 0"
    "unat vend + 4096 < 4294967296" "vstart \<le> vend"
    "\<forall>v. unat v mod 4096 = 0 \<and> vstart \<le> v \<and> v < vend \<longrightarrow> page_ok (kend s) v \<and> v \<notin> set xs"
  shows "\<exists>t ys. freerange vstart vend s = Ret () t \<and> kinv t (ys @ xs) \<and> kend t = kend s \<and>
     set ys = {v. unat v mod 4096 = 0 \<and> vstart \<le> v \<and> v < vend}"
proof -
  let ?p = "PGROUNDUP vstart"
  define k where "k = (unat vend - unat ?p) div 4096"
  have p: "unat ?p = (unat vstart + 4095) div 4096 * 4096"
    using assms(2) by (rule unat_PGROUNDUP)
  have pm: "unat ?p mod 4096 = 0" by (simp add: p)
  have "unat vstart \<le> unat vend" using assms(5) by (simp add: word_le_nat_alt)
  with assms(3) have pv: "unat ?p \<le> unat vend" unfolding p by (simp only: round_up_le)
  have "4096 dvd unat vend - unat ?p" using assms(3) pm by (simp add: mod_eq_0_iff_dvd dvd_diff_nat)
  then have k: "unat ?p + 4096 * k = unat vend" using pv by (simp add: k_def)
  have up: "unat ?p \<le> unat v \<longleftrightarrow> unat vstart \<le> unat v" if "unat v mod 4096 = 0" for v :: u32
    unfolding p using that by (rule round_up_le)
  have set: "set (pages ?p k) = {v. unat v mod 4096 = 0 \<and> vstart \<le> v \<and> v < vend}"
    using k assms(4) up by (subst set_pages [OF pm]) (auto simp: word_le_nat_alt word_less_nat_alt)
  have "4096 * k < 4294967296" using k unat_u32_less [of vend] by linarith
  then have "k < 2 ^ 20 + 1" by simp
  then have "\<exists>t. freerange_loop (2 ^ 20 + 1) ?p vend s = Ret () t \<and>
      kinv t (rev (pages ?p k) @ xs) \<and> kend t = kend s"
    by (intro freerange_loop_kinv) (use k assms set in auto)
  then show ?thesis
    unfolding freerange_def using set by (metis set_rev)
qed

text \<open>
  C9. The two initialisation calls \<open>main\<close> makes, \<open>kinit1(end, P2V(4*1024*1024))\<close> and
  \<open>kinit2(P2V(4*1024*1024), P2V(PHYSTOP))\<close>, return, and every page \<open>kfree\<close> accepts is then on the
  free list, once, with the lock in use.
\<close>

theorem kinit_frees_all_pages:
  assumes "freelist s = 0" "KERNBASE \<le> kend s" "kend s \<le> P2V 0x400000"
  shows "\<exists>t xs. thenK (kinit1 (kend s) (P2V 0x400000)) (kinit2 (P2V 0x400000) (P2V PHYSTOP)) s = Ret () t
    \<and> kinv t xs \<and> set xs = {v. page_ok (kend s) v} \<and> use_lock t"
proof -
  let ?e = "kend s" and ?m = "P2V 0x400000" and ?top = "P2V PHYSTOP"
  let ?s = "s\<lparr>held := held s - {LkKmem}, use_lock := False\<rparr>"
  have nums: "unat ?m = 0x80400000" "unat ?top = 0x8E000000" by (simp_all add: P2V_def)
  have e: "0x80000000 \<le> unat ?e" "unat ?e \<le> 0x80400000"
    using assms(2,3) nums by (simp_all add: word_le_nat_alt)
  have inv: "kinv ?s []" using assms(1) by (simp add: kinv_def)
  have "\<exists>t ys. freerange ?e ?m ?s = Ret () t \<and> kinv t (ys @ []) \<and> kend t = kend ?s \<and>
      set ys = {v. unat v mod 4096 = 0 \<and> ?e \<le> v \<and> v < ?m}"
    by (rule freerange_kinv [OF inv]) (use e nums in \<open>auto simp: page_ok_nat word_le_nat_alt word_less_nat_alt\<close>)
  then obtain t ys where t: "freerange ?e ?m ?s = Ret () t" "kinv t ys" "kend t = ?e"
    and ys: "set ys = {v. unat v mod 4096 = 0 \<and> ?e \<le> v \<and> v < ?m}" by auto
  have "\<exists>u zs. freerange ?m ?top t = Ret () u \<and> kinv u (zs @ ys) \<and> kend u = kend t \<and>
      set zs = {v. unat v mod 4096 = 0 \<and> ?m \<le> v \<and> v < ?top}"
    by (rule freerange_kinv [OF t(2)])
      (use e nums t(3) ys in \<open>auto simp: page_ok_nat word_le_nat_alt word_less_nat_alt\<close>)
  then obtain u zs where u: "freerange ?m ?top t = Ret () u" "kinv u (zs @ ys)" "kend u = ?e"
    and zs: "set zs = {v. unat v mod 4096 = 0 \<and> ?m \<le> v \<and> v < ?top}" using t(3) by auto
  have "set (zs @ ys) = {v. page_ok ?e v}"
    using e nums by (auto simp: ys zs page_ok_nat word_le_nat_alt word_less_nat_alt)
  moreover have "kinv (u\<lparr>use_lock := True\<rparr>) (zs @ ys)"
    using u(2) by (simp add: kinv_def)
  ultimately show ?thesis
    using t(1) u(1) by (auto simp: kinit1_def kinit2_def km_simps)
qed

section \<open>Allocation and release\<close>

text \<open>
  C11. \<open>kfree\<close> of a valid page that is not on the free list returns, keeps the free list well
  formed with the page at its head, changes no byte outside the page, and the next \<open>kalloc\<close>
  returns that page and restores the list.
\<close>

theorem kfree_kalloc:
  assumes "kinv s xs" "page_ok (kend s) v" "v \<notin> set xs"
  shows "\<exists>t u. kfree v s = Ret () t \<and> kinv t (v # xs) \<and>
    (\<forall>a. \<not> in_page v a \<longrightarrow> memory t a = memory s a) \<and> kalloc t = Ret v u \<and> kinv u xs"
proof -
  from kfree_kinv [OF assms] obtain t where t: "kfree v s = Ret () t" "kinv t (v # xs)"
    "\<forall>a. \<not> in_page v a \<longrightarrow> memory t a = memory s a" by blast
  show ?thesis using t kalloc_kinv [OF t(2)] by simp
qed

text \<open>
  C10. While the free list has at least \<open>n\<close> pages, \<open>n\<close> calls of \<open>kalloc\<close> return \<open>n\<close> different pages of
  it, none of them 0, and leave the others on the list.
\<close>

theorem kalloc_distinct:
  assumes "free_pages s F" "n \<le> card F"
  shows "\<exists>ps t. alloc_n kalloc n s = Ret ps t \<and> length ps = n \<and> distinct ps \<and> set ps \<subseteq> F \<and>
    free_pages t (F - set ps)"
  using assms by (rule pa.alloc_distinct)

definition boot_kstate :: kstate where
  "boot_kstate = \<lparr>held = {}, cur = None, ptable = [], nextpid = 1, initproc = None, ticks = 0,
     slocks = (\<lambda>_. \<lparr>locked = False, slpid = 0\<rparr>), memory = (\<lambda>_. 0), use_lock = False, freelist = 0,
     kend = 0x80101234, kdata = 0x80100800, kpgdir = 0, cr3 = 0\<rparr>"

lemma kinv_boot: "kinv boot_kstate []"
  by (simp add: kinv_def boot_kstate_def)

lemma page_ok_boot: "page_ok (kend boot_kstate) 0x80200000"
  by (simp add: page_ok_nat boot_kstate_def)

theorem kinit_frees_all_pages_witness:
  "\<exists>t xs. thenK (kinit1 0x80101234 (P2V 0x400000)) (kinit2 (P2V 0x400000) (P2V PHYSTOP)) boot_kstate = Ret () t
    \<and> kinv t xs \<and> set xs = {v. page_ok 0x80101234 v}"
  using kinit_frees_all_pages [of boot_kstate] by (auto simp: boot_kstate_def P2V_def)

theorem kfree_kalloc_witness:
  "\<exists>t u. kfree 0x80200000 boot_kstate = Ret () t \<and> kalloc t = Ret 0x80200000 u"
  using kfree_kalloc [OF kinv_boot page_ok_boot] by auto

theorem kalloc_distinct_witness:
  "\<exists>s ps t. alloc_n kalloc 1 s = Ret ps t \<and> length ps = 1 \<and> (s :: kstate) \<noteq> t"
proof -
  from kfree_kinv [OF kinv_boot page_ok_boot] obtain s :: kstate where s: "kinv s [0x80200000]" by auto
  then have f: "free_pages s {0x80200000}" by (auto simp: free_pages_def)
  from kalloc_distinct [OF f, of 1] obtain ps t where a: "alloc_n kalloc 1 s = Ret ps t" "length ps = 1"
    "set ps \<subseteq> {0x80200000}" "free_pages t ({0x80200000} - set ps)" by auto
  then have "set ps = {0x80200000}" by (cases ps) auto
  with a(4) have "free_pages t {}" by simp
  then have "s \<noteq> t" using s by (auto simp: free_pages_def kinv_def)
  with a show ?thesis by blast
qed

end
