(* ===== verification/Ide.thy ===== *)
theory Ide
  imports Kalloc
begin

text \<open>
  Disk buffers (\<open>buf.h\<close>) and the two disk drivers a kernel can be linked with: \<open>ide.c\<close>, whose
  requests are queued and completed by the interrupt handler, and \<open>memide.c\<close>, which copies from
  an image in memory. Lemmas: the driver addresses the sector of the buffer's block on the
  buffer's drive; a request completes with the buffer valid and clean and the disk block equal
  to the buffer; both drivers meet the contract \<open>block_driver\<close>.
\<close>

section \<open>State\<close>

record buf =
  bflags :: u32
  bdev :: u32
  blockno :: u32
  refcnt :: u32
  bdata :: "u8 list"

definition bvalid :: "buf \<Rightarrow> bool" where
  "bvalid b \<longleftrightarrow> bflags b AND B_VALID \<noteq> 0"

definition bdirty :: "buf \<Rightarrow> bool" where
  "bdirty b \<longleftrightarrow> bflags b AND B_DIRTY \<noteq> 0"

text \<open>
  The disk controller as \<open>ide.c\<close> drives it: the task file registers, each drive's status, their
  sectors at power-on and the sectors written since, in order. The controller executes a write
  when it has received the data of the sector, and a read transfers the addressed sector.
\<close>

record ide_dev =
  r_count :: u8
  r_lba0 :: u8
  r_lba1 :: u8
  r_lba2 :: u8
  r_drive :: u8
  r_cmd :: u8
  r_status :: "bool \<Rightarrow> u8"
  image :: "bool \<Rightarrow> u32 \<Rightarrow> u8 list"
  written :: "(bool \<times> u32 \<times> u8 list) list"

text \<open>
  \<open>idequeue\<close>: the buffers linked by \<open>qnext\<close>. \<open>lru\<close>: the buffers in the order of the \<open>next\<close> links
  from \<open>bcache.head\<close>. \<open>memfs\<close>: the kernel is linked with \<open>memide.c\<close>; its image is then drive 1.
\<close>

record bstate = kstate +
  bufs :: "buf list"
  lru :: "nat list"
  idequeue :: "nat list"
  havedisk1 :: bool
  idev :: ide_dev
  memfs :: bool
  disksize :: u32

definition sect_write :: "(bool \<Rightarrow> u32 \<Rightarrow> u8 list) \<Rightarrow> bool \<times> u32 \<times> u8 list \<Rightarrow> (bool \<Rightarrow> u32 \<Rightarrow> u8 list)" where
  "sect_write f w = (case w of (d, n, v) \<Rightarrow> f(d := (f d)(n := v)))"

definition platter :: "ide_dev \<Rightarrow> bool \<Rightarrow> u32 \<Rightarrow> u8 list" where
  "platter dv = foldl sect_write (image dv) (written dv)"

definition disk :: "'z bstate_scheme \<Rightarrow> u32 \<Rightarrow> u32 \<Rightarrow> u8 list" where
  "disk s d n = platter (idev s) (bit d 0) n"

definition upd_buf :: "nat \<Rightarrow> (buf \<Rightarrow> buf) \<Rightarrow> 'z bstate_scheme \<Rightarrow> 'z bstate_scheme" where
  "upd_buf i f s = s\<lparr>bufs := (bufs s)[i := f (bufs s ! i)]\<rparr>"

section \<open>ide.c\<close>

abbreviation (input) SECTOR_SIZE :: nat where "SECTOR_SIZE \<equiv> 512"
abbreviation (input) IDE_BSY :: u8 where "IDE_BSY \<equiv> 0x80"
abbreviation (input) IDE_DRDY :: u8 where "IDE_DRDY \<equiv> 0x40"
abbreviation (input) IDE_DF :: u8 where "IDE_DF \<equiv> 0x20"
abbreviation (input) IDE_ERR :: u8 where "IDE_ERR \<equiv> 0x01"
abbreviation (input) IDE_CMD_READ :: u8 where "IDE_CMD_READ \<equiv> 0x20"
abbreviation (input) IDE_CMD_WRITE :: u8 where "IDE_CMD_WRITE \<equiv> 0x30"
abbreviation (input) IDE_CMD_RDMUL :: u8 where "IDE_CMD_RDMUL \<equiv> 0xc4"
abbreviation (input) IDE_CMD_WRMUL :: u8 where "IDE_CMD_WRMUL \<equiv> 0xc5"

text \<open>The sector and the drive the task file registers address.\<close>

definition addr_sector :: "ide_dev \<Rightarrow> u32" where
  "addr_sector dv = ucast (r_lba0 dv) OR push_bit 8 (ucast (r_lba1 dv))
     OR push_bit 16 (ucast (r_lba2 dv)) OR push_bit 24 (ucast (r_drive dv AND 0x0f))"

definition addr_drive :: "ide_dev \<Rightarrow> bool" where
  "addr_drive dv = bit (r_drive dv) 4"

definition inb_status :: "ide_dev \<Rightarrow> u8" where
  "inb_status dv = r_status dv (addr_drive dv)"

text \<open>A controller that is not ready keeps the caller in the loop.\<close>

definition idewait :: "bool \<Rightarrow> ('z bstate_scheme, int) km" where
  "idewait checkerr = bindK (getK (\<lambda>s. inb_status (idev s))) (\<lambda>r.
     if r AND (IDE_BSY OR IDE_DRDY) \<noteq> IDE_DRDY then Spin
     else if checkerr \<and> r AND (IDE_DF OR IDE_ERR) \<noteq> 0 then retK (- 1) else retK 0)"

definition outsl :: "u8 list \<Rightarrow> ide_dev \<Rightarrow> ide_dev" where
  "outsl d dv = dv\<lparr>written := written dv @ [(addr_drive dv, addr_sector dv, d)]\<rparr>"

definition insl :: "ide_dev \<Rightarrow> u8 list" where
  "insl dv = platter dv (addr_drive dv) (addr_sector dv)"

fun probe_loop :: "nat \<Rightarrow> ('z bstate_scheme, unit) km" where
  "probe_loop 0 s = Ret () s"
| "probe_loop (Suc n) s =
     (if inb_status (idev s) \<noteq> 0 then Ret () (s\<lparr>havedisk1 := True\<rparr>) else probe_loop n s)"

definition ideinit :: "('z bstate_scheme, unit) km" where
  "ideinit = thenK (modK (\<lambda>s. s\<lparr>held := held s - {LkIde}\<rparr>))
    (thenK (idewait False)
    (thenK (modK (\<lambda>s. s\<lparr>idev := (idev s)\<lparr>r_drive := 0xe0 OR push_bit 4 1\<rparr>\<rparr>))
    (thenK (probe_loop 1000)
     (modK (\<lambda>s. s\<lparr>idev := (idev s)\<lparr>r_drive := 0xe0 OR push_bit 4 0\<rparr>\<rparr>)))))"

definition sector_per_block :: nat where
  "sector_per_block = BSIZE div SECTOR_SIZE"

text \<open>The writes to ports 0x1f2 to 0x1f7, in order.\<close>

definition ide_program :: "u32 \<Rightarrow> u32 \<Rightarrow> u8 \<Rightarrow> ide_dev \<Rightarrow> ide_dev" where
  "ide_program d sector cmd dv = dv\<lparr>r_count := of_nat sector_per_block,
     r_lba0 := ucast (sector AND 0xff),
     r_lba1 := ucast (drop_bit 8 sector AND 0xff),
     r_lba2 := ucast (drop_bit 16 sector AND 0xff),
     r_drive := ucast (0xe0 OR push_bit 4 (d AND 1) OR (drop_bit 24 sector AND 0x0f)),
     r_cmd := cmd\<rparr>"

definition idestart :: "nat \<Rightarrow> ('z bstate_scheme, unit) km" where
  "idestart i = bindK (getK (\<lambda>s. bufs s ! i)) (\<lambda>b.
     thenK (assertK (\<not> blockno b \<ge> FSSIZE) ''incorrect blockno'')
    (let sector = blockno b * of_nat sector_per_block;
         read_cmd = (if sector_per_block = 1 then IDE_CMD_READ else IDE_CMD_RDMUL);
         write_cmd = (if sector_per_block = 1 then IDE_CMD_WRITE else IDE_CMD_WRMUL) in
     thenK (assertK (\<not> sector_per_block > 7) ''idestart'')
    (thenK (idewait False)
     (if bdirty b
      then thenK (modK (\<lambda>s. s\<lparr>idev := ide_program (bdev b) sector write_cmd (idev s)\<rparr>))
             (modK (\<lambda>s. s\<lparr>idev := outsl (bdata b) (idev s)\<rparr>))
      else modK (\<lambda>s. s\<lparr>idev := ide_program (bdev b) sector read_cmd (idev s)\<rparr>)))))"

definition ideintr :: "('z bstate_scheme, unit) km" where
  "ideintr = thenK (lk_acquire LkIde) (bindK (getK idequeue) (\<lambda>q. case q of
       [] \<Rightarrow> lk_release LkIde
     | i # q' \<Rightarrow>
         thenK (modK (\<lambda>s. s\<lparr>idequeue := q'\<rparr>))
        (bindK (getK (\<lambda>s. bufs s ! i)) (\<lambda>b.
         thenK (if \<not> bdirty b then bindK (idewait True) (\<lambda>r.
                  whenK (r \<ge> 0) (modK (\<lambda>s. upd_buf i (\<lambda>b. b\<lparr>bdata := insl (idev s)\<rparr>) s)))
                else retK ())
        (thenK (modK (upd_buf i (\<lambda>b. b\<lparr>bflags := bflags b OR B_VALID\<rparr>)))
        (thenK (modK (upd_buf i (\<lambda>b. b\<lparr>bflags := bflags b AND NOT B_DIRTY\<rparr>)))
        (thenK (wakeup (ChBuf i))
        (thenK (case q' of [] \<Rightarrow> retK () | j # _ \<Rightarrow> idestart j)
         (lk_release LkIde)))))))))"

text \<open>
  A process asleep on a buffer while the disk works. The scheduler has released \<open>ptable.lock\<close> and
  idles; every interrupt runs \<open>ideintr\<close>; once the process is \<open>RUNNABLE\<close> the scheduler switches back
  to it and \<open>sleep\<close> finishes. Only the disk acts meanwhile. Each interrupt takes one request off
  the queue, so the length of the queue bounds their number.
\<close>

definition sched_idle :: "('z bstate_scheme, unit) km" where
  "sched_idle = thenK (lk_release LkPtable) (modK (\<lambda>s. s\<lparr>cur := None\<rparr>))"

definition sched_resume :: "nat \<Rightarrow> ('z bstate_scheme, unit) km" where
  "sched_resume p = thenK (lk_acquire LkPtable)
     (modK (\<lambda>s. upd_proc p (\<lambda>q. q\<lparr>pstate := RUNNING\<rparr>) (s\<lparr>cur := Some p\<rparr>)))"

fun intr_until :: "nat \<Rightarrow> nat \<Rightarrow> chan \<Rightarrow> ('z bstate_scheme, unit) km" where
  "intr_until 0 p c s = Sleep c s"
| "intr_until (Suc n) p c s = bindK ideintr (\<lambda>_. bindK (getK (\<lambda>s. pstate (ptable s ! p))) (\<lambda>st.
     if st = RUNNABLE then sched_resume p else intr_until n p c)) s"

definition sleep_disk :: "nat \<Rightarrow> ('z bstate_scheme, unit) km" where
  "sleep_disk i s = (case sleep (ChBuf i) LkIde s of
     Sleep c t \<Rightarrow> (case cur t of None \<Rightarrow> Sleep c t | Some p \<Rightarrow>
        thenK sched_idle (thenK (intr_until (length (idequeue t)) p c) (sleep_resume LkIde)) t)
   | r \<Rightarrow> r)"

fun ide_wait :: "nat \<Rightarrow> nat \<Rightarrow> ('z bstate_scheme, unit) km" where
  "ide_wait 0 i s = Spin s"
| "ide_wait (Suc n) i s =
     (if bflags (bufs s ! i) AND (B_VALID OR B_DIRTY) \<noteq> B_VALID
      then thenK (sleep_disk i) (ide_wait n i) s else Ret () s)"

definition ide_rw :: "nat \<Rightarrow> ('z bstate_scheme, unit) km" where
  "ide_rw i = bindK (holdingsleep (SlkBuf i)) (\<lambda>h.
     thenK (assertK h ''iderw: buf not locked'')
    (bindK (getK (\<lambda>s. bufs s ! i)) (\<lambda>b.
     thenK (assertK (bflags b AND (B_VALID OR B_DIRTY) \<noteq> B_VALID) ''iderw: nothing to do'')
    (bindK (getK havedisk1) (\<lambda>h1.
     thenK (assertK (\<not> (bdev b \<noteq> 0 \<and> \<not> h1)) ''iderw: ide disk 1 not present'')
    (thenK (lk_acquire LkIde)
    (thenK (modK (\<lambda>s. s\<lparr>idequeue := idequeue s @ [i]\<rparr>))
    (bindK (getK idequeue) (\<lambda>q.
     thenK (whenK (hd q = i) (idestart i))
    (thenK (ide_wait (length q + 1) i)
     (lk_release LkIde)))))))))))"

section \<open>memide.c\<close>

text \<open>
  The block at \<open>memdisk + b->blockno*BSIZE\<close> is block \<open>blockno\<close> of drive 1: the array is not laid out in
  \<open>memory\<close>, so that both drivers act on the same disk.
\<close>

definition memide_rw :: "nat \<Rightarrow> ('z bstate_scheme, unit) km" where
  "memide_rw i = bindK (holdingsleep (SlkBuf i)) (\<lambda>h.
     thenK (assertK h ''iderw: buf not locked'')
    (bindK (getK (\<lambda>s. bufs s ! i)) (\<lambda>b.
     thenK (assertK (bflags b AND (B_VALID OR B_DIRTY) \<noteq> B_VALID) ''iderw: nothing to do'')
    (thenK (assertK (bdev b = 1) ''iderw: request not for disk 1'')
    (bindK (getK disksize) (\<lambda>ds.
     thenK (assertK (\<not> blockno b \<ge> ds) ''iderw: block out of range'')
    (thenK (if bdirty b then
        thenK (modK (upd_buf i (\<lambda>b. b\<lparr>bflags := bflags b AND NOT B_DIRTY\<rparr>)))
         (modK (\<lambda>s. s\<lparr>idev := (idev s)\<lparr>written := written (idev s) @ [(True, blockno b, bdata b)]\<rparr>\<rparr>))
      else modK (\<lambda>s. upd_buf i (\<lambda>b. b\<lparr>bdata := platter (idev s) True (blockno b)\<rparr>) s))
     (modK (upd_buf i (\<lambda>b. b\<lparr>bflags := bflags b OR B_VALID\<rparr>))))))))))"

definition iderw :: "nat \<Rightarrow> ('z bstate_scheme, unit) km" where
  "iderw i = bindK (getK memfs) (\<lambda>m. if m then memide_rw i else ide_rw i)"

section \<open>Flags\<close>

lemma flag_bits: "f AND 2 \<noteq> 0 \<longleftrightarrow> bit f 1" "f AND 4 \<noteq> 0 \<longleftrightarrow> bit f 2" for f :: u32
  using and_exp_eq_0_iff_not_bit [of f 1] and_exp_eq_0_iff_not_bit [of f 2] by simp_all

lemma bvalid_bit: "bvalid b \<longleftrightarrow> bit (bflags b) 1"
  by (simp add: bvalid_def flag_bits)

lemma bdirty_bit: "bdirty b \<longleftrightarrow> bit (bflags b) 2"
  by (simp add: bdirty_def flag_bits)

lemma bit_2_4 [simp]: "bit (2 :: u32) n \<longleftrightarrow> n = 1" "bit (4 :: u32) n \<longleftrightarrow> n = 2"
  using bit_exp_iff [where 'a = u32, of 1 n] bit_exp_iff [where 'a = u32, of 2 n] by auto

lemma bit_6: "bit (6 :: u32) n \<longleftrightarrow> n = 1 \<or> n = 2"
proof -
  have "(6 :: u32) = 2 OR 4" by simp
  then show ?thesis by (simp only: bit_or_iff bit_2_4)
qed

lemma flags_done: "bflags b AND 6 = 2 \<longleftrightarrow> bvalid b \<and> \<not> bdirty b"
  unfolding bvalid_bit bdirty_bit
proof
  assume "bflags b AND 6 = 2"
  then have "bit (bflags b AND 6) n \<longleftrightarrow> n = 1" for n by (simp only: bit_2_4)
  from this [of 1] this [of 2] show "bit (bflags b) 1 \<and> \<not> bit (bflags b) 2"
    by (simp add: bit_and_iff bit_6)
next
  assume "bit (bflags b) 1 \<and> \<not> bit (bflags b) 2"
  then show "bflags b AND 6 = 2"
    by (intro bit_word_eqI) (simp only: bit_and_iff bit_6 bit_2_4, auto)
qed

lemma bit_not_dirty [simp]: "bit (- 5 :: u32) n \<longleftrightarrow> n \<noteq> 2 \<and> n < 32"
proof -
  have "(- 5 :: u32) = NOT 4" by simp
  then show ?thesis by (simp only: bit_not_iff bit_2_4) auto
qed

lemma flag_updates [simp]:
  "bvalid (b\<lparr>bflags := f OR 2\<rparr>)" "bdirty (b\<lparr>bflags := f OR 2\<rparr>) \<longleftrightarrow> bit f 2"
  "bdirty (b\<lparr>bflags := f OR 4\<rparr>)" "bvalid (b\<lparr>bflags := f OR 4\<rparr>) \<longleftrightarrow> bit f 1"
  "\<not> bdirty (b\<lparr>bflags := f AND - 5\<rparr>)" "bvalid (b\<lparr>bflags := f AND - 5\<rparr>) \<longleftrightarrow> bit f 1"
  "\<not> bvalid (b\<lparr>bflags := 0\<rparr>)" "\<not> bdirty (b\<lparr>bflags := 0\<rparr>)"
  by (simp_all add: bvalid_bit bdirty_bit bit_or_iff bit_and_iff)

section \<open>Addressing\<close>

lemma sector_per_block [simp]: "sector_per_block = 1"
  by (simp add: sector_per_block_def)

lemma lba_bits:
  fixes sector d :: u32
  assumes "sector < 2 ^ 28"
  shows "(ucast (ucast (sector AND mask 8) :: u8) :: u32) OR push_bit 8 (ucast (ucast (drop_bit 8 sector AND mask 8) :: u8))
    OR push_bit 16 (ucast (ucast (drop_bit 16 sector AND mask 8) :: u8))
    OR push_bit 24 (ucast ((ucast (push_bit 5 (mask 3) OR push_bit 4 (d AND mask 1) OR (drop_bit 24 sector AND mask 4)) :: u8)
      AND mask 4)) = sector"
proof (rule bit_word_eqI, goal_cases)
  case (1 n)
  then consider "n < 8" | "8 \<le> n" "n < 16" | "16 \<le> n" "n < 24" | "24 \<le> n" "n < 28" | "28 \<le> n" "n < 32"
    by fastforce
  moreover have "28 \<le> n \<Longrightarrow> \<not> bit sector n"
    using small_bits [OF assms, of n] by auto
  ultimately show ?case
    unfolding bit_or_iff bit_and_iff bit_push_bit_iff bit_unsigned_iff bit_mask_iff bit_drop_bit_eq o_apply possible_bit_word
    by cases (simp_all add: less_diff_conv2 le_diff_conv2)
qed

lemma drive_bit:
  "bit (ucast (push_bit 5 (mask 3) OR push_bit 4 (d AND mask 1) OR (drop_bit 24 sector AND mask 4) :: u32) :: u8) 4 = bit d 0"
  unfolding bit_or_iff bit_and_iff bit_push_bit_iff bit_unsigned_iff bit_mask_iff bit_drop_bit_eq o_apply possible_bit_word
  by simp

lemma lba_addr:
  assumes "sector < 2 ^ 28"
  shows "addr_sector (ide_program d sector cmd dv) = sector" "addr_drive (ide_program d sector cmd dv) = bit d 0"
proof -
  have m: "(mask 8 :: u32) = 0xff" "(mask 4 :: u32) = 0x0f" "(mask 4 :: u8) = 0x0f" "(mask 1 :: u32) = 1"
    "(push_bit 5 (mask 3) :: u32) = 0xe0"
    by (simp_all add: mask_eq_exp_minus_1 push_bit_eq_mult)
  show "addr_sector (ide_program d sector cmd dv) = sector" "addr_drive (ide_program d sector cmd dv) = bit d 0"
    using lba_bits [OF assms, of d] drive_bit [of d sector] unfolding m
    by (simp_all add: addr_sector_def addr_drive_def ide_program_def)
qed

section \<open>The controller\<close>

definition ready :: "ide_dev \<Rightarrow> bool" where
  "ready dv \<longleftrightarrow> (\<forall>d. r_status dv d AND (IDE_BSY OR IDE_DRDY) = IDE_DRDY \<and> r_status dv d AND (IDE_DF OR IDE_ERR) = 0)"

lemma idewait_ready: "ready (idev s) \<Longrightarrow> idewait c s = Ret 0 s"
  by (simp add: idewait_def km_simps ready_def inb_status_def)

lemma platter_outsl: "platter (outsl v dv) = (platter dv)(addr_drive dv := (platter dv (addr_drive dv))(addr_sector dv := v))"
  by (simp add: platter_def outsl_def sect_write_def addr_drive_def addr_sector_def)

lemma ide_program_same [simp]:
  "image (ide_program d n c dv) = image dv" "written (ide_program d n c dv) = written dv"
  "r_status (ide_program d n c dv) = r_status dv"
  by (simp_all add: ide_program_def)

lemma platter_cong: "image dv = image dv' \<Longrightarrow> written dv = written dv' \<Longrightarrow> platter dv = platter dv'"
  by (simp add: platter_def)

lemma platter_program [simp]: "platter (ide_program d n c dv) = platter dv"
  by (simp add: platter_def)

text \<open>The controller after \<open>idestart\<close> of buffer \<open>b\<close>.\<close>

definition started :: "buf \<Rightarrow> ide_dev \<Rightarrow> ide_dev" where
  "started b dv = (if bdirty b then outsl (bdata b) (ide_program (bdev b) (blockno b) IDE_CMD_WRITE dv)
     else ide_program (bdev b) (blockno b) IDE_CMD_READ dv)"

lemma idestart_ready:
  "ready (idev s) \<Longrightarrow> blockno (bufs s ! i) < FSSIZE \<Longrightarrow>
   idestart i s = Ret () (s\<lparr>idev := started (bufs s ! i) (idev s)\<rparr>)"
  by (simp add: idestart_def km_simps idewait_ready started_def Let_def not_le)

lemma started_regs:
  assumes "blockno b < FSSIZE"
  shows "addr_sector (started b dv) = blockno b" "addr_drive (started b dv) = bit (bdev b) 0"
    "r_status (started b dv) = r_status dv" "image (started b dv) = image dv"
    "written (started b dv) = written dv @ (if bdirty b then [(bit (bdev b) 0, blockno b, bdata b)] else [])"
proof -
  have "blockno b < 2 ^ 28" using assms by (simp add: word_less_nat_alt)
  note a = lba_addr [OF this]
  show "addr_sector (started b dv) = blockno b" "addr_drive (started b dv) = bit (bdev b) 0"
    "r_status (started b dv) = r_status dv" "image (started b dv) = image dv"
    "written (started b dv) = written dv @ (if bdirty b then [(bit (bdev b) 0, blockno b, bdata b)] else [])"
    using a by (simp_all add: started_def outsl_def addr_sector_def addr_drive_def)
qed

section \<open>Sleeping and waking\<close>

definition wakes :: "proc list \<Rightarrow> proc list \<Rightarrow> bool" where
  "wakes pt pt' \<longleftrightarrow> length pt' = length pt \<and> (\<forall>q < length pt. pt' ! q = pt ! q \<or>
     pstate (pt ! q) = SLEEPING \<and> pt' ! q = (pt ! q)\<lparr>pstate := RUNNABLE\<rparr>)"

lemma wakes_refl [simp]: "wakes pt pt"
  by (simp add: wakes_def)

lemma wakes_trans: "wakes a b \<Longrightarrow> wakes b c \<Longrightarrow> wakes a c"
  unfolding wakes_def by (intro conjI allI impI) (simp, elim conjE allE, auto)

lemma wakes_wakeup: "wakes pt (map (wakeup_proc c) pt)"
  by (simp add: wakes_def wakeup_proc_def)

lemma wakes_running: "wakes pt pt' \<Longrightarrow> p < length pt \<Longrightarrow> pstate (pt ! p) = RUNNING \<Longrightarrow> pt' ! p = pt ! p"
  unfolding wakes_def by auto

text \<open>The state in which a process runs kernel code with nothing locked and the disk idle.\<close>

definition quiet :: "'z bstate_scheme \<Rightarrow> bool" where
  "quiet s \<longleftrightarrow> held s = {} \<and> idequeue s = [] \<and> ready (idev s) \<and> (\<exists>p. cur s = Some p \<and> p < length (ptable s) \<and>
     pstate (ptable s ! p) = RUNNING \<and> pchan (ptable s ! p) = None)"


lemma sleep_eval:
  assumes "cur s = Some p" "held s = {lk}" "lk \<noteq> LkPtable" "p < length (ptable s)"
  shows "sleep c lk s = Sleep c (s\<lparr>held := {LkPtable},
    ptable := (ptable s)[p := (ptable s ! p)\<lparr>pchan := Some c, pstate := SLEEPING\<rparr>]\<rparr>)"
proof -
  have "{LkPtable, lk} - {lk} = {LkPtable}" using assms(3) by auto
  with assms show ?thesis
    by (simp add: sleep_def myproc_def km_simps upd_proc_def sched_def)
qed

text \<open>A completed request.\<close>

definition served :: "ide_dev \<Rightarrow> buf \<Rightarrow> buf" where
  "served dv b = b\<lparr>bdata := (if bdirty b then bdata b else platter dv (bit (bdev b) 0) (blockno b)),
     bflags := (bflags b OR B_VALID) AND NOT B_DIRTY\<rparr>"

lemma ideintr_eval:
  assumes "held s = {}" "idequeue s = [i]" "ready (idev s)" "i < length (bufs s)"
    "addr_sector (idev s) = blockno (bufs s ! i)" "addr_drive (idev s) = bit (bdev (bufs s ! i)) 0"
  shows "ideintr s = Ret () (s\<lparr>idequeue := [], bufs := (bufs s)[i := served (idev s) (bufs s ! i)],
     ptable := map (wakeup_proc (ChBuf i)) (ptable s)\<rparr>)"
proof (cases "bdirty (bufs s ! i)")
  case True
  with assms show ?thesis
    by (simp add: ideintr_def km_simps upd_buf_def served_def)
next
  case False
  with assms show ?thesis
    by (simp add: ideintr_def km_simps upd_buf_def served_def idewait_ready insl_def)
qed

lemma wake_same:
  assumes "p < length pt" "pstate (pt ! p) = RUNNING" "pchan (pt ! p) = None"
  shows "\<exists>pt'. wakes pt pt' \<and> (let a = (pt[p := (pt ! p)\<lparr>pchan := Some c, pstate := SLEEPING\<rparr>]);
     b = map (wakeup_proc c) a; d = b[p := (b ! p)\<lparr>pstate := RUNNING\<rparr>] in
     pstate (b ! p) = RUNNABLE \<and> d[p := (d ! p)\<lparr>pchan := None\<rparr>] = pt')"
  using assms by (auto simp: Let_def wakes_def nth_list_update wakeup_proc_def)


lemma served_done: "bvalid (served dv b) \<and> \<not> bdirty (served dv b)"
  by (simp add: served_def bit_or_iff)

lemma sleep_disk_eval:
  assumes "held s = {LkIde}" "idequeue s = [i]" "ready (idev s)" "i < length (bufs s)"
    "addr_sector (idev s) = blockno (bufs s ! i)" "addr_drive (idev s) = bit (bdev (bufs s ! i)) 0"
    "cur s = Some p" "p < length (ptable s)" "pstate (ptable s ! p) = RUNNING" "pchan (ptable s ! p) = None"
  shows "\<exists>pt'. wakes (ptable s) pt' \<and> sleep_disk i s = Ret () (s\<lparr>ptable := pt', idequeue := [],
     bufs := (bufs s)[i := served (idev s) (bufs s ! i)]\<rparr>)"
proof -
  let ?c = "ChBuf i"
  let ?a = "(ptable s)[p := (ptable s ! p)\<lparr>pchan := Some ?c, pstate := SLEEPING\<rparr>]"
  let ?b = "map (wakeup_proc ?c) ?a"
  let ?d = "?b[p := (?b ! p)\<lparr>pstate := RUNNING\<rparr>]"
  let ?e = "?d[p := (?d ! p)\<lparr>pchan := None\<rparr>]"
  let ?s1 = "s\<lparr>ptable := ?a, held := {}, cur := None\<rparr>"
  have w: "wakes (ptable s) ?e" "pstate (?b ! p) = RUNNABLE"
    using wake_same [OF assms(8-10), of ?c] by (auto simp: Let_def)
  have intr: "ideintr ?s1 = Ret () (?s1\<lparr>idequeue := [], bufs := (bufs s)[i := served (idev s) (bufs s ! i)], ptable := ?b\<rparr>)"
    using ideintr_eval [of ?s1 i] assms by simp
  have "sleep_disk i s = Ret () (s\<lparr>ptable := ?e, idequeue := [],
     bufs := (bufs s)[i := served (idev s) (bufs s ! i)]\<rparr>)"
    using assms(1,2,7,8) w(2) intr
    by (simp add: sleep_disk_def sleep_eval km_simps sched_idle_def sched_resume_def sleep_resume_def upd_proc_def)
  with w(1) show ?thesis by blast
qed


section \<open>The contract of a disk driver\<close>

text \<open>
  \<open>rw_spec s i t\<close>: in \<open>t\<close> buffer \<open>i\<close> is valid and clean, a dirty buffer has been appended to the
  writes of its drive and a clean one filled from its block; apart from the controller's
  registers and sleepers that were woken nothing else changed.
\<close>

definition rw_spec :: "'z bstate_scheme \<Rightarrow> nat \<Rightarrow> 'z bstate_scheme \<Rightarrow> bool" where
  "rw_spec s i t \<longleftrightarrow> (\<exists>pt' dv'. wakes (ptable s) pt' \<and> image dv' = image (idev s) \<and> r_status dv' = r_status (idev s) \<and>
     written dv' = written (idev s) @ (let b = bufs s ! i in
       if bdirty b then [(bit (bdev b) 0, blockno b, bdata b)] else []) \<and>
     t = s\<lparr>ptable := pt', bufs := (bufs s)[i := served (idev s) (bufs s ! i)], idev := dv'\<rparr>)"

definition rw_pre :: "'z bstate_scheme \<Rightarrow> nat \<Rightarrow> bool" where
  "rw_pre s i \<longleftrightarrow> quiet s \<and> i < length (bufs s) \<and> locked (slocks s (SlkBuf i)) \<and>
     slpid (slocks s (SlkBuf i)) = curpid s \<and> \<not> (bvalid (bufs s ! i) \<and> \<not> bdirty (bufs s ! i))"

locale block_driver =
  fixes rw :: "nat \<Rightarrow> ('z bstate_scheme, unit) km"
    and ok :: "'z bstate_scheme \<Rightarrow> buf \<Rightarrow> bool"
  assumes rw: "rw_pre s i \<Longrightarrow> ok s (bufs s ! i) \<Longrightarrow> \<exists>t. rw i s = Ret () t \<and> rw_spec s i t"
begin

lemma rw_syncs:
  assumes "rw_pre s i" "ok s (bufs s ! i)"
  shows "\<exists>t. rw i s = Ret () t \<and> bvalid (bufs t ! i) \<and> \<not> bdirty (bufs t ! i) \<and>
    bdata (bufs t ! i) = disk t (bdev (bufs s ! i)) (blockno (bufs s ! i)) \<and>
    (\<forall>d n. \<not> (bdirty (bufs s ! i) \<and> bit d 0 = bit (bdev (bufs s ! i)) 0 \<and> n = blockno (bufs s ! i)) \<longrightarrow>
       disk t d n = disk s d n)"
proof -
  obtain t where t: "rw i s = Ret () t" "rw_spec s i t" using rw [OF assms] by blast
  have "i < length (bufs s)" using assms(1) by (simp add: rw_pre_def)
  with t(2) have "bufs t ! i = served (idev s) (bufs s ! i)" by (auto simp: rw_spec_def)
  with t served_done [of "idev s" "bufs s ! i"] show ?thesis
    by (auto simp: rw_spec_def disk_def platter_def served_def sect_write_def Let_def split: if_splits)
qed

end

definition ide_ok :: "'z bstate_scheme \<Rightarrow> buf \<Rightarrow> bool" where
  "ide_ok s b \<longleftrightarrow> blockno b < FSSIZE \<and> (bdev b = 0 \<or> havedisk1 s)"

definition memide_ok :: "'z bstate_scheme \<Rightarrow> buf \<Rightarrow> bool" where
  "memide_ok s b \<longleftrightarrow> bdev b = 1 \<and> blockno b < disksize s"

definition dev_ok :: "'z bstate_scheme \<Rightarrow> buf \<Rightarrow> bool" where
  "dev_ok s b \<longleftrightarrow> (if memfs s then memide_ok s b else ide_ok s b)"

lemma ide_rw_ok:
  assumes "rw_pre s i" "ide_ok s (bufs s ! i)"
  shows "\<exists>t. ide_rw i s = Ret () t \<and> rw_spec s i t"
proof -
  let ?b = "bufs s ! i"
  obtain p where p: "cur s = Some p" "p < length (ptable s)" "pstate (ptable s ! p) = RUNNING"
      "pchan (ptable s ! p) = None" and q: "held s = {}" "idequeue s = []" "ready (idev s)"
    and i: "i < length (bufs s)" and nd: "\<not> (bvalid ?b \<and> \<not> bdirty ?b)"
    and mine: "locked (slocks s (SlkBuf i))" "slpid (slocks s (SlkBuf i)) = curpid s"
    using assms(1) by (auto simp: rw_pre_def quiet_def)
  have bn: "blockno ?b < FSSIZE" using assms(2) by (simp add: ide_ok_def)
  let ?s1 = "s\<lparr>held := {LkIde}, idequeue := [i], idev := started ?b (idev s)\<rparr>"
  obtain pt' where w: "wakes (ptable s) pt'"
    and sl: "sleep_disk i ?s1 = Ret () (?s1\<lparr>ptable := pt', idequeue := [],
       bufs := (bufs s)[i := served (started ?b (idev s)) ?b]\<rparr>)"
    using sleep_disk_eval [of ?s1 i p] p q i started_regs [OF bn, of "idev s"] by (auto simp: ready_def)
  have hs: "holdingsleep (SlkBuf i) s = Ret True s"
    using q(1) p(1) mine by (simp add: ret_iff)
  have sv: "served (started ?b (idev s)) ?b = served (idev s) ?b"
    by (simp add: served_def started_def)
  have "ide_rw i s = Ret () (s\<lparr>ptable := pt', bufs := (bufs s)[i := served (idev s) ?b], idev := started ?b (idev s)\<rparr>)"
    using assms(2) q i nd sl bn served_done [of "idev s" ?b]
    by (simp add: ide_rw_def km_simps hs flags_done ide_ok_def idestart_ready sv eval_nat_numeral)
  moreover have "rw_spec s i (s\<lparr>ptable := pt', bufs := (bufs s)[i := served (idev s) ?b], idev := started ?b (idev s)\<rparr>)"
    unfolding rw_spec_def
    by (intro exI [of _ pt'] exI [of _ "started ?b (idev s)"]) (simp add: w Let_def started_regs [OF bn])
  ultimately show ?thesis by blast
qed

lemma flags_comm: "(f AND - 5) OR 2 = (f OR 2) AND - 5" "\<not> bit f 2 \<Longrightarrow> (f OR 2) AND - 5 = f OR 2" for f :: u32
proof -
  show "(f AND - 5) OR 2 = (f OR 2) AND - 5"
    by (rule bit_word_eqI) (simp only: bit_or_iff bit_and_iff bit_2_4 bit_not_dirty, auto)
  show "(f OR 2) AND - 5 = f OR 2" if "\<not> bit f 2"
    using that by (intro bit_word_eqI) (simp only: bit_or_iff bit_and_iff bit_2_4 bit_not_dirty, auto)
qed

lemma memide_rw_ok:
  assumes "rw_pre s i" "memide_ok s (bufs s ! i)"
  shows "\<exists>t. memide_rw i s = Ret () t \<and> rw_spec s i t"
proof -
  let ?b = "bufs s ! i"
  let ?dv = "(idev s)\<lparr>written := written (idev s) @ (if bdirty ?b then [(True, blockno ?b, bdata ?b)] else [])\<rparr>"
  have q: "held s = {}" "\<exists>p. cur s = Some p" and i: "i < length (bufs s)" and nd: "\<not> (bvalid ?b \<and> \<not> bdirty ?b)"
    and mine: "locked (slocks s (SlkBuf i))" "slpid (slocks s (SlkBuf i)) = curpid s"
    using assms(1) by (auto simp: rw_pre_def quiet_def)
  have hs: "holdingsleep (SlkBuf i) s = Ret True s"
    using q mine by (auto simp: ret_iff)
  have d: "bdev ?b = 1" "blockno ?b < disksize s" using assms(2) by (auto simp: memide_ok_def)
  have "memide_rw i s = Ret () (s\<lparr>bufs := (bufs s)[i := served (idev s) ?b], idev := ?dv\<rparr>)"
    using nd i d by (cases "bdirty ?b")
      (simp_all add: memide_rw_def km_simps hs flags_done upd_buf_def served_def not_le flags_comm bdirty_bit)
  moreover have "rw_spec s i (s\<lparr>bufs := (bufs s)[i := served (idev s) ?b], idev := ?dv\<rparr>)"
    unfolding rw_spec_def
    by (intro exI [of _ "ptable s"] exI [of _ ?dv]) (simp add: Let_def d)
  ultimately show ?thesis by blast
qed

lemma iderw_ok:
  assumes "rw_pre s i" "dev_ok s (bufs s ! i)"
  shows "\<exists>t. iderw i s = Ret () t \<and> rw_spec s i t"
  using assms ide_rw_ok memide_rw_ok by (auto simp: iderw_def km_simps dev_ok_def split: if_splits)

interpretation idedrv: block_driver ide_rw ide_ok
  by unfold_locales (rule ide_rw_ok)

interpretation memdrv: block_driver memide_rw memide_ok
  by unfold_locales (rule memide_rw_ok)

interpretation drv: block_driver iderw dev_ok
  by unfold_locales (rule iderw_ok)

section \<open>Properties\<close>

text \<open>
  C12. \<open>iderw\<close>, with either driver, on a buffer the caller has locked and the driver accepts, returns
  with the buffer valid, clean and equal to its disk block, and changes no other disk block. This is with
  no other request in the queue and a drive that reports no error.
\<close>

theorem iderw_syncs:
  assumes "rw_pre s i" "dev_ok s (bufs s ! i)"
  shows "\<exists>t. iderw i s = Ret () t \<and> bvalid (bufs t ! i) \<and> \<not> bdirty (bufs t ! i) \<and>
    bdata (bufs t ! i) = disk t (bdev (bufs s ! i)) (blockno (bufs s ! i)) \<and>
    (\<forall>d n. \<not> (bdirty (bufs s ! i) \<and> bit d 0 = bit (bdev (bufs s ! i)) 0 \<and> n = blockno (bufs s ! i)) \<longrightarrow>
       disk t d n = disk s d n)"
  using assms by (rule drv.rw_syncs)

text \<open>
  C13. A request both drivers accept, with no other request queued and a drive that reports no error,
  has the same effect with either of them: the same buffers and the same disk contents, where the memory
  disk stands for the contents of drive 1.
\<close>

theorem drivers_agree:
  assumes "rw_pre s i" "ide_ok s (bufs s ! i)" "memide_ok s (bufs s ! i)"
  shows "\<exists>t u. ide_rw i s = Ret () t \<and> memide_rw i s = Ret () u \<and> bufs t = bufs u \<and> disk t = disk u"
proof -
  obtain t where t: "ide_rw i s = Ret () t" "rw_spec s i t" using ide_rw_ok assms(1,2) by blast
  obtain u where u: "memide_rw i s = Ret () u" "rw_spec s i u" using memide_rw_ok assms(1,3) by blast
  have "bufs t = bufs u" "disk t = disk u"
    using t(2) u(2) unfolding rw_spec_def disk_def platter_def by auto
  with t u show ?thesis by blast
qed

definition demo_proc :: proc where
  "demo_proc = \<lparr>psz = 0, pgdir = 0, kstack = 0, pstate = RUNNING, pid = 1, parent = None,
     ptf = \<lparr>tf_edi = 0, tf_esi = 0, tf_ebp = 0, tf_oesp = 0, tf_ebx = 0, tf_edx = 0, tf_ecx = 0, tf_eax = 0,
       tf_gs = 0, tf_fs = 0, tf_es = 0, tf_ds = 0, tf_trapno = 0, tf_err = 0, tf_eip = 0, tf_cs = 0,
       tf_eflags = 0, tf_esp = 0, tf_ss = 0\<rparr>,
     ctx_eip = NoCode, pchan = None, killed = False, ofile = replicate 16 None, cwd = None, pname = []\<rparr>"

definition demo_dev :: ide_dev where
  "demo_dev = \<lparr>r_count = 0, r_lba0 = 0, r_lba1 = 0, r_lba2 = 0, r_drive = 0, r_cmd = 0,
     r_status = (\<lambda>_. 0x40), image = (\<lambda>_ _. replicate 512 0), written = []\<rparr>"

definition demo_bstate :: bstate where
  "demo_bstate = \<lparr>held = {}, cur = Some 0, ptable = [demo_proc], nextpid = 2, initproc = Some 0, ticks = 0,
     slocks = (\<lambda>l. \<lparr>locked = l = SlkBuf 0, slpid = 1\<rparr>), memory = (\<lambda>_. 0), use_lock = True, freelist = 0,
     kend = 0x80101234, kdata = 0x80100800, kpgdir = 0, cr3 = 0,
     bufs = [\<lparr>bflags = 4, bdev = 1, blockno = 7, refcnt = 1, bdata = replicate 512 9\<rparr>], lru = [0],
     idequeue = [], havedisk1 = True, idev = demo_dev, memfs = False, disksize = 1000\<rparr>"

lemma demo_rw_pre: "rw_pre demo_bstate 0"
  by (simp add: rw_pre_def quiet_def ready_def demo_bstate_def demo_dev_def demo_proc_def curpid_def bdirty_def)

theorem iderw_syncs_witness: "\<exists>t. iderw 0 demo_bstate = Ret () t \<and> disk t 1 7 = bdata (bufs t ! 0)"
proof -
  have "dev_ok demo_bstate (bufs demo_bstate ! 0)"
    by (simp add: dev_ok_def ide_ok_def demo_bstate_def)
  from iderw_syncs [OF demo_rw_pre this] show ?thesis by (auto simp: demo_bstate_def)
qed

theorem drivers_agree_witness:
  "\<exists>t u. ide_rw 0 demo_bstate = Ret () t \<and> memide_rw 0 demo_bstate = Ret () u \<and> disk t = disk u"
proof -
  have "ide_ok demo_bstate (bufs demo_bstate ! 0)" "memide_ok demo_bstate (bufs demo_bstate ! 0)"
    by (simp_all add: ide_ok_def memide_ok_def demo_bstate_def)
  from drivers_agree [OF demo_rw_pre this] show ?thesis by blast
qed


end
