(* ===== verification/Bio.thy ===== *)
theory Bio
  imports Ide
begin

text \<open>
  \<open>bio.c\<close>: the buffer cache. Lemmas: a block has at most one buffer, an unreferenced clean buffer
  agrees with the disk, \<open>bread\<close> returns the block's current contents and evicts only clean
  unreferenced buffers, \<open>bwrite\<close> makes the disk block equal to the buffer, \<open>brelse\<close> moves the buffer
  to the front of the list. The clients see the cache through \<open>blk\<close> (the current contents of every
  block), \<open>dirty\<close> (the pinned blocks) and the writes the disk has received.
\<close>

section \<open>Operations\<close>

fun binit_loop :: "nat \<Rightarrow> ('z bstate_scheme, unit) km" where
  "binit_loop 0 = retK ()"
| "binit_loop (Suc n) = (let b = NBUF - Suc n in
     thenK (initsleeplock (SlkBuf b))
    (thenK (modK (\<lambda>s. s\<lparr>lru := b # lru s\<rparr>)) (binit_loop n)))"

definition binit :: "('z bstate_scheme, unit) km" where
  "binit = thenK (modK (\<lambda>s. s\<lparr>held := held s - {LkBcache}\<rparr>))
    (thenK (modK (\<lambda>s. s\<lparr>lru := []\<rparr>)) (binit_loop NBUF))"

definition has_key :: "u32 \<Rightarrow> u32 \<Rightarrow> buf \<Rightarrow> bool" where
  "has_key d n b \<longleftrightarrow> bdev b = d \<and> blockno b = n"

definition bget :: "u32 \<Rightarrow> u32 \<Rightarrow> ('z bstate_scheme, nat) km" where
  "bget d n = thenK (lk_acquire LkBcache) (bindK (getK bufs) (\<lambda>bs. bindK (getK lru) (\<lambda>l.
     case find (\<lambda>i. has_key d n (bs ! i)) l of
       Some i \<Rightarrow>
         thenK (modK (upd_buf i (\<lambda>b. b\<lparr>refcnt := refcnt b + 1\<rparr>)))
        (thenK (lk_release LkBcache)
        (thenK (acquiresleep (SlkBuf i)) (retK i)))
     | None \<Rightarrow>
         (case find (\<lambda>i. refcnt (bs ! i) = 0 \<and> \<not> bdirty (bs ! i)) (rev l) of
            Some i \<Rightarrow>
              thenK (modK (upd_buf i (\<lambda>b. b\<lparr>bdev := d, blockno := n, bflags := 0, refcnt := 1\<rparr>)))
             (thenK (lk_release LkBcache)
             (thenK (acquiresleep (SlkBuf i)) (retK i)))
          | None \<Rightarrow> panicK ''bget: no buffers''))))"

definition bread :: "u32 \<Rightarrow> u32 \<Rightarrow> ('z bstate_scheme, nat) km" where
  "bread d n = bindK (bget d n) (\<lambda>i. bindK (getK (\<lambda>s. bufs s ! i)) (\<lambda>b.
     thenK (whenK (\<not> bvalid b) (iderw i)) (retK i)))"

definition bwrite :: "nat \<Rightarrow> ('z bstate_scheme, unit) km" where
  "bwrite i = bindK (holdingsleep (SlkBuf i)) (\<lambda>h.
     thenK (assertK h ''bwrite'')
    (thenK (modK (upd_buf i (\<lambda>b. b\<lparr>bflags := bflags b OR B_DIRTY\<rparr>)))
     (iderw i)))"

definition brelse :: "nat \<Rightarrow> ('z bstate_scheme, unit) km" where
  "brelse i = bindK (holdingsleep (SlkBuf i)) (\<lambda>h.
     thenK (assertK h ''brelse'')
    (thenK (releasesleep (SlkBuf i))
    (thenK (lk_acquire LkBcache)
    (thenK (modK (upd_buf i (\<lambda>b. b\<lparr>refcnt := refcnt b - 1\<rparr>)))
    (bindK (getK (\<lambda>s. refcnt (bufs s ! i))) (\<lambda>rc.
     thenK (whenK (rc = 0) (modK (\<lambda>s. s\<lparr>lru := i # remove1 i (lru s)\<rparr>)))
     (lk_release LkBcache)))))))"

text \<open>A client that writes to \<open>b->data\<close> of a buffer it has locked.\<close>

definition bset :: "nat \<Rightarrow> (u8 list \<Rightarrow> u8 list) \<Rightarrow> ('z bstate_scheme, unit) km" where
  "bset i f = modK (upd_buf i (\<lambda>b. b\<lparr>bdata := f (bdata b)\<rparr>))"

section \<open>The cache as its clients see it\<close>

definition dsk :: "'z bstate_scheme \<Rightarrow> u32 \<Rightarrow> u32 \<Rightarrow> u8 list" where
  "dsk s d n = (if d \<le> 1 then disk s d n else [])"

definition cached :: "buf list \<Rightarrow> u32 \<Rightarrow> u32 \<Rightarrow> nat \<Rightarrow> bool" where
  "cached bs d n i \<longleftrightarrow> has_key d n (bs ! i) \<and> bvalid (bs ! i)"

definition blkf :: "buf list \<Rightarrow> (u32 \<Rightarrow> u32 \<Rightarrow> u8 list) \<Rightarrow> u32 \<Rightarrow> u32 \<Rightarrow> u8 list" where
  "blkf bs dk d n = (case find (cached bs d n) [0..<length bs] of Some i \<Rightarrow> bdata (bs ! i) | None \<Rightarrow> dk d n)"

definition blk :: "'z bstate_scheme \<Rightarrow> u32 \<Rightarrow> u32 \<Rightarrow> u8 list" where
  "blk s = blkf (bufs s) (dsk s)"

definition dirtyf :: "buf list \<Rightarrow> (u32 \<times> u32) set" where
  "dirtyf bs = (\<lambda>b. (bdev b, blockno b)) ` {b \<in> set bs. bdirty b}"

definition dirty :: "'z bstate_scheme \<Rightarrow> (u32 \<times> u32) set" where
  "dirty s = dirtyf (bufs s)"

text \<open>A buffer as \<open>binit\<close> leaves it: all of them name block 0 of device 0.\<close>

definition virgin :: "buf \<Rightarrow> bool" where
  "virgin b \<longleftrightarrow> has_key 0 0 b \<and> refcnt b = 0 \<and> \<not> bvalid b \<and> \<not> bdirty b"

definition uniq :: "buf list \<Rightarrow> bool" where
  "uniq bs \<longleftrightarrow> (\<forall>i < length bs. \<forall>j < length bs.
     i \<noteq> j \<and> bdev (bs ! i) = bdev (bs ! j) \<and> blockno (bs ! i) = blockno (bs ! j) \<longrightarrow> virgin (bs ! i) \<and> virgin (bs ! j))"

definition binv :: "'z bstate_scheme \<Rightarrow> bool" where
  "binv s \<longleftrightarrow> length (bufs s) = NBUF \<and> distinct (lru s) \<and> set (lru s) = {..<NBUF} \<and> uniq (bufs s) \<and>
     (\<forall>b \<in> set (bufs s). bdev b \<le> 1 \<and> (bvalid b \<or> virgin b))"

text \<open>
  \<open>bst s H\<close>: the cache between two operations of a process that has the buffers \<open>H\<close> locked, with no
  other process using the cache. A buffer not in \<open>H\<close> is unreferenced, unlocked and, unless dirty,
  equal to its disk block.
\<close>

definition mine :: "'z bstate_scheme \<Rightarrow> nat \<Rightarrow> bool" where
  "mine s i \<longleftrightarrow> locked (slocks s (SlkBuf i)) \<and> slpid (slocks s (SlkBuf i)) = curpid s"

definition bst :: "'z bstate_scheme \<Rightarrow> nat list \<Rightarrow> bool" where
  "bst s H \<longleftrightarrow> binv s \<and> quiet s \<and> distinct H \<and> set H \<subseteq> {..<NBUF} \<and>
     (\<forall>i \<in> set H. mine s i \<and> refcnt (bufs s ! i) = 1 \<and> bvalid (bufs s ! i)) \<and>
     (\<forall>i < NBUF. i \<notin> set H \<longrightarrow> \<not> locked (slocks s (SlkBuf i)) \<and> refcnt (bufs s ! i) = 0 \<and>
        (bvalid (bufs s ! i) \<and> \<not> bdirty (bufs s ! i) \<longrightarrow>
           bdata (bufs s ! i) = dsk s (bdev (bufs s ! i)) (blockno (bufs s ! i))))"

text \<open>What no operation of the cache changes.\<close>

definition bframe :: "'z bstate_scheme \<Rightarrow> 'z bstate_scheme \<Rightarrow> bool" where
  "bframe s t \<longleftrightarrow> wakes (ptable s) (ptable t) \<and> image (idev t) = image (idev s) \<and>
     r_status (idev t) = r_status (idev s) \<and> (\<forall>l. (\<forall>b. l \<noteq> SlkBuf b) \<longrightarrow> slocks t l = slocks s l) \<and>
     t = s\<lparr>ptable := ptable t, slocks := slocks t, bufs := bufs t, lru := lru t, idev := idev t\<rparr>"

definition key_ok :: "'z bstate_scheme \<Rightarrow> u32 \<Rightarrow> u32 \<Rightarrow> bool" where
  "key_ok s d n \<longleftrightarrow> d \<le> 1 \<and> (d, n) \<noteq> (0, 0) \<and>
     (if memfs s then d = 1 \<and> n < disksize s else n < FSSIZE \<and> (d = 0 \<or> havedisk1 s))"

section \<open>Contents and pinned blocks of a list of buffers\<close>

lemma uniqD: "uniq bs \<Longrightarrow> i < length bs \<Longrightarrow> j < length bs \<Longrightarrow> has_key d n (bs ! i) \<Longrightarrow> has_key d n (bs ! j) \<Longrightarrow>
    \<not> virgin (bs ! i) \<Longrightarrow> i = j"
  unfolding uniq_def has_key_def by metis

lemma blkf_cached:
  assumes "uniq bs" "i < length bs" "cached bs d n i"
  shows "blkf bs dk d n = bdata (bs ! i)"
proof -
  have "find (cached bs d n) [0..<length bs] \<noteq> None"
    using assms by (auto simp: find_None_iff)
  then obtain j where f: "find (cached bs d n) [0..<length bs] = Some j" by auto
  then have "j < length bs" "cached bs d n j" by (auto simp: find_Some_iff)
  moreover have "\<not> virgin (bs ! j)" using \<open>cached bs d n j\<close> by (simp add: cached_def virgin_def)
  ultimately have "j = i" using uniqD [OF assms(1)] assms(2,3) unfolding cached_def by blast
  with f show ?thesis by (simp add: blkf_def)
qed

lemma blkf_uncached: "\<forall>i < length bs. \<not> cached bs d n i \<Longrightarrow> blkf bs dk d n = dk d n"
  using find_None_iff [of "cached bs d n" "[0..<length bs]"] by (simp add: blkf_def)

lemma blkfI:
  assumes "uniq bs" "\<And>i. i < length bs \<Longrightarrow> cached bs d n i \<Longrightarrow> bdata (bs ! i) = v"
    "\<forall>i < length bs. \<not> cached bs d n i \<Longrightarrow> dk d n = v"
  shows "blkf bs dk d n = v"
  using assms blkf_cached [OF assms(1)] blkf_uncached by metis

lemma uniq_upd_same:
  assumes "uniq bs" "i < length bs" "bdev b = bdev (bs ! i)" "blockno b = blockno (bs ! i)" "\<not> virgin (bs ! i)"
  shows "uniq (bs[i := b])"
  using assms unfolding uniq_def by (auto simp: nth_list_update)

lemma uniq_upd_new:
  assumes "uniq bs" "i < length bs" "\<And>j. j < length bs \<Longrightarrow> j \<noteq> i \<Longrightarrow> \<not> has_key (bdev b) (blockno b) (bs ! j)"
  shows "uniq (bs[i := b])"
proof -
  have "\<not> (bdev b = bdev (bs ! j) \<and> blockno b = blockno (bs ! j))" if "j < length bs" "j \<noteq> i" for j
    using assms(3) [OF that] by (auto simp: has_key_def)
  with assms(1,2) show ?thesis unfolding uniq_def by (simp add: nth_list_update) metis
qed

text \<open>Replacing a clean buffer by another clean one does not change the contents.\<close>

lemma blkf_replace:
  assumes u: "uniq bs" "uniq (bs[i := b])" and i: "i < length bs"
    and old: "bvalid (bs ! i) \<Longrightarrow> bdata (bs ! i) = dk (bdev (bs ! i)) (blockno (bs ! i))"
    and new: "bvalid b" "bdata b = dk (bdev b) (blockno b)"
    and fresh: "\<And>j. j < length bs \<Longrightarrow> j \<noteq> i \<Longrightarrow> \<not> has_key (bdev b) (blockno b) (bs ! j)"
  shows "blkf (bs[i := b]) dk = blkf bs dk"
proof (intro ext)
  fix d n
  consider (new) "has_key d n b" | (other) j where "\<not> has_key d n b" "j < length bs" "j \<noteq> i" "cached bs d n j"
    | (none) "\<not> has_key d n b" "\<forall>j < length bs. j \<noteq> i \<longrightarrow> \<not> cached bs d n j" by blast
  then show "blkf (bs[i := b]) dk d n = blkf bs dk d n"
  proof cases
    case new
    then have d: "d = bdev b" "n = blockno b" by (auto simp: has_key_def)
    have "blkf (bs[i := b]) dk d n = dk d n"
      using blkf_cached [OF u(2), of i d n] i assms(5,6) new by (simp add: cached_def d)
    moreover have "blkf bs dk d n = dk d n"
    proof (rule blkfI [OF u(1)])
      fix j assume j: "j < length bs" "cached bs d n j"
      then have "j = i" using fresh [OF j(1)] d by (auto simp: cached_def)
      then show "bdata (bs ! j) = dk d n" using old j by (auto simp: cached_def has_key_def)
    qed simp
    ultimately show ?thesis by simp
  next
    case other
    then have "cached (bs[i := b]) d n j" by (simp add: cached_def)
    then show ?thesis using other blkf_cached [OF u(1) other(2,4)] blkf_cached [OF u(2), of j d n] by simp
  next
    case none
    have "blkf (bs[i := b]) dk d n = dk d n"
      using none i by (intro blkf_uncached) (auto simp: cached_def nth_list_update)
    moreover have "blkf bs dk d n = dk d n"
    proof (rule blkfI [OF u(1)])
      fix j assume j: "j < length bs" "cached bs d n j"
      then have "j = i" using none(2) by blast
      then show "bdata (bs ! j) = dk d n" using old j by (auto simp: cached_def has_key_def)
    qed simp
    ultimately show ?thesis by simp
  qed
qed

text \<open>Changing the data of a buffer changes the contents of its block only.\<close>

lemma blkf_data:
  assumes u: "uniq bs" and i: "i < length bs" "bvalid (bs ! i)"
    and b: "bdev b = bdev (bs ! i)" "blockno b = blockno (bs ! i)" "bvalid b"
  shows "blkf (bs[i := b]) dk = (blkf bs dk)(bdev b := (blkf bs dk (bdev b))(blockno b := bdata b))"
proof (intro ext)
  fix d n
  have nv: "\<not> virgin (bs ! i)" using i(2) by (simp add: virgin_def)
  have u2: "uniq (bs[i := b])" by (rule uniq_upd_same [OF u i(1) b(1,2) nv])
  show "blkf (bs[i := b]) dk d n = ((blkf bs dk)(bdev b := (blkf bs dk (bdev b))(blockno b := bdata b))) d n"
  proof (cases "has_key d n b")
    case True
    then have "cached (bs[i := b]) d n i" using i b by (simp add: cached_def)
    with True show ?thesis using blkf_cached [OF u2, of i d n] i by (simp add: has_key_def)
  next
    case False
    then have same: "j < length bs \<Longrightarrow> cached (bs[i := b]) d n j \<longleftrightarrow> cached bs d n j" for j
      using b by (cases "j = i") (auto simp: cached_def has_key_def)
    have "blkf (bs[i := b]) dk d n = blkf bs dk d n"
    proof (rule blkfI [OF u2])
      fix j assume j: "j < length (bs[i := b])" "cached (bs[i := b]) d n j"
      then have "j \<noteq> i" using False i by (auto simp: cached_def)
      with j same blkf_cached [OF u, of j d n] show "bdata (bs[i := b] ! j) = blkf bs dk d n" by simp
    qed (use same blkf_uncached [of bs d n dk] in simp)
    with False show ?thesis by (auto simp: has_key_def)
  qed
qed

lemma blkf_keep:
  assumes "uniq bs" "i < length bs" "bvalid (bs ! i)"
    "bdev b = bdev (bs ! i)" "blockno b = blockno (bs ! i)" "bvalid b" "bdata b = bdata (bs ! i)"
  shows "blkf (bs[i := b]) dk = blkf bs dk"
proof -
  have "blkf bs dk (bdev b) (blockno b) = bdata b"
    using blkf_cached [OF assms(1,2), of "bdev b" "blockno b"] assms by (simp add: cached_def has_key_def)
  then show ?thesis unfolding blkf_data [OF assms(1-6)] by (simp add: fun_upd_idem)
qed

text \<open>A disk write to a block that is in the cache does not change the contents.\<close>

lemma blkf_disk:
  assumes "uniq bs" "i < length bs" "cached bs d n i"
  shows "blkf bs (dk(d := (dk d)(n := v))) = blkf bs dk"
proof (intro ext)
  fix d' n'
  show "blkf bs (dk(d := (dk d)(n := v))) d' n' = blkf bs dk d' n'"
  proof (cases "d' = d \<and> n' = n")
    case True
    then show ?thesis using blkf_cached [OF assms] by simp
  next
    case False
    then have "(dk(d := (dk d)(n := v))) d' n' = dk d' n'" by auto
    then show ?thesis by (simp only: blkf_def)
  qed
qed

lemma dirtyf_iff: "(d, n) \<in> dirtyf bs \<longleftrightarrow> (\<exists>i < length bs. has_key d n (bs ! i) \<and> bdirty (bs ! i))"
  unfolding dirtyf_def has_key_def by (auto simp: in_set_conv_nth image_iff)


lemma dirtyf_clean:
  "i < length bs \<Longrightarrow> \<not> bdirty (bs ! i) \<Longrightarrow> \<not> bdirty b \<Longrightarrow> dirtyf (bs[i := b]) = dirtyf bs"
  by (auto simp: set_eq_iff dirtyf_iff nth_list_update)

lemma dirtyf_set:
  assumes "i < length bs" "bdev b = bdev (bs ! i)" "blockno b = blockno (bs ! i)" "bdirty b"
  shows "dirtyf (bs[i := b]) = insert (bdev b, blockno b) (dirtyf bs)"
proof (rule set_eqI, clarify)
  fix d n
  show "(d, n) \<in> dirtyf (bs[i := b]) \<longleftrightarrow> (d, n) \<in> insert (bdev b, blockno b) (dirtyf bs)"
    using assms by (auto simp: dirtyf_iff nth_list_update has_key_def) 
qed

lemma dirtyf_unset:
  assumes "uniq bs" "i < length bs" "bdev b = bdev (bs ! i)" "blockno b = blockno (bs ! i)" "\<not> bdirty b" "\<not> virgin (bs ! i)"
  shows "dirtyf (bs[i := b]) = dirtyf bs - {(bdev b, blockno b)}"
proof (rule set_eqI, clarify)
  fix d n
  show "(d, n) \<in> dirtyf (bs[i := b]) \<longleftrightarrow> (d, n) \<in> dirtyf bs - {(bdev b, blockno b)}"
  proof
    assume "(d, n) \<in> dirtyf (bs[i := b])"
    then obtain j where j: "j < length bs" "has_key d n (bs[i := b] ! j)" "bdirty (bs[i := b] ! j)"
      by (auto simp: dirtyf_iff)
    then have "j \<noteq> i" using assms(2,5) by auto
    with j have "has_key d n (bs ! j)" "bdirty (bs ! j)" by auto
    moreover from this uniqD [OF assms(1,2) j(1), of d n] assms(3,4,6) \<open>j \<noteq> i\<close>
    have "(d, n) \<noteq> (bdev b, blockno b)" by (auto simp: has_key_def)
    ultimately show "(d, n) \<in> dirtyf bs - {(bdev b, blockno b)}" using j(1) by (auto simp: dirtyf_iff)
  next
    assume "(d, n) \<in> dirtyf bs - {(bdev b, blockno b)}"
    then obtain j where j: "j < length bs" "has_key d n (bs ! j)" "bdirty (bs ! j)" "(d, n) \<noteq> (bdev b, blockno b)"
      by (auto simp: dirtyf_iff)
    then have "j \<noteq> i" using assms(3,4) by (auto simp: has_key_def)
    with j show "(d, n) \<in> dirtyf (bs[i := b])" by (auto simp: dirtyf_iff)
  qed
qed

lemma finite_dirtyf [simp]: "finite (dirtyf bs)"
  by (simp add: dirtyf_def)

text \<open>A buffer to recycle exists while the pinned and the locked ones are fewer than all.\<close>

lemma free_buf:
  assumes "uniq bs" "card (dirtyf bs) + length H < length bs"
  shows "\<exists>i < length bs. i \<notin> set H \<and> \<not> bdirty (bs ! i)"
proof (rule ccontr)
  let ?D = "{i. i < length bs \<and> bdirty (bs ! i)}"
  assume "\<not> ?thesis"
  then have "{..<length bs} \<subseteq> ?D \<union> set H" by auto
  then have "length bs \<le> card (?D \<union> set H)" using card_mono [of "?D \<union> set H" "{..<length bs}"] by simp
  also have "\<dots> \<le> card ?D + card (set H)" by (rule card_Un_le)
  also have "card (set H) \<le> length H" by (rule card_length)
  also have "card ?D \<le> card (dirtyf bs)"
  proof (rule card_inj_on_le)
    show "inj_on (\<lambda>i. (bdev (bs ! i), blockno (bs ! i))) ?D"
      using assms(1) unfolding inj_on_def uniq_def virgin_def by blast
    show "(\<lambda>i. (bdev (bs ! i), blockno (bs ! i))) ` ?D \<subseteq> dirtyf bs"
      by (auto simp: dirtyf_iff has_key_def)
  qed simp
  finally show False using assms(2) by simp
qed

section \<open>What the operations keep\<close>

lemma bframe_fields:
  assumes "bframe s t"
  shows "held t = held s" "cur t = cur s" "idequeue t = idequeue s" "memfs t = memfs s" "disksize t = disksize s"
    "havedisk1 t = havedisk1 s" "memory t = memory s" "freelist t = freelist s" "use_lock t = use_lock s"
    "kend t = kend s" "nextpid t = nextpid s" "initproc t = initproc s" "ticks t = ticks s"
    "bstate.more t = bstate.more s" "wakes (ptable s) (ptable t)" "r_status (idev t) = r_status (idev s)"
    "image (idev t) = image (idev s)" "\<And>l. (\<And>b. l \<noteq> SlkBuf b) \<Longrightarrow> slocks t l = slocks s l"
proof -
  have e: "t = s\<lparr>ptable := ptable t, slocks := slocks t, bufs := bufs t, lru := lru t, idev := idev t\<rparr>"
    using assms by (simp add: bframe_def)
  show "held t = held s" "cur t = cur s" "idequeue t = idequeue s" "memfs t = memfs s" "disksize t = disksize s"
    "havedisk1 t = havedisk1 s" "memory t = memory s" "freelist t = freelist s" "use_lock t = use_lock s"
    "kend t = kend s" "nextpid t = nextpid s" "initproc t = initproc s" "ticks t = ticks s"
    "bstate.more t = bstate.more s"
    by (subst e, simp)+
qed (use assms in \<open>simp_all add: bframe_def\<close>)

lemma bframe_refl [simp]: "bframe s s"
  by (simp add: bframe_def)

lemma bframe_upd: "bframe s (s\<lparr>ptable := p, slocks := l, bufs := b, lru := r, idev := v\<rparr>) \<longleftrightarrow>
    wakes (ptable s) p \<and> image v = image (idev s) \<and> r_status v = r_status (idev s) \<and>
    (\<forall>k. (\<forall>b. k \<noteq> SlkBuf b) \<longrightarrow> l k = slocks s k)"
  by (auto simp: bframe_def)

lemma bframe_trans: "bframe s t \<Longrightarrow> bframe t u \<Longrightarrow> bframe s u"
proof -
  assume st: "bframe s t" and tu: "bframe t u"
  have e: "t = s\<lparr>ptable := ptable t, slocks := slocks t, bufs := bufs t, lru := lru t, idev := idev t\<rparr>"
    using st by (simp add: bframe_def)
  have f: "u = t\<lparr>ptable := ptable u, slocks := slocks u, bufs := bufs u, lru := lru u, idev := idev u\<rparr>"
    using tu by (simp add: bframe_def)
  have "u = s\<lparr>ptable := ptable u, slocks := slocks u, bufs := bufs u, lru := lru u, idev := idev u\<rparr>"
    by (subst f, subst e) simp
  moreover have "wakes (ptable s) (ptable u)"
    using bframe_fields(15) [OF st] bframe_fields(15) [OF tu] by (rule wakes_trans)
  ultimately show ?thesis
    using bframe_fields(16-18) [OF st] bframe_fields(16-18) [OF tu] by (simp add: bframe_def)
qed

interpretation bfr: frame bframe
  by unfold_locales (auto intro: bframe_trans)

lemma quiet_bframe:
  assumes "quiet s" "bframe s t"
  shows "quiet t" "curpid t = curpid s"
proof -
  obtain p where p: "cur s = Some p" "p < length (ptable s)" "pstate (ptable s ! p) = RUNNING"
    "pchan (ptable s ! p) = None" and q: "held s = {}" "idequeue s = []" "ready (idev s)"
    using assms(1) by (auto simp: quiet_def)
  note f = bframe_fields [OF assms(2)]
  have "ptable t ! p = ptable s ! p" using f(15) p(2,3) by (rule wakes_running)
  moreover have "length (ptable t) = length (ptable s)" using f(15) by (simp add: wakes_def)
  ultimately show "quiet t" "curpid t = curpid s"
    using p q f(1-3,16) by (simp_all add: quiet_def ready_def curpid_def)
qed

lemma key_ok_bframe: "bframe s t \<Longrightarrow> key_ok t d n \<longleftrightarrow> key_ok s d n"
  using bframe_fields [of s t] by (simp add: key_ok_def)

lemma disk_cong: "image (idev t) = image (idev s) \<Longrightarrow> written (idev t) = written (idev s) \<Longrightarrow> dsk t = dsk s"
  by (intro ext) (simp add: dsk_def disk_def platter_def)

lemma u32_le_1: "(d :: u32) \<le> 1 \<longleftrightarrow> d = 0 \<or> d = 1"
  by (auto simp: word_le_nat_alt word_unat_eq_iff le_Suc_eq)

lemma dsk_snoc:
  assumes "image (idev t) = image (idev s)" "written (idev t) = written (idev s) @ [(bit d 0, n, v)]" "d \<le> 1"
  shows "dsk t = (dsk s)(d := (dsk s d)(n := v))"
proof (intro ext)
  fix d' n'
  have d: "d' \<le> 1 \<Longrightarrow> bit d' 0 = bit d 0 \<longleftrightarrow> d' = d" for d' :: u32
    using assms(3) by (auto simp: u32_le_1)
  show "dsk t d' n' = ((dsk s)(d := (dsk s d)(n := v))) d' n'"
    using assms d [of d'] by (auto simp: dsk_def disk_def platter_def sect_write_def)
qed

definition same_view :: "'z bstate_scheme \<Rightarrow> 'z bstate_scheme \<Rightarrow> bool" where
  "same_view s t \<longleftrightarrow> bframe s t \<and> blk t = blk s \<and> dirty t = dirty s \<and> written (idev t) = written (idev s)"

lemma bst_parts:
  assumes "bst s H"
  shows "length (bufs s) = 30" "distinct (lru s)" "set (lru s) = {..<30}" "uniq (bufs s)" "quiet s" "distinct H"
    "set H \<subseteq> {..<30}" "held s = {}" "\<exists>p. cur s = Some p"
    "\<And>i. i < 30 \<Longrightarrow> bdev (bufs s ! i) \<le> 1" "\<And>i. i < 30 \<Longrightarrow> bvalid (bufs s ! i) \<or> virgin (bufs s ! i)"
    "\<And>i. i \<in> set H \<Longrightarrow> mine s i" "\<And>i. i \<in> set H \<Longrightarrow> refcnt (bufs s ! i) = 1" "\<And>i. i \<in> set H \<Longrightarrow> bvalid (bufs s ! i)"
    "\<And>i. i < 30 \<Longrightarrow> i \<notin> set H \<Longrightarrow> \<not> locked (slocks s (SlkBuf i))"
    "\<And>i. i < 30 \<Longrightarrow> i \<notin> set H \<Longrightarrow> refcnt (bufs s ! i) = 0"
    "\<And>i. i < 30 \<Longrightarrow> i \<notin> set H \<Longrightarrow> bvalid (bufs s ! i) \<Longrightarrow> \<not> bdirty (bufs s ! i) \<Longrightarrow>
       bdata (bufs s ! i) = dsk s (bdev (bufs s ! i)) (blockno (bufs s ! i))"
  using assms by (auto simp: bst_def binv_def quiet_def all_set_conv_all_nth [where xs = "bufs s"])

lemma bst_upd:
  assumes st: "bst s H" and fr: "bframe s t" and i: "i < 30" and bufs: "bufs t = (bufs s)[i := b]"
    and u: "uniq (bufs t)" and b: "bdev b \<le> 1" "bvalid b"
    and lru: "distinct (lru t)" "set (lru t) = {..<30}"
    and sl: "slocks t = (slocks s)(SlkBuf i := l)"
    and H': "distinct H'" "set H' - {i} = set H - {i}"
    and held: "i \<in> set H' \<Longrightarrow> locked l \<and> slpid l = curpid s \<and> refcnt b = 1"
    and free: "i \<notin> set H' \<Longrightarrow> \<not> locked l \<and> refcnt b = 0 \<and>
      (\<not> bdirty b \<longrightarrow> bdata b = dsk t (bdev b) (blockno b))"
    and dk: "\<And>j. j < 30 \<Longrightarrow> j \<noteq> i \<Longrightarrow> bvalid (bufs s ! j) \<Longrightarrow>
      dsk t (bdev (bufs s ! j)) (blockno (bufs s ! j)) = dsk s (bdev (bufs s ! j)) (blockno (bufs s ! j))"
  shows "bst t H'"
proof -
  note p = bst_parts [OF st] and q = quiet_bframe [OF bst_parts(5) [OF st] fr]
  have inH: "j \<in> set H' \<longleftrightarrow> j \<in> set H" if "j \<noteq> i" for j using H'(2) that by blast
  have len: "length (bufs t) = 30" using bufs p(1) by simp
  have ti: "bufs t ! i = b" using bufs i p(1) by simp
  have tj: "bufs t ! j = bufs s ! j" "slocks t (SlkBuf j) = slocks s (SlkBuf j)" if "j \<noteq> i" for j
    using bufs sl that by auto
  have "bdev c \<le> 1 \<and> (bvalid c \<or> virgin c)" if c: "c \<in> set (bufs t)" for c
  proof -
    obtain j where "j < length (bufs t)" "bufs t ! j = c" using c unfolding in_set_conv_nth by blast
    with len have "j < 30" "c = bufs t ! j" by simp_all
    then show ?thesis using ti tj b p(10,11) by (cases "j = i") auto
  qed
  then have "binv t" using len lru u by (simp add: binv_def)
  moreover have "set H' \<subseteq> {..<30}" using H'(2) p(7) i by auto
  moreover have "mine t j \<and> refcnt (bufs t ! j) = 1 \<and> bvalid (bufs t ! j)" if "j \<in> set H'" for j
  proof (cases "j = i")
    case True
    then show ?thesis using held that ti b sl q(2) by (simp add: mine_def)
  next
    case False
    then have "j \<in> set H" using inH that by blast
    then show ?thesis using p(12-14) [of j] tj [OF False] q(2) by (simp add: mine_def)
  qed
  moreover have "\<not> locked (slocks t (SlkBuf j)) \<and> refcnt (bufs t ! j) = 0 \<and>
      (bvalid (bufs t ! j) \<and> \<not> bdirty (bufs t ! j) \<longrightarrow>
         bdata (bufs t ! j) = dsk t (bdev (bufs t ! j)) (blockno (bufs t ! j)))" if "j < 30" "j \<notin> set H'" for j
  proof (cases "j = i")
    case True
    then show ?thesis using free that ti sl by simp
  next
    case False
    then have "j \<notin> set H" using inH that by blast
    then show ?thesis using p(15-17) [of j] tj [OF False] dk [of j] that False by auto
  qed
  ultimately show ?thesis using q(1) H'(1) by (simp add: bst_def)
qed

lemma dirtyf_same:
  assumes "i < length bs" "bdev b = bdev (bs ! i)" "blockno b = blockno (bs ! i)" "bdirty b = bdirty (bs ! i)"
  shows "dirtyf (bs[i := b]) = dirtyf bs"
  using assms by (auto simp: set_eq_iff dirtyf_iff nth_list_update has_key_def)

lemma find_SomeD: "find P xs = Some x \<Longrightarrow> x \<in> set xs \<and> P x"
  by (induction xs) (auto split: if_splits)

lemma bget_hit:
  assumes "find (\<lambda>i. has_key d n (bufs s ! i)) (lru s) = Some i" "held s = {}" "cur s = Some p"
    "\<not> locked (slocks s (SlkBuf i))"
  shows "bget d n s = Ret i (s\<lparr>slocks := (slocks s)(SlkBuf i := \<lparr>locked = True, slpid = curpid s\<rparr>),
     bufs := (bufs s)[i := (bufs s ! i)\<lparr>refcnt := refcnt (bufs s ! i) + 1\<rparr>]\<rparr>)"
  using assms by (simp add: bget_def km_simps upd_buf_def curpid_def)

lemma bget_miss:
  assumes "find (\<lambda>i. has_key d n (bufs s ! i)) (lru s) = None"
    "find (\<lambda>i. refcnt (bufs s ! i) = 0 \<and> \<not> bdirty (bufs s ! i)) (rev (lru s)) = Some i" "held s = {}" "cur s = Some p"
    "\<not> locked (slocks s (SlkBuf i))"
  shows "bget d n s = Ret i (s\<lparr>slocks := (slocks s)(SlkBuf i := \<lparr>locked = True, slpid = curpid s\<rparr>),
     bufs := (bufs s)[i := (bufs s ! i)\<lparr>bdev := d, blockno := n, bflags := 0, refcnt := 1\<rparr>]\<rparr>)"
  using assms by (simp add: bget_def km_simps upd_buf_def curpid_def)

definition bread_post :: "'z bstate_scheme \<Rightarrow> nat list \<Rightarrow> u32 \<Rightarrow> u32 \<Rightarrow> nat \<Rightarrow> 'z bstate_scheme \<Rightarrow> bool" where
  "bread_post s H d n i t \<longleftrightarrow> bst t (i # H) \<and> has_key d n (bufs t ! i) \<and> bdata (bufs t ! i) = blk s d n \<and>
     same_view s t \<and> (\<forall>j \<in> set H. bufs t ! j = bufs s ! j)"

lemma bread_hit:
  assumes st: "bst s H" and f: "find (\<lambda>i. has_key d n (bufs s ! i)) (lru s) = Some i"
    and k: "(d, n) \<noteq> (0, 0)" and nh: "\<forall>j \<in> set H. \<not> has_key d n (bufs s ! j)"
  shows "\<exists>t. bread d n s = Ret i t \<and> bread_post s H d n i t"
proof -
  note p = bst_parts [OF st]
  have hk: "has_key d n (bufs s ! i)" and i: "i < 30"
    using find_SomeD [OF f] p(3) by auto
  have iH: "i \<notin> set H" using hk nh by blast
  have nv: "\<not> virgin (bufs s ! i)" using hk k by (auto simp: virgin_def has_key_def)
  then have v: "bvalid (bufs s ! i)" using p(11) [OF i] by blast
  let ?b = "(bufs s ! i)\<lparr>refcnt := refcnt (bufs s ! i) + 1\<rparr>"
  let ?t = "s\<lparr>slocks := (slocks s)(SlkBuf i := \<lparr>locked = True, slpid = curpid s\<rparr>), bufs := (bufs s)[i := ?b]\<rparr>"
  obtain q where q: "cur s = Some q" using p(9) by blast
  have "bget d n s = Ret i ?t" by (rule bget_hit [OF f p(8) q p(15) [OF i iH]])
  then have r: "bread d n s = Ret i ?t" using v i p(1) by (simp add: bread_def km_simps bvalid_def)
  have fr: "bframe s ?t" by (simp add: bframe_def)
  have key: "bdev ?b = bdev (bufs s ! i)" "blockno ?b = blockno (bufs s ! i)" "bvalid ?b" "bdata ?b = bdata (bufs s ! i)"
    "bdirty ?b = bdirty (bufs s ! i)"
    using v by (simp_all add: bvalid_def bdirty_def)
  have dk: "dsk ?t = dsk s" by (rule disk_cong) simp_all
  have bt: "bufs ?t = (bufs s)[i := ?b]" by simp
  have view: "same_view s ?t"
    using blkf_keep [OF p(4), of i ?b "dsk s"] i p(1) v key fr dk
    unfolding same_view_def blk_def dirty_def
    by (simp add: dirtyf_same)
  have "bst ?t (i # H)"
    by (rule bst_upd [OF st fr i bt, where l = "\<lparr>locked = True, slpid = curpid s\<rparr>"])
      (use uniq_upd_same [OF p(4), of i ?b] i iH p(1-3,6,7,10,16) nv key dk in simp_all)
  have oth: "(bufs s)[i := ?b] ! j = bufs s ! j" if "j \<in> set H" for j
    using iH that by (intro nth_list_update_neq) auto
  from \<open>bst ?t (i # H)\<close> show ?thesis using r hk view oth i p(1) blkf_cached [OF p(4), of i d n] v
    by (auto simp: bread_post_def has_key_def cached_def blk_def)
qed


lemma served_fields [simp]:
  "bdev (served dv b) = bdev b" "blockno (served dv b) = blockno b" "refcnt (served dv b) = refcnt b"
  "bvalid (served dv b)" "\<not> bdirty (served dv b)"
  using served_done [of dv b] by (simp_all add: served_def)

lemma bread_miss:
  assumes st: "bst s H" and f: "find (\<lambda>i. has_key d n (bufs s ! i)) (lru s) = None"
    and k: "key_ok s d n" and room: "card (dirty s) + length H < 30"
  shows "\<exists>i t. bread d n s = Ret i t \<and> bread_post s H d n i t"
proof -
  note p = bst_parts [OF st]
  have none: "\<not> has_key d n (bufs s ! j)" if "j < 30" for j
    using f p(3) that unfolding find_None_iff by auto
  obtain i0 where "i0 < 30" "i0 \<notin> set H" "\<not> bdirty (bufs s ! i0)"
    using free_buf [OF p(4), of H] room p(1) by (auto simp: dirty_def)
  then have "find (\<lambda>i. refcnt (bufs s ! i) = 0 \<and> \<not> bdirty (bufs s ! i)) (rev (lru s)) \<noteq> None"
    using p(3,16) unfolding find_None_iff by auto
  then obtain i where fi: "find (\<lambda>i. refcnt (bufs s ! i) = 0 \<and> \<not> bdirty (bufs s ! i)) (rev (lru s)) = Some i" by auto
  from find_SomeD [OF this] have "i \<in> set (rev (lru s))" "refcnt (bufs s ! i) = 0" "\<not> bdirty (bufs s ! i)"
    by blast+
  then have i: "i < 30" and nd: "\<not> bdirty (bufs s ! i)" and iH: "i \<notin> set H"
    using p(3,13) by auto
  obtain q where q: "cur s = Some q" using p(9) by blast
  let ?b1 = "(bufs s ! i)\<lparr>bdev := d, blockno := n, bflags := 0, refcnt := 1\<rparr>"
  let ?s1 = "s\<lparr>slocks := (slocks s)(SlkBuf i := \<lparr>locked = True, slpid = curpid s\<rparr>), bufs := (bufs s)[i := ?b1]\<rparr>"
  have g: "bget d n s = Ret i ?s1" by (rule bget_miss [OF f fi p(8) q p(15) [OF i iH]])
  have b1: "bufs ?s1 ! i = ?b1" using i p(1) by simp
  have nv1: "\<not> bvalid ?b1" "\<not> bdirty ?b1" by (simp_all add: bvalid_def bdirty_def)
  have fr1: "bframe s ?s1" by (simp add: bframe_def)
  have "rw_pre ?s1 i" using quiet_bframe [OF p(5) fr1] i p(1) nv1 by (simp add: rw_pre_def)
  moreover have "dev_ok ?s1 (bufs ?s1 ! i)"
    using k b1 by (auto simp: key_ok_def dev_ok_def ide_ok_def memide_ok_def)
  ultimately obtain t where t: "iderw i ?s1 = Ret () t" "rw_spec ?s1 i t" using iderw_ok by blast
  let ?b = "served (idev s) ?b1"
  obtain pt' dv' where w: "wakes (ptable s) pt'" "image dv' = image (idev s)" "r_status dv' = r_status (idev s)"
    "written dv' = written (idev s)"
    and te: "t = ?s1\<lparr>ptable := pt', bufs := (bufs s)[i := ?b], idev := dv'\<rparr>"
    using t(2) nv1 b1 i p(1) by (auto simp: rw_spec_def Let_def)
  have fr: "bframe s t" unfolding te using w by (simp add: bframe_def)
  have dk: "dsk t = dsk s" by (rule disk_cong) (simp_all add: te w)
  have bt: "bufs t = (bufs s)[i := ?b]" by (simp add: te)
  have bd: "bdata ?b = dsk s d n" using k nv1 by (simp add: served_def dsk_def disk_def key_ok_def)
  have fresh: "\<not> has_key (bdev ?b) (blockno ?b) (bufs s ! j)" if "j < 30" for j using none [OF that] by simp
  have u: "uniq (bufs t)" unfolding bt using i p(1) fresh by (intro uniq_upd_new [OF p(4)]) auto
  have blk: "blkf ((bufs s)[i := ?b]) (dsk s) = blkf (bufs s) (dsk s)"
    by (rule blkf_replace [OF p(4) u [unfolded bt]]) (use i p(1) p(17) [OF i iH] nd bd fresh in auto)
  have view: "same_view s t"
    unfolding same_view_def blk_def dirty_def dk bt blk using fr w nd i p(1) by (simp add: dirtyf_clean te)
  have bst: "bst t (i # H)"
    by (rule bst_upd [OF st fr i bt u, where l = "\<lparr>locked = True, slpid = curpid s\<rparr>"])
      (use iH p(2,3,6) k dk in \<open>auto simp: te key_ok_def\<close>)
  have "blkf (bufs s) (dsk s) d n = dsk s d n"
    by (rule blkf_uncached) (use none p(1) in \<open>auto simp: cached_def\<close>)
  have oth: "(bufs s)[i := ?b] ! j = bufs s ! j" if "j \<in> set H" for j
    using iH that by (intro nth_list_update_neq) auto
  have "bread_post s H d n i t"
    unfolding bread_post_def blk_def using bst view i p(1) bd oth \<open>blkf (bufs s) (dsk s) d n = dsk s d n\<close>
    by (auto simp: bt has_key_def)
  moreover have "bread d n s = Ret i t"
    using nv1 b1 t(1) by (simp add: bread_def km_simps g)
  ultimately show ?thesis by blast
qed

lemma bread_ok:
  assumes "bst s H" "key_ok s d n" "\<forall>j \<in> set H. \<not> has_key d n (bufs s ! j)"
    "card (dirty s) + length H < 30 \<or> (d, n) \<in> dirty s"
  shows "\<exists>i t. bread d n s = Ret i t \<and> bread_post s H d n i t"
proof (cases "find (\<lambda>i. has_key d n (bufs s ! i)) (lru s)")
  case None
  then have "\<not> has_key d n (bufs s ! j)" if "j < 30" for j
    using bst_parts(3) [OF assms(1)] that unfolding find_None_iff by auto
  then have "(d, n) \<notin> dirty s" using bst_parts(1) [OF assms(1)] by (auto simp: dirty_def dirtyf_iff)
  with None show ?thesis using bread_miss assms by blast
next
  case (Some i)
  then show ?thesis using bread_hit [OF assms(1) Some _ assms(3)] assms(2) by (auto simp: key_ok_def)
qed

lemma bwrite_ok:
  assumes st: "bst s H" and iH: "i \<in> set H" and k: "key_ok s (bdev (bufs s ! i)) (blockno (bufs s ! i))"
  shows "\<exists>t. bwrite i s = Ret () t \<and> bst t H \<and> bframe s t \<and> blk t = blk s \<and>
    dirty t = dirty s - {(bdev (bufs s ! i), blockno (bufs s ! i))} \<and>
    written (idev t) = written (idev s) @ [(bit (bdev (bufs s ! i)) 0, blockno (bufs s ! i), bdata (bufs s ! i))] \<and>
    dsk t = (dsk s)(bdev (bufs s ! i) := (dsk s (bdev (bufs s ! i)))(blockno (bufs s ! i) := bdata (bufs s ! i))) \<and>
    (\<forall>j. j \<noteq> i \<longrightarrow> bufs t ! j = bufs s ! j) \<and> bdata (bufs t ! i) = bdata (bufs s ! i) \<and>
    bdev (bufs t ! i) = bdev (bufs s ! i) \<and> blockno (bufs t ! i) = blockno (bufs s ! i)"
proof -
  note p = bst_parts [OF st]
  have i: "i < 30" using iH p(7) by auto
  let ?old = "bufs s ! i"
  let ?b1 = "?old\<lparr>bflags := bflags ?old OR B_DIRTY\<rparr>"
  let ?s1 = "s\<lparr>bufs := (bufs s)[i := ?b1]\<rparr>"
  obtain q where q: "cur s = Some q" using p(9) by blast
  have hs: "holdingsleep (SlkBuf i) s = Ret True s"
    using p(8) q p(12) [OF iH] by (simp add: ret_iff mine_def)
  have v: "bvalid ?old" by (rule p(14) [OF iH])
  have d1: "bdirty ?b1" "bvalid ?b1" using v by (simp_all add: bvalid_bit bit_or_iff)
  have fr1: "bframe s ?s1" by (simp add: bframe_def)
  have b1: "bufs ?s1 ! i = ?b1" using i p(1) by simp
  have "rw_pre ?s1 i"
    using quiet_bframe [OF p(5) fr1] i p(1) p(12) [OF iH] d1 by (simp add: rw_pre_def mine_def)
  moreover have "dev_ok ?s1 (bufs ?s1 ! i)"
    using k b1 by (auto simp: key_ok_def dev_ok_def ide_ok_def memide_ok_def)
  ultimately obtain t where t: "iderw i ?s1 = Ret () t" "rw_spec ?s1 i t" using iderw_ok by blast
  let ?b = "served (idev s) ?b1"
  obtain pt' dv' where spec: "wakes (ptable ?s1) pt' \<and> image dv' = image (idev ?s1) \<and>
    r_status dv' = r_status (idev ?s1) \<and> written dv' = written (idev ?s1) @ (let b = bufs ?s1 ! i in
       if bdirty b then [(bit (bdev b) 0, blockno b, bdata b)] else []) \<and>
    t = ?s1\<lparr>ptable := pt', bufs := (bufs ?s1)[i := served (idev ?s1) (bufs ?s1 ! i)], idev := dv'\<rparr>"
    using t(2) unfolding rw_spec_def by blast
  then have w: "wakes (ptable s) pt'" "image dv' = image (idev s)" "r_status dv' = r_status (idev s)"
    "written dv' = written (idev s) @ [(bit (bdev ?old) 0, blockno ?old, bdata ?old)]"
    and te: "t = ?s1\<lparr>ptable := pt', bufs := (bufs s)[i := ?b], idev := dv'\<rparr>"
    unfolding b1 using d1 by simp_all
  have fr: "bframe s t" unfolding te using w by (simp add: bframe_def)
  have bt: "bufs t = (bufs s)[i := ?b]" by (simp add: te)
  have bd: "bdata ?b = bdata ?old" using d1 by (simp add: served_def)
  have dk: "dsk t = (dsk s)(bdev ?old := (dsk s (bdev ?old))(blockno ?old := bdata ?old))"
    by (rule dsk_snoc) (use w p(10) [OF i] in \<open>simp_all add: te\<close>)
  have nv: "\<not> virgin ?old" using v by (simp add: virgin_def)
  have u: "uniq (bufs t)" unfolding bt using i p(1) nv by (intro uniq_upd_same [OF p(4)]) auto
  have "blkf (bufs t) (dsk t) = blkf (bufs t) (dsk s)"
    unfolding dk using i p(1) by (intro blkf_disk [OF u]) (auto simp: bt cached_def has_key_def)
  also have "\<dots> = blkf (bufs s) (dsk s)"
    unfolding bt using i p(1) v bd by (intro blkf_keep [OF p(4)]) auto
  finally have blk: "blk t = blk s" by (simp add: blk_def)
  have dt: "dirty t = dirty s - {(bdev ?old, blockno ?old)}"
    unfolding dirty_def bt using i p(1) nv by (subst dirtyf_unset [OF p(4)]) auto
  have "bst t H"
  proof (rule bst_upd [OF st fr i bt u, where l = "slocks s (SlkBuf i)"])
    fix j assume j: "j < 30" "j \<noteq> i" "bvalid (bufs s ! j)"
    then have "\<not> (bdev (bufs s ! j) = bdev ?old \<and> blockno (bufs s ! j) = blockno ?old)"
      using uniqD [OF p(4), of i j "bdev ?old" "blockno ?old"] nv i p(1) by (auto simp: has_key_def)
    then show "dsk t (bdev (bufs s ! j)) (blockno (bufs s ! j)) = dsk s (bdev (bufs s ! j)) (blockno (bufs s ! j))"
      unfolding dk by auto
  qed (use iH p(2,3,6) p(10) [OF i] p(12,13) [OF iH] in \<open>simp_all add: te mine_def\<close>)
  moreover have "bwrite i s = Ret () t"
    using t(1) by (simp add: bwrite_def km_simps hs upd_buf_def)
  ultimately show ?thesis using fr blk dt dk w i p(1) bd by (simp add: te)
qed


lemma brelse_ok:
  assumes st: "bst s H" and iH: "i \<in> set H"
    and clean: "(bdev (bufs s ! i), blockno (bufs s ! i)) \<in> dirty s \<or>
      bdata (bufs s ! i) = dsk s (bdev (bufs s ! i)) (blockno (bufs s ! i))"
  shows "\<exists>t. brelse i s = Ret () t \<and> bst t (remove1 i H) \<and> same_view s t \<and> (\<forall>j. j \<noteq> i \<longrightarrow> bufs t ! j = bufs s ! j)"
proof -
  note p = bst_parts [OF st]
  have i: "i < 30" using iH p(7) by auto
  let ?old = "bufs s ! i"
  let ?b = "?old\<lparr>refcnt := refcnt ?old - 1\<rparr>"
  let ?l = "\<lparr>locked = False, slpid = 0\<rparr>"
  let ?t = "s\<lparr>slocks := (slocks s)(SlkBuf i := ?l), ptable := map (wakeup_proc (ChSlk (SlkBuf i))) (ptable s),
     bufs := (bufs s)[i := ?b], lru := i # remove1 i (lru s)\<rparr>"
  obtain q where q: "cur s = Some q" using p(9) by blast
  have hs: "holdingsleep (SlkBuf i) s = Ret True s"
    using p(8) q p(12) [OF iH] by (simp add: ret_iff mine_def)
  have rl: "releasesleep (SlkBuf i) s = Ret () (s\<lparr>slocks := (slocks s)(SlkBuf i := ?l),
      ptable := map (wakeup_proc (ChSlk (SlkBuf i))) (ptable s)\<rparr>)"
    using p(8) by (simp add: ret_iff)
  have rc: "refcnt ?b = 0" using p(13) [OF iH] by simp
  have r: "brelse i s = Ret () ?t"
    using p(8) i p(1) rc by (simp add: brelse_def km_simps hs rl upd_buf_def)
  have fr: "bframe s ?t" by (simp add: bframe_def wakes_wakeup)
  have dk: "dsk ?t = dsk s" by (rule disk_cong) simp_all
  have bt: "bufs ?t = (bufs s)[i := ?b]" by simp
  have v: "bvalid ?old" by (rule p(14) [OF iH])
  have key: "bvalid ?b" "bdirty ?b = bdirty ?old" using v by (simp_all add: bvalid_def bdirty_def)
  have nv: "\<not> virgin ?old" using v by (simp add: virgin_def)
  have u: "uniq (bufs ?t)" unfolding bt using i p(1) nv by (intro uniq_upd_same [OF p(4)]) auto
  have view: "same_view s ?t"
    using blkf_keep [OF p(4), of i ?b "dsk s"] dirtyf_same [of i "bufs s" ?b] i p(1) v key fr dk
    unfolding same_view_def blk_def dirty_def by simp
  have dc: "bdata ?b = dsk s (bdev ?old) (blockno ?old)" if "\<not> bdirty ?b"
  proof -
    have "(bdev ?old, blockno ?old) \<notin> dirty s"
    proof
      assume "(bdev ?old, blockno ?old) \<in> dirty s"
      then obtain j where j: "j < 30" "has_key (bdev ?old) (blockno ?old) (bufs s ! j)" "bdirty (bufs s ! j)"
        using p(1) by (auto simp: dirty_def dirtyf_iff)
      then have "j = i" using uniqD [OF p(4), of i j "bdev ?old" "blockno ?old"] i p(1) nv by (auto simp: has_key_def)
      with j(3) that key show False by simp
    qed
    with clean show ?thesis by simp
  qed
  have lr: "distinct (lru ?t)" "set (lru ?t) = {..<30}"
    using p(2,3) i by (auto simp: set_remove1_eq)
  have "bst ?t (remove1 i H)"
    by (rule bst_upd [OF st fr i bt u _ _ lr, where l = ?l])
      (use p(6) p(10) [OF i] rc key dk dc in \<open>auto simp: set_remove1_eq\<close>)
  then show ?thesis using r view by auto
qed

lemma bset_ok:
  assumes st: "bst s H" and iH: "i \<in> set H"
  shows "\<exists>t. bset i f s = Ret () t \<and> bst t H \<and> bframe s t \<and>
    blk t = (blk s)(bdev (bufs s ! i) := (blk s (bdev (bufs s ! i)))(blockno (bufs s ! i) := f (bdata (bufs s ! i)))) \<and>
    dirty t = dirty s \<and> written (idev t) = written (idev s) \<and>
    (\<forall>j. j \<noteq> i \<longrightarrow> bufs t ! j = bufs s ! j) \<and> bufs t ! i = (bufs s ! i)\<lparr>bdata := f (bdata (bufs s ! i))\<rparr>"
proof -
  note p = bst_parts [OF st]
  have i: "i < 30" using iH p(7) by auto
  let ?old = "bufs s ! i"
  let ?b = "?old\<lparr>bdata := f (bdata ?old)\<rparr>"
  let ?t = "s\<lparr>bufs := (bufs s)[i := ?b]\<rparr>"
  have v: "bvalid ?old" by (rule p(14) [OF iH])
  have key: "bvalid ?b" "bdirty ?b = bdirty ?old" using v by (simp_all add: bvalid_def bdirty_def)
  have nv: "\<not> virgin ?old" using v by (simp add: virgin_def)
  have fr: "bframe s ?t" by (simp add: bframe_def)
  have bt: "bufs ?t = (bufs s)[i := ?b]" by simp
  have dk: "dsk ?t = dsk s" by (rule disk_cong) simp_all
  have u: "uniq (bufs ?t)" unfolding bt using i p(1) nv by (intro uniq_upd_same [OF p(4)]) auto
  have "bst ?t H"
    by (rule bst_upd [OF st fr i bt u, where l = "slocks s (SlkBuf i)"])
      (use iH p(2,3,6) p(10) [OF i] p(12,13) [OF iH] key dk in \<open>simp_all add: mine_def\<close>)
  moreover have "bset i f s = Ret () ?t" by (simp add: bset_def km_simps upd_buf_def)
  ultimately show ?thesis
    using fr blkf_data [OF p(4), of i ?b "dsk s"] dirtyf_same [of i "bufs s" ?b] i p(1) v key dk
    by (simp add: blk_def dirty_def)
qed

text \<open>Marking a locked buffer dirty pins its block in the cache.\<close>

lemma pin_ok:
  assumes st: "bst s H" and iH: "i \<in> set H"
  defines "t \<equiv> upd_buf i (\<lambda>b. b\<lparr>bflags := bflags b OR B_DIRTY\<rparr>) s"
  shows "bst t H \<and> bframe s t \<and> blk t = blk s \<and> dirty t = insert (bdev (bufs s ! i), blockno (bufs s ! i)) (dirty s) \<and>
    written (idev t) = written (idev s) \<and> (\<forall>j. j \<noteq> i \<longrightarrow> bufs t ! j = bufs s ! j) \<and>
    bdata (bufs t ! i) = bdata (bufs s ! i) \<and> bdev (bufs t ! i) = bdev (bufs s ! i) \<and>
    blockno (bufs t ! i) = blockno (bufs s ! i)"
proof -
  note p = bst_parts [OF st]
  have i: "i < 30" using iH p(7) by auto
  let ?old = "bufs s ! i"
  let ?b = "?old\<lparr>bflags := bflags ?old OR B_DIRTY\<rparr>"
  have te: "t = s\<lparr>bufs := (bufs s)[i := ?b]\<rparr>" by (simp add: t_def upd_buf_def)
  have v: "bvalid ?old" by (rule p(14) [OF iH])
  have key: "bvalid ?b" "bdirty ?b" using v by (simp_all add: bvalid_bit bit_or_iff)
  have nv: "\<not> virgin ?old" using v by (simp add: virgin_def)
  have fr: "bframe s t" by (simp add: bframe_def te)
  have bt: "bufs t = (bufs s)[i := ?b]" by (simp add: te)
  have dk: "dsk t = dsk s" by (rule disk_cong) (simp_all add: te)
  have u: "uniq (bufs t)" unfolding bt using i p(1) nv by (intro uniq_upd_same [OF p(4)]) auto
  have "bst t H"
    by (rule bst_upd [OF st fr i bt u, where l = "slocks s (SlkBuf i)"])
      (use iH p(2,3,6) p(10) [OF i] p(12,13) [OF iH] key dk in \<open>simp_all add: mine_def te\<close>)
  moreover have "blk t = blk s"
    unfolding blk_def dk bt using i p(1) v key by (intro blkf_keep [OF p(4)]) auto
  moreover have "dirty t = insert (bdev ?old, blockno ?old) (dirty s)"
    unfolding dirty_def bt using i p(1) key by (subst dirtyf_set) auto
  ultimately show ?thesis using fr i p(1) by (simp add: te)
qed

section \<open>Initialisation\<close>

definition unlock_from :: "nat \<Rightarrow> (slk \<Rightarrow> sleeplock) \<Rightarrow> slk \<Rightarrow> sleeplock" where
  "unlock_from k f l = (if \<exists>b. l = SlkBuf b \<and> k \<le> b \<and> b < 30 then \<lparr>locked = False, slpid = 0\<rparr> else f l)"

lemma unlock_from_30 [simp]: "unlock_from 30 f = f"
  by (rule ext) (auto simp: unlock_from_def)

lemma unlock_from_step:
  "b < 30 \<Longrightarrow> unlock_from (Suc b) (f(SlkBuf b := \<lparr>locked = False, slpid = 0\<rparr>)) = unlock_from b f"
  by (rule ext) (auto simp: unlock_from_def not_less_eq_eq le_Suc_eq)

lemma binit_loop_eval:
  "n \<le> 30 \<Longrightarrow> binit_loop n s =
     Ret () (s\<lparr>slocks := unlock_from (30 - n) (slocks s), lru := rev [30 - n..<30] @ lru s\<rparr>)"
proof (induction n arbitrary: s)
  case 0
  then show ?case by (simp add: km_simps)
next
  case (Suc n)
  define b where "b = 30 - Suc n"
  have b: "30 - n = Suc b" "b < 30" "30 - Suc n = b" using Suc.prems by (auto simp: b_def)
  have "binit_loop (Suc n) s = binit_loop n
      (s\<lparr>slocks := (slocks s)(SlkBuf b := \<lparr>locked = False, slpid = 0\<rparr>), lru := b # lru s\<rparr>)"
    by (simp add: Let_def km_simps initsleeplock_def upd_slk_def b_def)
  also have "\<dots> = Ret () (s\<lparr>slocks := unlock_from b (slocks s), lru := rev [b..<30] @ lru s\<rparr>)"
    using Suc.IH Suc.prems b upt_conv_Cons [of b 30] by (simp add: unlock_from_step)
  finally show ?case by (simp only: b(3))
qed

text \<open>The buffers as the zeroed \<open>bss\<close> section has them.\<close>

definition zero_buf :: buf where
  "zero_buf = \<lparr>bflags = 0, bdev = 0, blockno = 0, refcnt = 0, bdata = replicate BSIZE 0\<rparr>"

lemma virgin_zero: "virgin zero_buf"
  by (simp add: virgin_def zero_buf_def has_key_def bvalid_def bdirty_def)

lemma bst_zero:
  assumes "bufs t = replicate 30 zero_buf" "quiet t" "distinct (lru t)" "set (lru t) = {..<30}"
    "\<And>b. b < 30 \<Longrightarrow> \<not> locked (slocks t (SlkBuf b))"
  shows "bst t []"
proof -
  have "uniq (replicate 30 zero_buf)" using virgin_zero by (simp add: uniq_def)
  moreover have "\<not> bvalid zero_buf" "bdev zero_buf \<le> 1" "refcnt zero_buf = 0"
    by (simp_all add: zero_buf_def bvalid_def)
  ultimately show ?thesis
    using assms virgin_zero by (simp add: bst_def binv_def)
qed

text \<open>
  C16. \<open>binit\<close> on the zeroed buffers of a booting kernel, where no process runs yet, returns with the cache
  well formed: each buffer is in the list once, all are unlocked and unused, no block is pinned and every
  block has the contents of the disk. Whatever the rest of the boot does, if it leaves the cache alone then
  the cache invariant with no buffer held is there as soon as a process runs and the disk is idle.
\<close>

theorem binit_establishes:
  fixes s :: "'z bstate_scheme"
  assumes "bufs s = replicate NBUF zero_buf"
  shows "\<exists>t. binit s = Ret () t \<and> t = s\<lparr>held := held s - {LkBcache}, slocks := slocks t, lru := lru t\<rparr> \<and> binv t \<and> (\<forall>b < NBUF. \<not> locked (slocks t (SlkBuf b))) \<and> dirty t = {} \<and> blk t = dsk t \<and> dsk t = dsk s \<and>
    (\<forall>u :: 'z bstate_scheme. bufs u = bufs t \<and> lru u = lru t \<and> (\<forall>b < NBUF. slocks u (SlkBuf b) = slocks t (SlkBuf b)) \<and> quiet u \<longrightarrow>
       bst u [] \<and> dirty u = {} \<and> blk u = dsk u)"
proof -
  obtain t where t: "binit s = Ret () t" and te: "t = s\<lparr>held := held s - {LkBcache}, slocks := slocks t, lru := rev [0..<30]\<rparr>"
    and sl: "\<And>b. b < 30 \<Longrightarrow> \<not> locked (slocks t (SlkBuf b))"
    by (auto simp: binit_def km_simps binit_loop_eval unlock_from_def)
  have q: "bufs t = replicate 30 zero_buf" "distinct (lru t)" "set (lru t) = {..<30}"
    using assms by (subst te; auto)+
  have n: "\<not> bvalid zero_buf" "\<not> bdirty zero_buf" by (simp_all add: zero_buf_def bvalid_def bdirty_def)
  have clean: "dirty u = {} \<and> blk u = dsk u" if "bufs u = replicate 30 zero_buf" for u :: "'z bstate_scheme"
    using that n by (auto simp: dirty_def dirtyf_def blk_def fun_eq_iff blkf_uncached cached_def)
  have "uniq (replicate 30 zero_buf)" using virgin_zero by (simp add: uniq_def)
  then have "binv t" using q virgin_zero by (simp add: binv_def) (simp add: zero_buf_def)
  moreover have "dsk t = dsk s" by (rule disk_cong) (subst te, simp)+
  moreover have "bst u []" if "bufs u = bufs t" "lru u = lru t" "\<forall>b < NBUF. slocks u (SlkBuf b) = slocks t (SlkBuf b)" "quiet u" for u :: "'z bstate_scheme"
    by (rule bst_zero) (use that q sl in simp_all)
  moreover have l: "lru t = rev [0..<30]" by (subst te) simp
  have "t = s\<lparr>held := held s - {LkBcache}, slocks := slocks t, lru := lru t\<rparr>" unfolding l by (rule te)
  ultimately show ?thesis using t sl q(1) clean by (intro exI [of _ t] conjI) auto
qed


section \<open>Properties\<close>

text \<open>
  C6. \<open>bread\<close> of a block that is not already locked, while a buffer can be recycled, returns a locked
  buffer that holds the current contents of the block; the contents of all blocks, the pinned
  blocks, the locked buffers and the disk are as before.
\<close>

theorem bread_current:
  assumes "bst s H" "key_ok s d n" "\<forall>j \<in> set H. \<not> has_key d n (bufs s ! j)" "card (dirty s) + length H < NBUF"
  shows "\<exists>i t. bread d n s = Ret i t \<and> bst t (i # H) \<and> has_key d n (bufs t ! i) \<and> bdata (bufs t ! i) = blk s d n \<and>
    blk t = blk s \<and> dirty t = dirty s \<and> dsk t = dsk s \<and> (\<forall>j \<in> set H. bufs t ! j = bufs s ! j)"
proof -
  obtain i t where t: "bread d n s = Ret i t" "bread_post s H d n i t" using bread_ok [OF assms(1-3)] assms(4) by blast
  then have "dsk t = dsk s"
    by (intro disk_cong) (auto simp: bread_post_def same_view_def dest: bframe_fields)
  with t show ?thesis by (auto simp: bread_post_def same_view_def)
qed

text \<open>
  C7. What \<open>bwrite\<close> wrote is on the disk and is what a later \<open>bread\<close> returns: reading a block,
  changing it, writing it, releasing it and reading it again gives the changed contents, which
  are then also the contents of the disk block; no other disk block changes.
\<close>

theorem bwrite_bread:
  assumes st: "bst s []" and k: "key_ok s d n" and room: "card (dirty s) < NBUF"
  shows "\<exists>i j t. bindK (bread d n) (\<lambda>i. thenK (bset i f) (thenK (bwrite i) (thenK (brelse i)
      (bindK (bread d n) (\<lambda>j. retK (i, j)))))) s = Ret (i, j) t \<and>
    bdata (bufs t ! j) = f (blk s d n) \<and> dsk t = (dsk s)(d := (dsk s d)(n := f (blk s d n))) \<and> bst t [j]"
proof -
  obtain i s1 where b: "bread d n s = Ret i s1" and s1: "bread_post s [] d n i s1"
    using bread_ok [OF st k] room by auto
  have st1: "bst s1 [i]" and k1: "bdev (bufs s1 ! i) = d" "blockno (bufs s1 ! i) = n" "bdata (bufs s1 ! i) = blk s d n"
    and f1: "bframe s s1" "dirty s1 = dirty s" "written (idev s1) = written (idev s)"
    using s1 by (auto simp: bread_post_def same_view_def has_key_def)
  obtain s2 where s2: "bset i f s1 = Ret () s2" "bst s2 [i]" "bframe s1 s2" "dirty s2 = dirty s1"
    "written (idev s2) = written (idev s1)" "bufs s2 ! i = (bufs s1 ! i)\<lparr>bdata := f (bdata (bufs s1 ! i))\<rparr>"
    using bset_ok [OF st1, of i f] by auto
  have fr2: "bframe s s2" using f1(1) s2(3) by (rule bframe_trans)
  have d2: "dsk s2 = dsk s"
    by (rule disk_cong) (use bframe_fields(17) [OF fr2] f1 s2 in auto)
  have k2: "bdev (bufs s2 ! i) = d" "blockno (bufs s2 ! i) = n" "bdata (bufs s2 ! i) = f (blk s d n)"
    using s2(6) k1 by simp_all
  obtain s3 where s3: "bwrite i s2 = Ret () s3" "bst s3 [i]" "bframe s2 s3" "blk s3 = blk s2"
    "dirty s3 = dirty s2 - {(d, n)}" "dsk s3 = (dsk s2)(d := (dsk s2 d)(n := f (blk s d n)))"
    "bdev (bufs s3 ! i) = d" "blockno (bufs s3 ! i) = n" "bdata (bufs s3 ! i) = f (blk s d n)"
    using bwrite_ok [OF s2(2), of i] k2 k key_ok_bframe [OF fr2] by auto
  have fr3: "bframe s s3" using fr2 s3(3) by (rule bframe_trans)
  obtain s4 where s4: "brelse i s3 = Ret () s4" "bst s4 []" "same_view s3 s4"
    using brelse_ok [OF s3(2), of i] s3(6-9) by auto
  have fr4: "bframe s s4" using fr3 s4(3) by (auto simp: same_view_def intro: bframe_trans)
  have c: "card (dirty s4) < 30"
    using s4(3) s3(5) s2(4) f1(2) room card_mono [of "dirty s" "dirty s - {(d, n)}"]
    by (auto simp: same_view_def dirty_def)
  obtain j t where b5: "bread d n s4 = Ret j t" and t: "bread_post s4 [] d n j t"
    using bread_ok [OF s4(2), of d n] k key_ok_bframe [OF fr4] c by auto
  have d4: "dsk s4 = dsk s3" "dsk t = dsk s4"
    using s4(3) t by (auto simp: same_view_def bread_post_def intro!: disk_cong dest: bframe_fields)
  have "blk s4 d n = f (blk s d n)"
  proof -
    have "blk s4 = blk s3" using s4(3) by (simp add: same_view_def)
    moreover have "cached (bufs s3) d n i" "i < 30"
      using bst_parts(7,14) [OF s3(2)] s3(7,8) by (auto simp: cached_def has_key_def)
    ultimately show ?thesis
      using blkf_cached [OF bst_parts(4) [OF s3(2)], of i d n] bst_parts(1) [OF s3(2)] s3(9) by (simp add: blk_def)
  qed
  then show ?thesis
    using t b b5 s2(1) s3(1) s4(1) d4 s3(6) d2 by (auto simp: km_simps bread_post_def)
qed


definition demo_cache :: bstate where
  "demo_cache = demo_bstate\<lparr>bufs := replicate 30 zero_buf\<rparr>"

lemma demo_cache_ok: "bufs demo_cache = replicate 30 zero_buf" "quiet demo_cache"
  by (simp_all add: demo_cache_def demo_bstate_def quiet_def ready_def demo_dev_def demo_proc_def)

definition demo_boot :: bstate where
  "demo_boot = demo_cache\<lparr>cur := None\<rparr>"

theorem binit_establishes_witness:
  "cur demo_boot = None \<and> (\<exists>t. binit demo_boot = Ret () t \<and> bst (t\<lparr>cur := Some 0\<rparr>) [])"
proof -
  obtain t where t: "binit demo_boot = Ret () t" "t = demo_boot\<lparr>held := held demo_boot - {LkBcache}, slocks := slocks t, lru := lru t\<rparr>"
    "quiet (t\<lparr>cur := Some 0\<rparr>) \<Longrightarrow> bst (t\<lparr>cur := Some 0\<rparr>) []"
    using binit_establishes [of demo_boot] demo_cache_ok(1) by (auto simp: demo_boot_def)
  have "quiet (t\<lparr>cur := Some 0\<rparr>)"
    by (subst t(2)) (simp add: demo_boot_def demo_cache_def demo_bstate_def quiet_def ready_def demo_dev_def demo_proc_def)
  with t show ?thesis by (simp add: demo_boot_def)
qed

definition demo_ready :: bstate where
  "demo_ready = demo_cache\<lparr>slocks := (\<lambda>_. \<lparr>locked = False, slpid = 0\<rparr>), lru := rev [0..<30]\<rparr>"

lemma demo_ready_bst: "bst demo_ready []" "dirty demo_ready = {}" "key_ok demo_ready 1 5"
proof -
  show "bst demo_ready []"
  proof (rule bst_zero)
    show "quiet demo_ready" using demo_cache_ok(2) by (simp add: demo_ready_def quiet_def)
  qed (use demo_cache_ok in \<open>auto simp: demo_ready_def\<close>)
  show "dirty demo_ready = {}"
    using demo_cache_ok(1) by (auto simp: demo_ready_def dirty_def dirtyf_def zero_buf_def bdirty_def)
  show "key_ok demo_ready 1 5"
    by (simp add: key_ok_def demo_ready_def demo_cache_def demo_bstate_def)
qed

theorem bread_current_witness:
  "\<exists>i t. bread 1 5 demo_ready = Ret i t \<and> bdata (bufs t ! i) = blk demo_ready 1 5"
  using bread_current [OF demo_ready_bst(1,3)] demo_ready_bst(2) by auto

theorem bwrite_bread_witness:
  "\<exists>i j t. bindK (bread 1 5) (\<lambda>i. thenK (bset i rev) (thenK (bwrite i) (thenK (brelse i)
      (bindK (bread 1 5) (\<lambda>j. retK (i, j)))))) demo_ready = Ret (i, j) t"
  using bwrite_bread [OF demo_ready_bst(1,3), of rev] demo_ready_bst(2) by auto

section \<open>The doubly linked list\<close>

text \<open>
  The links of \<open>bcache.head\<close> (number \<open>NBUF\<close>) and of the buffers, as \<open>binit\<close> and \<open>brelse\<close> update them,
  against the list \<open>lru\<close> of the model.
\<close>

record links =
  nxt :: "nat \<Rightarrow> nat"
  prv :: "nat \<Rightarrow> nat"

definition links_unlink :: "nat \<Rightarrow> links \<Rightarrow> links" where
  "links_unlink b l = (let l1 = l\<lparr>prv := (prv l)(nxt l b := prv l b)\<rparr> in
     l1\<lparr>nxt := (nxt l1)(prv l1 b := nxt l1 b)\<rparr>)"

definition links_front :: "nat \<Rightarrow> links \<Rightarrow> links" where
  "links_front b l =
    (let l1 = l\<lparr>nxt := (nxt l)(b := nxt l NBUF)\<rparr>;
         l2 = l1\<lparr>prv := (prv l1)(b := NBUF)\<rparr>;
         l3 = l2\<lparr>prv := (prv l2)(nxt l2 NBUF := b)\<rparr> in
     l3\<lparr>nxt := (nxt l3)(NBUF := b)\<rparr>)"

definition links_brelse :: "nat \<Rightarrow> links \<Rightarrow> links" where
  "links_brelse b l = links_front b (links_unlink b l)"

fun links_init_loop :: "nat \<Rightarrow> links \<Rightarrow> links" where
  "links_init_loop 0 l = l"
| "links_init_loop (Suc n) l = links_init_loop n (links_front (NBUF - Suc n) l)"

definition links_binit :: "links \<Rightarrow> links" where
  "links_binit l = links_init_loop NBUF (l\<lparr>prv := (prv l)(NBUF := NBUF), nxt := (nxt l)(NBUF := NBUF)\<rparr>)"

fun chain :: "links \<Rightarrow> nat list \<Rightarrow> bool" where
  "chain l (x # y # ys) \<longleftrightarrow> nxt l x = y \<and> prv l y = x \<and> chain l (y # ys)"
| "chain l ys \<longleftrightarrow> True"

definition dll :: "links \<Rightarrow> nat list \<Rightarrow> bool" where
  "dll l xs \<longleftrightarrow> chain l (NBUF # xs @ [NBUF]) \<and> distinct (NBUF # xs)"

lemma chain_append: "chain l (xs @ y # ys) \<longleftrightarrow> chain l (xs @ [y]) \<and> chain l (y # ys)"
proof (induction xs)
  case (Cons x xs)
  then show ?case by (cases xs) auto
qed simp

lemma chain_cong:
  "(\<And>x. x \<in> set (butlast ys) \<Longrightarrow> nxt l' x = nxt l x) \<Longrightarrow> (\<And>x. x \<in> set (tl ys) \<Longrightarrow> prv l' x = prv l x) \<Longrightarrow>
   chain l ys \<Longrightarrow> chain l' ys"
proof (induction l ys rule: chain.induct)
  case (1 l x y ys)
  then show ?case by (cases ys) auto
qed auto

lemma dll_front:
  assumes "dll l xs" "b \<notin> set xs" "b \<noteq> 30"
  shows "dll (links_front b l) (b # xs)"
proof -
  let ?l = "links_front b l"
  obtain q ys where q: "xs @ [30] = q # ys" by (cases "xs @ [30]") auto
  have c: "chain l (30 # q # ys)" "distinct (30 # xs)" using assms(1) q by (auto simp: dll_def)
  then have n: "nxt l 30 = q" and cq: "chain l (q # ys)" by auto
  have qb: "q \<noteq> b" using q assms by (cases xs) auto
  have l: "nxt ?l = (nxt l)(b := q, 30 := b)" "prv ?l = (prv l)(b := 30, q := b)"
    using n assms(3) by (simp_all add: links_front_def Let_def)
  have sub: "set (butlast (q # ys)) \<subseteq> set xs" using q by (metis butlast_snoc subset_refl)
  have "q \<notin> set ys"
  proof
    assume qy: "q \<in> set ys"
    show False
    proof (cases xs)
      case Nil
      then show False using q qy by simp
    next
      case (Cons x xs')
      then have "q = x" "ys = xs' @ [30]" using q by auto
      then show False using qy c(2) Cons by auto
    qed
  qed
  then have pr: "x \<in> set ys \<Longrightarrow> prv ?l x = prv l x" for x
    using q assms(2,3) l(2) by (cases xs) auto
  have "chain ?l (q # ys)"
    by (rule chain_cong [OF _ _ cq]) (use sub assms(2) c(2) l pr in auto)
  then have "chain ?l (30 # b # q # ys)" using l qb assms(3) by auto
  then show ?thesis using q assms c(2) by (simp add: dll_def)
qed

lemma dll_unlink:
  assumes "dll l xs" "b \<in> set xs"
  shows "dll (links_unlink b l) (remove1 b xs)"
proof -
  obtain as bs where xs: "xs = as @ b # bs" "b \<notin> set as" using split_list_first [OF assms(2)] by blast
  have dist: "distinct (30 # as @ b # bs)" using assms(1) xs by (simp add: dll_def)
  have rem: "remove1 b xs = as @ bs" using xs by (simp add: remove1_append)
  define us p where "us = butlast (30 # as)" and "p = last (30 # as)"
  have up: "30 # as = us @ [p]" by (simp add: us_def p_def)
  obtain q vs where q: "bs @ [30] = q # vs" by (cases "bs @ [30]") auto
  have "chain l ((30 # as) @ b # bs @ [30])" using assms(1) xs by (simp add: dll_def)
  then have "chain l (us @ p # b # q # vs)" unfolding up q by simp
  then have c: "chain l (us @ [p])" "chain l (p # b # q # vs)" using chain_append [of l us p "b # q # vs"] by auto
  then have n: "nxt l p = b" "prv l b = p" "nxt l b = q" "prv l q = b" "chain l (q # vs)" by auto
  let ?l = "links_unlink b l"
  have qb: "q \<noteq> b" using q dist by (cases bs) auto
  have pb: "p \<noteq> b" using last_in_set [of "30 # as"] dist unfolding p_def [symmetric] by auto
  have l: "nxt ?l = (nxt l)(p := q)" "prv ?l = (prv l)(q := p)"
    using n qb by (simp_all add: links_unlink_def Let_def)
  have du: "distinct (us @ [p])" unfolding up [symmetric] using dist by simp
  have usp: "set (us @ [p]) = insert 30 (set as)" unfolding up [symmetric] by simp
  have q_as: "q \<notin> set as" "q \<in> insert 30 (set bs)" using q dist by (cases bs; auto)+
  have tl: "set (tl (us @ [p])) \<subseteq> set as" unfolding up [symmetric] by simp
  have "chain ?l (us @ [p])"
    by (rule chain_cong [OF _ _ c(1)]) (use du tl q_as l in \<open>auto simp: butlast_append\<close>)
  moreover have "chain ?l (q # vs)"
  proof (rule chain_cong [OF _ _ n(5)])
    fix x assume "x \<in> set (butlast (q # vs))"
    then have "x \<in> set bs" unfolding q [symmetric] by simp
    moreover have "p \<in> insert 30 (set as)" using usp by auto
    ultimately have "x \<noteq> p" using dist by auto
    then show "nxt ?l x = nxt l x" using l by simp
  next
    fix x assume x: "x \<in> set (tl (q # vs))"
    have "distinct (q # vs)" unfolding q [symmetric] using dist by auto
    then show "prv ?l x = prv l x" using x l by auto
  qed
  moreover have "nxt ?l p = q" "prv ?l q = p" using l by auto
  ultimately have "chain ?l (us @ p # q # vs)" using chain_append [of ?l us p "q # vs"] by simp
  then have "chain ?l ((30 # as) @ bs @ [30])" unfolding up q by simp
  then show ?thesis using dist rem by (simp add: dll_def)
qed

text \<open>
  C15. The pointer updates of \<open>brelse\<close> keep the doubly linked list well formed in both directions and
  move the buffer to its front: they implement the list operation of the model.
\<close>

theorem links_brelse_front:
  assumes "dll l xs" "b \<in> set xs"
  shows "dll (links_brelse b l) (b # remove1 b xs)"
proof -
  have "distinct xs" "b \<noteq> 30" using assms by (auto simp: dll_def)
  then have "b \<notin> set (remove1 b xs)" by simp
  then show ?thesis unfolding links_brelse_def using dll_front [OF dll_unlink [OF assms]] \<open>b \<noteq> 30\<close> by simp
qed

lemma dll_init_loop: "dll l xs \<Longrightarrow> n \<le> 30 \<Longrightarrow> set xs \<subseteq> {..<30 - n} \<Longrightarrow> dll (links_init_loop n l) (rev [30 - n..<30] @ xs)"
proof (induction n arbitrary: l xs)
  case (Suc n)
  define b where "b = 30 - Suc n"
  have b: "30 - n = Suc b" "b < 30" "30 - Suc n = b" using Suc.prems by (auto simp: b_def)
  have "dll (links_front b l) (b # xs)" by (rule dll_front) (use Suc.prems b in auto)
  moreover have "set (b # xs) \<subseteq> {..<30 - n}" unfolding b(1) using Suc.prems(3) unfolding b(3) by auto
  ultimately have "dll (links_init_loop n (links_front b l)) (rev [30 - n..<30] @ b # xs)"
    using Suc.prems(2) by (intro Suc.IH) auto
  then have "dll (links_init_loop n (links_front b l)) (rev [b..<30] @ xs)"
    unfolding b(1) using upt_conv_Cons [of b 30] b(2) by simp
  then show ?case by (simp only: links_init_loop.simps b(3))
qed simp

lemma links_binit_dll: "dll (links_binit l) (rev [0..<30])"
proof -
  have "dll (l\<lparr>prv := (prv l)(30 := 30), nxt := (nxt l)(30 := 30)\<rparr>) []" by (simp add: dll_def)
  from dll_init_loop [OF this, of 30] show ?thesis by (simp add: links_binit_def)
qed

theorem links_brelse_front_witness: 
  "dll (links_brelse 3 (links_binit \<lparr>nxt = id, prv = id\<rparr>)) (3 # remove1 3 (rev [0..<30]))"
  using links_brelse_front [OF links_binit_dll, of 3] by simp

end
