(* ===== verification/Log.thy ===== *)
theory Log
  imports Bio
begin

text \<open>
  \<open>log.c\<close>: the write-ahead log, and \<open>readsb\<close> of \<open>fs.c\<close>. Lemmas: \<open>log_write\<close> records a block once and
  pins it, \<open>begin_op\<close> reserves log space, \<open>commit\<close> writes the log, then the header, then the home
  blocks, then an empty header; after a crash at any point of \<open>commit\<close>, recovery leaves all home
  blocks as they were before the transaction or all of them as the transaction left them.
\<close>

section \<open>State\<close>

text \<open>\<open>lh_n\<close> and \<open>lh_block\<close>: the in-memory \<open>struct logheader\<close>.\<close>

record lstate = bstate +
  lg_start :: u32
  lg_size :: int
  outstanding :: int
  committing :: bool
  lg_dev :: u32
  lh_n :: int
  lh_block :: "u32 list"

section \<open>Operations\<close>

text \<open>\<open>readsb\<close>: the superblock is block 1.\<close>

definition decode_sb :: "u8 list \<Rightarrow> superblock" where
  "decode_sb d = \<lparr>sb_size = get32 d 0, sb_nblocks = get32 d 4, sb_ninodes = get32 d 8, sb_nlog = get32 d 12,
     sb_logstart = get32 d 16, sb_inodestart = get32 d 20, sb_bmapstart = get32 d 24\<rparr>"

definition readsb :: "u32 \<Rightarrow> ('z bstate_scheme, superblock) km" where
  "readsb dev = bindK (bread dev 1) (\<lambda>bp. bindK (getK (\<lambda>s. bdata (bufs s ! bp))) (\<lambda>d.
     thenK (brelse bp) (retK (decode_sb d))))"

fun install_loop :: "nat \<Rightarrow> nat \<Rightarrow> ('z lstate_scheme, unit) km" where
  "install_loop 0 tail = retK ()"
| "install_loop (Suc k) tail = bindK (getK id) (\<lambda>s.
     bindK (bread (lg_dev s) (lg_start s + of_nat tail + 1)) (\<lambda>lbuf.
     bindK (bread (lg_dev s) (lh_block s ! tail)) (\<lambda>dbuf.
     bindK (getK (\<lambda>s. bdata (bufs s ! lbuf))) (\<lambda>v.
     thenK (bset dbuf (\<lambda>_. v))
    (thenK (bwrite dbuf)
    (thenK (brelse lbuf)
    (thenK (brelse dbuf)
     (install_loop k (Suc tail)))))))))"

definition install_trans :: "('z lstate_scheme, unit) km" where
  "install_trans = bindK (getK lh_n) (\<lambda>n. install_loop (nat n) 0)"

text \<open>
  The header block: the count and the block numbers. An index past the array of the in-memory
  header writes outside it; the model stops there.
\<close>

fun read_blocks :: "u8 list \<Rightarrow> nat \<Rightarrow> nat \<Rightarrow> ('z lstate_scheme, unit) km" where
  "read_blocks d 0 i = retK ()"
| "read_blocks d (Suc k) i =
     thenK (assertK (i < LOGSIZE) ''read_head: block out of bounds'')
    (thenK (modK (\<lambda>s. s\<lparr>lh_block := (lh_block s)[i := get32 d (4 + 4 * i)]\<rparr>))
     (read_blocks d k (Suc i)))"

definition read_head :: "('z lstate_scheme, unit) km" where
  "read_head = bindK (getK id) (\<lambda>s. bindK (bread (lg_dev s) (lg_start s)) (\<lambda>b.
     bindK (getK (\<lambda>s. bdata (bufs s ! b))) (\<lambda>d.
     thenK (modK (\<lambda>s. s\<lparr>lh_n := sint (get32 d 0)\<rparr>))
    (thenK (read_blocks d (nat (sint (get32 d 0))) 0)
     (brelse b)))))"

fun put_blocks :: "u32 list \<Rightarrow> nat \<Rightarrow> nat \<Rightarrow> u8 list \<Rightarrow> u8 list" where
  "put_blocks bl 0 i d = d"
| "put_blocks bl (Suc k) i d = put_blocks bl k (Suc i) (put32 d (4 + 4 * i) (bl ! i))"

definition encode_head :: "int \<Rightarrow> u32 list \<Rightarrow> u8 list \<Rightarrow> u8 list" where
  "encode_head n bl d = put_blocks bl (nat n) 0 (put32 d 0 (word_of_int n))"

definition write_head :: "('z lstate_scheme, unit) km" where
  "write_head = bindK (getK id) (\<lambda>s. bindK (bread (lg_dev s) (lg_start s)) (\<lambda>b.
     thenK (bset b (encode_head (lh_n s) (lh_block s)))
    (thenK (bwrite b) (brelse b))))"

definition recover_from_log :: "('z lstate_scheme, unit) km" where
  "recover_from_log = thenK read_head (thenK install_trans
     (thenK (modK (\<lambda>s. s\<lparr>lh_n := 0\<rparr>)) write_head))"

definition initlog :: "u32 \<Rightarrow> ('z lstate_scheme, unit) km" where
  "initlog dev = thenK (assertK (\<not> 4 + 4 * LOGSIZE \<ge> BSIZE) ''initlog: too big logheader'')
    (thenK (modK (\<lambda>s. s\<lparr>held := held s - {LkLog}\<rparr>))
    (bindK (readsb dev) (\<lambda>sb.
     thenK (modK (\<lambda>s. s\<lparr>lg_start := sb_logstart sb, lg_size := sint (sb_nlog sb), lg_dev := dev\<rparr>))
     recover_from_log)))"

text \<open>\<open>begin_op\<close>: a thread that must wait is suspended and tests again when it runs.\<close>

definition begin_op :: "('z lstate_scheme, unit) km" where
  "begin_op = thenK (lk_acquire LkLog) (bindK (getK id) (\<lambda>s.
     if committing s then sleep ChLog LkLog
     else if lh_n s + (outstanding s + 1) * int MAXOPBLOCKS > int LOGSIZE then sleep ChLog LkLog
     else thenK (modK (\<lambda>s. s\<lparr>outstanding := outstanding s + 1\<rparr>)) (lk_release LkLog)))"

fun write_log_loop :: "nat \<Rightarrow> nat \<Rightarrow> ('z lstate_scheme, unit) km" where
  "write_log_loop 0 tail = retK ()"
| "write_log_loop (Suc k) tail = bindK (getK id) (\<lambda>s.
     bindK (bread (lg_dev s) (lg_start s + of_nat tail + 1)) (\<lambda>to.
     bindK (bread (lg_dev s) (lh_block s ! tail)) (\<lambda>frm.
     bindK (getK (\<lambda>s. bdata (bufs s ! frm))) (\<lambda>v.
     thenK (bset to (\<lambda>_. v))
    (thenK (bwrite to)
    (thenK (brelse frm)
    (thenK (brelse to)
     (write_log_loop k (Suc tail)))))))))"

definition write_log :: "('z lstate_scheme, unit) km" where
  "write_log = bindK (getK lh_n) (\<lambda>n. write_log_loop (nat n) 0)"

definition commit :: "('z lstate_scheme, unit) km" where
  "commit = bindK (getK lh_n) (\<lambda>n. whenK (n > 0)
     (thenK write_log (thenK write_head (thenK install_trans
     (thenK (modK (\<lambda>s. s\<lparr>lh_n := 0\<rparr>)) write_head)))))"

definition end_op :: "('z lstate_scheme, unit) km" where
  "end_op = thenK (lk_acquire LkLog)
    (thenK (modK (\<lambda>s. s\<lparr>outstanding := outstanding s - 1\<rparr>))
    (bindK (getK committing) (\<lambda>c.
     thenK (assertK (\<not> c) ''log.committing'')
    (bindK (getK outstanding) (\<lambda>n. let do_commit = (n = 0) in
     thenK (if do_commit then modK (\<lambda>s. s\<lparr>committing := True\<rparr>) else wakeup ChLog)
    (thenK (lk_release LkLog)
     (whenK do_commit
       (thenK commit
       (thenK (lk_acquire LkLog)
       (thenK (modK (\<lambda>s. s\<lparr>committing := False\<rparr>))
       (thenK (wakeup ChLog)
        (lk_release LkLog))))))))))))"

fun log_index :: "u32 list \<Rightarrow> nat \<Rightarrow> nat \<Rightarrow> u32 \<Rightarrow> nat" where
  "log_index bl 0 i b = i"
| "log_index bl (Suc k) i b = (if bl ! i = b then i else log_index bl k (Suc i) b)"

definition log_write :: "nat \<Rightarrow> ('z lstate_scheme, unit) km" where
  "log_write b = bindK (getK id) (\<lambda>s.
     thenK (assertK (\<not> (lh_n s \<ge> int LOGSIZE \<or> lh_n s \<ge> lg_size s - 1)) ''too big a transaction'')
    (thenK (assertK (\<not> outstanding s < 1) ''log_write outside of trans'')
    (thenK (lk_acquire LkLog)
    (let i = log_index (lh_block s) (nat (lh_n s)) 0 (blockno (bufs s ! b)) in
     thenK (modK (\<lambda>s. s\<lparr>lh_block := (lh_block s)[i := blockno (bufs s ! b)]\<rparr>))
    (thenK (whenK (int i = lh_n s) (modK (\<lambda>s. s\<lparr>lh_n := lh_n s + 1\<rparr>)))
    (thenK (modK (upd_buf b (\<lambda>b. b\<lparr>bflags := bflags b OR B_DIRTY\<rparr>)))
     (lk_release LkLog)))))))"

abbreviation (input) bkey :: "'z bstate_scheme \<Rightarrow> nat \<Rightarrow> u32 \<times> u32" where
  "bkey s i \<equiv> (bdev (bufs s ! i), blockno (bufs s ! i))"

definition put_blk :: "(u32 \<Rightarrow> u32 \<Rightarrow> u8 list) \<Rightarrow> u32 \<Rightarrow> u32 \<Rightarrow> u8 list \<Rightarrow> u32 \<Rightarrow> u32 \<Rightarrow> u8 list" where
  "put_blk f d n v = f(d := (f d)(n := v))"

lemma put_blk_apply [simp]: "put_blk f d n v d' n' = (if d' = d \<and> n' = n then v else f d' n')"
  by (auto simp: put_blk_def)

text \<open>
  \<open>bstep s t f W D\<close>: from \<open>s\<close> to \<open>t\<close> the contents became \<open>f\<close>, the writes \<open>W\<close> reached the disk and the
  pinned blocks became \<open>D\<close>, with nothing else changed.
\<close>

definition bstep :: "'z bstate_scheme \<Rightarrow> 'z bstate_scheme \<Rightarrow> (u32 \<Rightarrow> u32 \<Rightarrow> u8 list) \<Rightarrow>
    (bool \<times> u32 \<times> u8 list) list \<Rightarrow> (u32 \<times> u32) set \<Rightarrow> bool" where
  "bstep s t f W D \<longleftrightarrow> bframe s t \<and> blk t = f \<and> written (idev t) = written (idev s) @ W \<and> dirty t = D"

lemma bstep_trans: "bstep s t f W D \<Longrightarrow> bstep t u g V E \<Longrightarrow> bstep s u g (W @ V) E"
  by (auto simp: bstep_def intro: bframe_trans)

lemma dsk_bstep: "bstep s t f [] D \<Longrightarrow> dsk t = dsk s"
  by (rule disk_cong) (auto simp: bstep_def dest: bframe_fields)

lemma blk_buf: "bst s H \<Longrightarrow> i \<in> set H \<Longrightarrow> blk s (bdev (bufs s ! i)) (blockno (bufs s ! i)) = bdata (bufs s ! i)"
  using blkf_cached [OF bst_parts(4), of s H i "bdev (bufs s ! i)" "blockno (bufs s ! i)"]
    bst_parts(1,7,14) [of s H] by (auto simp: blk_def cached_def has_key_def)

text \<open>The part \<open>install_trans\<close> and \<open>write_log\<close> share: copy one locked buffer to another and write it.\<close>

lemma copy_tail:
  assumes st: "bst s H" and ij: "src \<in> set H" "dst \<in> set H" "src \<noteq> dst" "set H = {src, dst}"
    and k: "key_ok s (bdev (bufs s ! dst)) (blockno (bufs s ! dst))"
    and c: "bkey s src \<in> dirty s \<or> bdata (bufs s ! src) = dsk s (bdev (bufs s ! src)) (blockno (bufs s ! src))"
  shows "\<exists>t. bindK (getK (\<lambda>s. bdata (bufs s ! src))) (\<lambda>v. thenK (bset dst (\<lambda>_. v))
      (thenK (bwrite dst) (thenK (brelse src) (thenK (brelse dst) m)))) s = m t \<and> bst t [] \<and>
    bstep s t (put_blk (blk s) (bdev (bufs s ! dst)) (blockno (bufs s ! dst)) (bdata (bufs s ! src)))
      [(bit (bdev (bufs s ! dst)) 0, blockno (bufs s ! dst), bdata (bufs s ! src))] (dirty s - {bkey s dst})"
proof -
  let ?v = "bdata (bufs s ! src)" and ?d = "bdev (bufs s ! dst)" and ?n = "blockno (bufs s ! dst)"
  note p = bst_parts [OF st]
  have ne: "bkey s src \<noteq> bkey s dst"
    using uniqD [OF p(4), of src dst ?d ?n] p(1,7) p(14) [OF ij(1)] ij by (auto simp: has_key_def virgin_def)
  obtain s1 where s1: "bset dst (\<lambda>_. ?v) s = Ret () s1" "bst s1 H" "bframe s s1"
    "blk s1 = put_blk (blk s) ?d ?n ?v" "dirty s1 = dirty s" "written (idev s1) = written (idev s)"
    "\<And>j. j \<noteq> dst \<Longrightarrow> bufs s1 ! j = bufs s ! j" "bufs s1 ! dst = (bufs s ! dst)\<lparr>bdata := ?v\<rparr>"
    using bset_ok [OF st ij(2), of "\<lambda>_. ?v"] by (auto simp: put_blk_def)
  have d1: "dsk s1 = dsk s" using bframe_fields(17) [OF s1(3)] s1(6) by (intro disk_cong)
  have k1: "bdev (bufs s1 ! dst) = ?d" "blockno (bufs s1 ! dst) = ?n" "bdata (bufs s1 ! dst) = ?v"
    "key_ok s1 ?d ?n" using s1(8) k key_ok_bframe [OF s1(3)] by simp_all
  obtain s2 where s2: "bwrite dst s1 = Ret () s2" "bst s2 H" "bframe s1 s2" "blk s2 = blk s1"
    "dirty s2 = dirty s1 - {(?d, ?n)}" "written (idev s2) = written (idev s1) @ [(bit ?d 0, ?n, ?v)]"
    "dsk s2 = (dsk s1)(?d := (dsk s1 ?d)(?n := ?v))"
    "\<And>j. j \<noteq> dst \<Longrightarrow> bufs s2 ! j = bufs s1 ! j" "bdata (bufs s2 ! dst) = ?v"
    "bdev (bufs s2 ! dst) = ?d" "blockno (bufs s2 ! dst) = ?n"
    using bwrite_ok [OF s1(2) ij(2)] k1 by auto
  have b2: "bufs s2 ! src = bufs s ! src" using s2(8) s1(7) ij(3) by simp
  have "bkey s2 src \<in> dirty s2 \<or> bdata (bufs s2 ! src) = dsk s2 (bdev (bufs s2 ! src)) (blockno (bufs s2 ! src))"
    using c ne unfolding b2 s2(5,7) s1(5) d1 by auto
  then obtain s3 where s3: "brelse src s2 = Ret () s3" "bst s3 (remove1 src H)" "same_view s2 s3"
    "\<And>j. j \<noteq> src \<Longrightarrow> bufs s3 ! j = bufs s2 ! j"
    using brelse_ok [OF s2(2) ij(1)] by blast
  have d3: "dsk s3 = dsk s2"
    using s3(3) by (intro disk_cong) (auto simp: same_view_def dest: bframe_fields)
  have dst3: "dst \<in> set (remove1 src H)" using ij p(6) by (simp add: set_remove1_eq)
  have "bdata (bufs s3 ! dst) = dsk s3 (bdev (bufs s3 ! dst)) (blockno (bufs s3 ! dst))"
    using s3(4) ij(3) s2(7,9-11) d3 by auto
  then obtain t where t: "brelse dst s3 = Ret () t" "bst t (remove1 dst (remove1 src H))" "same_view s3 t"
    using brelse_ok [OF s3(2) dst3] by blast
  have "set (remove1 dst (remove1 src H)) = {}" using ij(4) p(6) by (auto simp: set_remove1_eq)
  then have "bst t []" using t(2) by simp
  moreover have "bstep s t (put_blk (blk s) ?d ?n ?v) [(bit ?d 0, ?n, ?v)] (dirty s - {(?d, ?n)})"
    using s1(3-6) s2(3-6) s3(3) t(3)
    by (auto simp: bstep_def same_view_def intro: bframe_trans)
  ultimately show ?thesis using s1(1) s2(1) s3(1) t(1) by (auto simp: km_simps)
qed

lemma blk_clean:
  assumes st: "bst s H" and nh: "\<forall>j \<in> set H. \<not> has_key d n (bufs s ! j)" and c: "(d, n) \<notin> dirty s"
  shows "blk s d n = dsk s d n"
  unfolding blk_def
proof (rule blkfI [OF bst_parts(4) [OF st]])
  fix i assume i: "i < length (bufs s)" "cached (bufs s) d n i"
  then have "\<not> bdirty (bufs s ! i)" using c by (auto simp: dirty_def dirtyf_iff cached_def)
  moreover have "i \<notin> set H" using nh i by (auto simp: cached_def)
  ultimately show "bdata (bufs s ! i) = dsk s d n"
    using bst_parts(17) [OF st, of i] i bst_parts(1) [OF st] by (auto simp: cached_def has_key_def)
qed simp

lemma read2:
  assumes st: "bst s []" and k: "key_ok s d a" "key_ok s d b" and ab: "a \<noteq> b"
    and room: "card (dirty s) < 30" "card (dirty s) + 1 < 30 \<or> (d, b) \<in> dirty s"
  shows "\<exists>i j s1 t. bread d a s = Ret i s1 \<and> bread d b s1 = Ret j t \<and> bst t [j, i] \<and>
    bdev (bufs t ! i) = d \<and> blockno (bufs t ! i) = a \<and> bdata (bufs t ! i) = blk s d a \<and>
    bdev (bufs t ! j) = d \<and> blockno (bufs t ! j) = b \<and> bdata (bufs t ! j) = blk s d b \<and>
    bstep s t (blk s) [] (dirty s)"
proof -
  obtain i s1 where r1: "bread d a s = Ret i s1" and p1: "bread_post s [] d a i s1"
    using bread_ok [OF st k(1)] room by auto
  have s1: "bst s1 [i]" "has_key d a (bufs s1 ! i)" "bdata (bufs s1 ! i) = blk s d a" "same_view s s1"
    using p1 by (auto simp: bread_post_def)
  have "key_ok s1 d b" using k(2) s1(4) key_ok_bframe [of s s1 d b] by (simp add: same_view_def)
  moreover have "card (dirty s1) + length [i] < 30 \<or> (d, b) \<in> dirty s1"
    using room(2) s1(4) by (auto simp: same_view_def)
  moreover have "\<forall>j \<in> set [i]. \<not> has_key d b (bufs s1 ! j)" using s1(2) ab by (auto simp: has_key_def)
  ultimately obtain j t where r2: "bread d b s1 = Ret j t" and p2: "bread_post s1 [i] d b j t"
    using bread_ok [OF s1(1)] by blast
  have "bstep s t (blk s) [] (dirty s)"
    using s1(4) p2 by (auto simp: bread_post_def same_view_def bstep_def intro: bframe_trans)
  then show ?thesis
    using r1 r2 s1 p2 by (intro exI [of _ i] exI [of _ j] exI [of _ s1] exI [of _ t]) (auto simp: bread_post_def same_view_def has_key_def)
qed

lemma copy_second:
  assumes st: "bst s []" and k: "key_ok s d a" "key_ok s d b" and ab: "a \<noteq> b"
    and room: "card (dirty s) < 30" "card (dirty s) + 1 < 30 \<or> (d, b) \<in> dirty s"
  shows "\<exists>t. bindK (bread d a) (\<lambda>i. bindK (bread d b) (\<lambda>j. bindK (getK (\<lambda>s. bdata (bufs s ! i))) (\<lambda>v.
      thenK (bset j (\<lambda>_. v)) (thenK (bwrite j) (thenK (brelse i) (thenK (brelse j) m)))))) s = m t \<and> bst t [] \<and>
    bstep s t (put_blk (blk s) d b (blk s d a)) [(bit d 0, b, blk s d a)] (dirty s - {(d, b)})"
proof -
  obtain i j s1 u where e: "bread d a s = Ret i s1" "bread d b s1 = Ret j u"
    and u: "bst u [j, i]" and bi: "bdev (bufs u ! i) = d" "blockno (bufs u ! i) = a" "bdata (bufs u ! i) = blk s d a"
    and bj: "bdev (bufs u ! j) = d" "blockno (bufs u ! j) = b" "bdata (bufs u ! j) = blk s d b"
    and su: "bstep s u (blk s) [] (dirty s)"
    using read2 [OF assms] by blast
  have "i \<noteq> j" using bi bj ab by auto
  moreover have "key_ok u (bdev (bufs u ! j)) (blockno (bufs u ! j))"
    using k(2) bj su key_ok_bframe [of s u] by (simp add: bstep_def)
  moreover have "bkey u i \<in> dirty u \<or> bdata (bufs u ! i) = dsk u (bdev (bufs u ! i)) (blockno (bufs u ! i))"
    using blk_clean [OF st, of d a] bi su dsk_bstep [OF su] by (auto simp: bstep_def)
  ultimately obtain t where t: "bindK (getK (\<lambda>s. bdata (bufs s ! i))) (\<lambda>v. thenK (bset j (\<lambda>_. v))
      (thenK (bwrite j) (thenK (brelse i) (thenK (brelse j) m)))) u = m t" "bst t []"
    "bstep u t (put_blk (blk u) d b (blk s d a)) [(bit d 0, b, blk s d a)] (dirty u - {(d, b)})"
    using copy_tail [OF u, of i j m] bi bj by auto
  have "bstep s t (put_blk (blk s) d b (blk s d a)) [(bit d 0, b, blk s d a)] (dirty s - {(d, b)})"
    using bstep_trans [OF su t(3)] su by (simp add: bstep_def)
  with t e show ?thesis by (auto simp: km_simps)
qed

lemma copy_first:
  assumes st: "bst s []" and k: "key_ok s d a" "key_ok s d b" and ab: "a \<noteq> b"
    and room: "card (dirty s) < 30" "card (dirty s) + 1 < 30 \<or> (d, b) \<in> dirty s"
  shows "\<exists>t. bindK (bread d a) (\<lambda>i. bindK (bread d b) (\<lambda>j. bindK (getK (\<lambda>s. bdata (bufs s ! j))) (\<lambda>v.
      thenK (bset i (\<lambda>_. v)) (thenK (bwrite i) (thenK (brelse j) (thenK (brelse i) m)))))) s = m t \<and> bst t [] \<and>
    bstep s t (put_blk (blk s) d a (blk s d b)) [(bit d 0, a, blk s d b)] (dirty s - {(d, a)})"
proof -
  obtain i j s1 u where e: "bread d a s = Ret i s1" "bread d b s1 = Ret j u"
    and u: "bst u [j, i]" and bi: "bdev (bufs u ! i) = d" "blockno (bufs u ! i) = a" "bdata (bufs u ! i) = blk s d a"
    and bj: "bdev (bufs u ! j) = d" "blockno (bufs u ! j) = b" "bdata (bufs u ! j) = blk s d b"
    and su: "bstep s u (blk s) [] (dirty s)"
    using read2 [OF assms] by blast
  have "j \<noteq> i" using bi bj ab by auto
  moreover have "key_ok u (bdev (bufs u ! i)) (blockno (bufs u ! i))"
    using k(1) bi su key_ok_bframe [of s u] by (simp add: bstep_def)
  moreover have "bkey u j \<in> dirty u \<or> bdata (bufs u ! j) = dsk u (bdev (bufs u ! j)) (blockno (bufs u ! j))"
    using blk_clean [OF st, of d b] bj su dsk_bstep [OF su] by (auto simp: bstep_def)
  ultimately obtain t where t: "bindK (getK (\<lambda>s. bdata (bufs s ! j))) (\<lambda>v. thenK (bset i (\<lambda>_. v))
      (thenK (bwrite i) (thenK (brelse j) (thenK (brelse i) m)))) u = m t" "bst t []"
    "bstep u t (put_blk (blk u) d a (blk s d b)) [(bit d 0, a, blk s d b)] (dirty u - {(d, a)})"
    using copy_tail [OF u, of j i m] bi bj by auto
  have "bstep s t (put_blk (blk s) d a (blk s d b)) [(bit d 0, a, blk s d b)] (dirty s - {(d, a)})"
    using bstep_trans [OF su t(3)] su by (simp add: bstep_def)
  with t e show ?thesis by (auto simp: km_simps)
qed

section \<open>The log area\<close>

definition in_log :: "'z lstate_scheme \<Rightarrow> u32 \<Rightarrow> bool" where
  "in_log s x \<longleftrightarrow> unat (lg_start s) \<le> unat x \<and> unat x < unat (lg_start s) + LOGSIZE"

abbreviation (input) log_blk :: "'z lstate_scheme \<Rightarrow> nat \<Rightarrow> u32" where
  "log_blk s i \<equiv> lg_start s + of_nat i + 1"

abbreviation (input) logged :: "'z lstate_scheme \<Rightarrow> u32 list" where
  "logged s \<equiv> take (nat (lh_n s)) (lh_block s)"

text \<open>
  The log's geometry, and the in-memory header: the logged blocks are distinct blocks outside the
  log area, fewer than the area has data blocks.
\<close>

definition lgeo :: "'z lstate_scheme \<Rightarrow> bool" where
  "lgeo s \<longleftrightarrow> lg_dev s = 1 \<and> unat (lg_start s) + LOGSIZE < 4294967296 \<and> (\<forall>x. in_log s x \<longrightarrow> key_ok s 1 x) \<and>
     length (lh_block s) = LOGSIZE"

definition lhdr :: "'z lstate_scheme \<Rightarrow> bool" where
  "lhdr s \<longleftrightarrow> 0 \<le> lh_n s \<and> lh_n s < int LOGSIZE \<and> distinct (logged s) \<and>
     (\<forall>b \<in> set (logged s). \<not> in_log s b \<and> key_ok s 1 b)"

lemma bframe_log:
  assumes "bframe (s :: 'z lstate_scheme) t"
  shows "lg_start t = lg_start s" "lg_size t = lg_size s" "outstanding t = outstanding s" "committing t = committing s"
    "lg_dev t = lg_dev s" "lh_n t = lh_n s" "lh_block t = lh_block s" "lstate.more t = lstate.more s"
proof -
  have e: "t = s\<lparr>ptable := ptable t, slocks := slocks t, bufs := bufs t, lru := lru t, idev := idev t\<rparr>"
    using assms by (simp add: bframe_def)
  show "lg_start t = lg_start s" "lg_size t = lg_size s" "outstanding t = outstanding s" "committing t = committing s"
    "lg_dev t = lg_dev s" "lh_n t = lh_n s" "lh_block t = lh_block s" "lstate.more t = lstate.more s"
    by (subst e, simp)+
qed

lemma log_bframe:
  assumes "bframe (s :: 'z lstate_scheme) t"
  shows "lgeo t = lgeo s" "lhdr t = lhdr s" "in_log t = in_log s"
proof -
  show l: "in_log t = in_log s" by (rule ext) (simp add: in_log_def bframe_log [OF assms])
  show "lgeo t = lgeo s" "lhdr t = lhdr s"
    by (simp_all add: lgeo_def lhdr_def bframe_log [OF assms] key_ok_bframe [OF assms] l)
qed

lemma unat_log_blk:
  assumes "lgeo s" "i < 30"
  shows "unat (log_blk s i) = unat (lg_start s) + i + 1"
proof -
  have i: "unat (of_nat i :: u32) = i" using assms(2) by (simp add: unat_of_nat)
  have "unat (lg_start s + of_nat i) = unat (lg_start s) + i"
    using assms i by (subst unat_add_u32) (auto simp: lgeo_def)
  then show ?thesis using assms by (subst unat_add_u32) (auto simp: lgeo_def)
qed

lemma log_blk_props:
  assumes "lgeo s" "i < 29"
  shows "in_log s (log_blk s i)" "key_ok s 1 (log_blk s i)" "log_blk s i \<noteq> lg_start s"
    "j < 29 \<Longrightarrow> log_blk s i = log_blk s j \<longleftrightarrow> i = j"
proof -
  have u: "unat (log_blk s i) = unat (lg_start s) + i + 1" using unat_log_blk [OF assms(1)] assms(2) by simp
  then show l: "in_log s (log_blk s i)" using assms(2) by (simp add: in_log_def)
  then show "key_ok s 1 (log_blk s i)" using assms(1) by (auto simp: lgeo_def)
  show "log_blk s i \<noteq> lg_start s"
  proof
    assume "log_blk s i = lg_start s"
    then have "unat (lg_start s) = unat (lg_start s) + i + 1" using u by (simp only:)
    then show False by linarith
  qed
  show "log_blk s i = log_blk s j \<longleftrightarrow> i = j" if "j < 29"
  proof
    assume "log_blk s i = log_blk s j"
    moreover have "unat (log_blk s j) = unat (lg_start s) + j + 1" using unat_log_blk [OF assms(1)] that by simp
    ultimately have "unat (lg_start s) + i + 1 = unat (lg_start s) + j + 1" using u by (simp only:)
    then show "i = j" by linarith
  qed simp
qed

definition apply_w :: "(u32 \<Rightarrow> u32 \<Rightarrow> u8 list) \<Rightarrow> (bool \<times> u32 \<times> u8 list) list \<Rightarrow> u32 \<Rightarrow> u32 \<Rightarrow> u8 list" where
  "apply_w f W = foldl (\<lambda>f w. put_blk f (if fst w then 1 else 0) (fst (snd w)) (snd (snd w))) f W"

lemma apply_w_Nil [simp]: "apply_w f [] = f"
  by (simp add: apply_w_def)

lemma apply_w_Cons [simp]: "apply_w f (w # W) = apply_w (put_blk f (if fst w then 1 else 0) (fst (snd w)) (snd (snd w))) W"
  by (simp add: apply_w_def)

lemma apply_w_append: "apply_w f (V @ W) = apply_w (apply_w f V) W"
  by (simp add: apply_w_def)

lemma apply_w_other: "\<forall>w \<in> set W. (if fst w then 1 else 0, fst (snd w)) \<noteq> (d, n) \<Longrightarrow> apply_w f W d n = f d n"
  by (induction W arbitrary: f) auto

lemma apply_w_map:
  assumes "distinct (map g xs)" "x \<in> set xs"
  shows "apply_w f (map (\<lambda>x. (True, g x, h x)) xs) 1 (g x) = h x"
  using assms
proof (induction xs arbitrary: f)
  case (Cons y xs)
  show ?case
  proof (cases "x = y")
    case True
    then have "apply_w (put_blk f 1 (g y) (h y)) (map (\<lambda>x. (True, g x, h x)) xs) 1 (g x) = put_blk f 1 (g y) (h y) 1 (g x)"
      using Cons.prems(1) by (intro apply_w_other) (auto simp: image_iff)
    then show ?thesis using True by simp
  next
    case False
    then show ?thesis using Cons by auto
  qed
qed simp


lemma logged_nth:
  assumes "lhdr s" "lgeo s" "i < nat (lh_n s)"
  shows "lh_block s ! i \<in> set (logged s)" "i < 29" "key_ok s 1 (lh_block s ! i)" "\<not> in_log s (lh_block s ! i)"
proof -
  have "i < length (logged s)" using assms by (auto simp: lhdr_def lgeo_def)
  then have "logged s ! i \<in> set (logged s)" by (rule nth_mem)
  then show m: "lh_block s ! i \<in> set (logged s)" using assms(3) by simp
  show "i < 29" using assms by (auto simp: lhdr_def)
  show "key_ok s 1 (lh_block s ! i)" "\<not> in_log s (lh_block s ! i)" using m assms(1) by (auto simp: lhdr_def)
qed

lemma card_dirty_logged:
  assumes "lhdr s" "lgeo s" "dirty s \<subseteq> Pair 1 ` set (logged s)"
  shows "card (dirty s) < 30"
proof -
  have "card (dirty s) \<le> card (Pair (1 :: u32) ` set (logged s))" using assms(3) by (intro card_mono) auto
  also have "\<dots> \<le> length (logged s)" by (metis card_image_le card_length le_trans finite_set)
  also have "\<dots> < 30" using assms by (auto simp: lhdr_def lgeo_def)
  finally show ?thesis .
qed

lemma write_log_loop_ok:
  assumes "bst s []" "lgeo s" "lhdr s" "dirty s = Pair 1 ` set (logged s)" "tail + k = nat (lh_n s)"
  defines "W \<equiv> map (\<lambda>i. (True, log_blk s i, blk s 1 (lh_block s ! i))) [tail..<tail + k]"
  shows "\<exists>t. write_log_loop k tail s = Ret () t \<and> bst t [] \<and> bstep s t (apply_w (blk s) W) W (dirty s)"
  using assms(1-5) unfolding W_def
proof (induction k arbitrary: tail s)
  case 0
  then show ?case by (simp add: km_simps bstep_def)
next
  case (Suc k)
  let ?a = "log_blk s tail" and ?b = "lh_block s ! tail"
  have tn: "tail < nat (lh_n s)" using Suc.prems(5) by simp
  note b = logged_nth [OF Suc.prems(3,2) tn]
  note a = log_blk_props [OF Suc.prems(2) b(2)]
  have dev: "lg_dev s = 1" using Suc.prems(2) by (simp add: lgeo_def)
  have ab: "?a \<noteq> ?b" using a(1) b(4) by metis
  have db: "(1, ?b) \<in> dirty s" using Suc.prems(4) b(1) by auto
  have da: "dirty s - {(1, ?a)} = dirty s" using Suc.prems(3,4) a(1) by (auto simp: lhdr_def)
  have room: "card (dirty s) < 30" using card_dirty_logged [OF Suc.prems(3,2)] Suc.prems(4) by simp
  obtain s' where s': "write_log_loop (Suc k) tail s = write_log_loop k (Suc tail) s'" "bst s' []"
    and st: "bstep s s' (put_blk (blk s) 1 ?a (blk s 1 ?b)) [(True, ?a, blk s 1 ?b)] (dirty s)"
    using copy_first [OF Suc.prems(1) a(2) b(3) ab room, of "write_log_loop k (Suc tail)"] db da
    by (auto simp: km_simps dev)
  have fr: "bframe s s'" using st by (simp add: bstep_def)
  note f = bframe_log [OF fr] log_bframe [OF fr]
  have bs': "blk s' = put_blk (blk s) 1 ?a (blk s 1 ?b)" using st by (simp add: bstep_def)
  have same: "map (\<lambda>i. (True, log_blk s' i, blk s' 1 (lh_block s' ! i))) [Suc tail..<Suc tail + k] =
      map (\<lambda>i. (True, log_blk s i, blk s 1 (lh_block s ! i))) [Suc tail..<Suc tail + k]"
  proof (rule map_cong [OF refl])
    fix i assume "i \<in> set [Suc tail..<Suc tail + k]"
    then have "i < nat (lh_n s)" using Suc.prems(5) by auto
    from logged_nth(4) [OF Suc.prems(3,2) this] a(1) have "lh_block s ! i \<noteq> ?a" by metis
    then show "(True, log_blk s' i, blk s' 1 (lh_block s' ! i)) = (True, log_blk s i, blk s 1 (lh_block s ! i))"
      by (simp add: f bs')
  qed
  have "\<exists>t. write_log_loop k (Suc tail) s' = Ret () t \<and> bst t [] \<and>
      bstep s' t (apply_w (blk s') (map (\<lambda>i. (True, log_blk s' i, blk s' 1 (lh_block s' ! i))) [Suc tail..<Suc tail + k]))
        (map (\<lambda>i. (True, log_blk s' i, blk s' 1 (lh_block s' ! i))) [Suc tail..<Suc tail + k]) (dirty s')"
    by (rule Suc.IH [OF s'(2)]) (use Suc.prems f st in \<open>auto simp: bstep_def\<close>)
  then obtain t where t: "write_log_loop k (Suc tail) s' = Ret () t" "bst t []"
    and tt: "bstep s' t (apply_w (blk s') (map (\<lambda>i. (True, log_blk s i, blk s 1 (lh_block s ! i))) [Suc tail..<Suc tail + k]))
        (map (\<lambda>i. (True, log_blk s i, blk s 1 (lh_block s ! i))) [Suc tail..<Suc tail + k]) (dirty s)"
    unfolding same using st by (auto simp: bstep_def)
  have up: "[tail..<tail + Suc k] = tail # [Suc tail..<Suc tail + k]" by (simp add: upt_rec)
  show ?case
    using s'(1) t bstep_trans [OF st tt] unfolding up bs' by auto
qed

lemma install_loop_ok:
  assumes "bst s []" "lgeo s" "lhdr s" "dirty s = {} \<or> dirty s = Pair 1 ` set (drop tail (logged s))" "tail + k = nat (lh_n s)"
  defines "W \<equiv> map (\<lambda>i. (True, lh_block s ! i, blk s 1 (log_blk s i))) [tail..<tail + k]"
  shows "\<exists>t. install_loop k tail s = Ret () t \<and> bst t [] \<and> bstep s t (apply_w (blk s) W) W {}"
  using assms(1-5) unfolding W_def
proof (induction k arbitrary: tail s)
  case 0
  then have "dirty s = {}" using drop_all [of "logged s" tail] by auto
  then show ?case using 0 by (simp add: km_simps bstep_def)
next
  case (Suc k)
  let ?a = "log_blk s tail" and ?b = "lh_block s ! tail"
  have tn: "tail < nat (lh_n s)" using Suc.prems(5) by simp
  note b = logged_nth [OF Suc.prems(3,2) tn]
  note a = log_blk_props [OF Suc.prems(2) b(2)]
  have dev: "lg_dev s = 1" using Suc.prems(2) by (simp add: lgeo_def)
  have ab: "?a \<noteq> ?b" using a(1) b(4) by metis
  have "tail < length (logged s)" using Suc.prems(2,3) tn by (auto simp: lhdr_def lgeo_def)
  then have dr: "drop tail (logged s) = ?b # drop (Suc tail) (logged s)"
    using tn by (metis Cons_nth_drop_Suc nth_take)
  have sub: "dirty s \<subseteq> Pair 1 ` set (logged s)" using Suc.prems(4) by (metis empty_subsetI image_mono set_drop_subset)
  have room: "card (dirty s) < 30" by (rule card_dirty_logged [OF Suc.prems(3,2) sub])
  have db: "card (dirty s) + 1 < 30 \<or> (1, ?b) \<in> dirty s" using Suc.prems(4) dr by auto
  have "distinct (drop tail (logged s))" using Suc.prems(3) by (intro distinct_drop) (simp add: lhdr_def)
  then have da: "dirty s - {(1, ?b)} = {} \<or> dirty s - {(1, ?b)} = Pair 1 ` set (drop (Suc tail) (logged s))"
    using Suc.prems(4) unfolding dr by auto
  obtain s' where s': "install_loop (Suc k) tail s = install_loop k (Suc tail) s'" "bst s' []"
    and st: "bstep s s' (put_blk (blk s) 1 ?b (blk s 1 ?a)) [(True, ?b, blk s 1 ?a)] (dirty s - {(1, ?b)})"
    using copy_second [OF Suc.prems(1) a(2) b(3) ab room db, of "install_loop k (Suc tail)"]
    by (auto simp: km_simps dev)
  have fr: "bframe s s'" using st by (simp add: bstep_def)
  note f = bframe_log [OF fr] log_bframe [OF fr]
  have bs': "blk s' = put_blk (blk s) 1 ?b (blk s 1 ?a)" using st by (simp add: bstep_def)
  have same: "map (\<lambda>i. (True, lh_block s' ! i, blk s' 1 (log_blk s' i))) [Suc tail..<Suc tail + k] =
      map (\<lambda>i. (True, lh_block s ! i, blk s 1 (log_blk s i))) [Suc tail..<Suc tail + k]"
  proof (rule map_cong [OF refl])
    fix i assume "i \<in> set [Suc tail..<Suc tail + k]"
    then have "i < nat (lh_n s)" using Suc.prems(5) by auto
    from log_blk_props(1) [OF Suc.prems(2) logged_nth(2) [OF Suc.prems(3,2) this]] b(4)
    have "log_blk s i \<noteq> ?b" by metis
    then show "(True, lh_block s' ! i, blk s' 1 (log_blk s' i)) = (True, lh_block s ! i, blk s 1 (log_blk s i))"
      by (simp add: f bs')
  qed
  have "\<exists>t. install_loop k (Suc tail) s' = Ret () t \<and> bst t [] \<and>
      bstep s' t (apply_w (blk s') (map (\<lambda>i. (True, lh_block s' ! i, blk s' 1 (log_blk s' i))) [Suc tail..<Suc tail + k]))
        (map (\<lambda>i. (True, lh_block s' ! i, blk s' 1 (log_blk s' i))) [Suc tail..<Suc tail + k]) {}"
    by (rule Suc.IH [OF s'(2)]) (use Suc.prems f st da in \<open>auto simp: bstep_def\<close>)
  then obtain t where t: "install_loop k (Suc tail) s' = Ret () t" "bst t []"
    and tt: "bstep s' t (apply_w (blk s') (map (\<lambda>i. (True, lh_block s ! i, blk s 1 (log_blk s i))) [Suc tail..<Suc tail + k]))
        (map (\<lambda>i. (True, lh_block s ! i, blk s 1 (log_blk s i))) [Suc tail..<Suc tail + k]) {}"
    unfolding same by auto
  have up: "[tail..<tail + Suc k] = tail # [Suc tail..<Suc tail + k]" by (simp add: upt_rec)
  show ?case
    using s'(1) t bstep_trans [OF st tt] unfolding up bs' by auto
qed

text \<open>Reading a block, changing it and writing it back, as \<open>write_head\<close> does.\<close>

lemma rewrite_block:
  assumes st: "bst s []" and k: "key_ok s d n" and room: "card (dirty s) < 30"
  shows "\<exists>t. bindK (bread d n) (\<lambda>b. thenK (bset b f) (thenK (bwrite b) (brelse b))) s = Ret () t \<and> bst t [] \<and>
    bstep s t (put_blk (blk s) d n (f (blk s d n))) [(bit d 0, n, f (blk s d n))] (dirty s - {(d, n)})"
proof -
  obtain i s1 where b: "bread d n s = Ret i s1" and s1: "bread_post s [] d n i s1"
    using bread_ok [OF st k] room by auto
  have st1: "bst s1 [i]" and k1: "bdev (bufs s1 ! i) = d" "blockno (bufs s1 ! i) = n" "bdata (bufs s1 ! i) = blk s d n"
    and f1: "bstep s s1 (blk s) [] (dirty s)"
    using s1 by (auto simp: bread_post_def same_view_def has_key_def bstep_def)
  obtain s2 where s2: "bset i f s1 = Ret () s2" "bst s2 [i]"
    "bstep s1 s2 (put_blk (blk s1) d n (f (blk s d n))) [] (dirty s1)"
    and b2: "bufs s2 ! i = (bufs s1 ! i)\<lparr>bdata := f (blk s d n)\<rparr>"
    using bset_ok [OF st1, of i f] k1 by (auto simp: bstep_def put_blk_def)
  have k2: "key_ok s2 d n" using k f1 s2(3) key_ok_bframe by (metis bstep_def)
  obtain s3 where s3: "bwrite i s2 = Ret () s3" "bst s3 [i]"
    "bstep s2 s3 (blk s2) [(bit d 0, n, f (blk s d n))] (dirty s2 - {(d, n)})"
    "dsk s3 = (dsk s2)(d := (dsk s2 d)(n := f (blk s d n)))"
    "bdev (bufs s3 ! i) = d" "blockno (bufs s3 ! i) = n" "bdata (bufs s3 ! i) = f (blk s d n)"
    using bwrite_ok [OF s2(2), of i] k2 b2 k1 by (auto simp: bstep_def)
  obtain t where t: "brelse i s3 = Ret () t" "bst t []" "bstep s3 t (blk s3) [] (dirty s3)"
    using brelse_ok [OF s3(2), of i] s3(4-7) by (auto simp: same_view_def bstep_def)
  have "bstep s t (put_blk (blk s) d n (f (blk s d n))) [(bit d 0, n, f (blk s d n))] (dirty s - {(d, n)})"
    using f1 s2(3) s3(3) t(3) bstep_trans [OF bstep_trans [OF bstep_trans [OF f1 s2(3)] s3(3)] t(3)]
    by (simp add: bstep_def)
  then show ?thesis using b s2(1) s3(1) t(1,2) by (auto simp: km_simps)
qed

lemma write_head_ok:
  assumes st: "bst s []" and g: "lgeo s" and room: "card (dirty s) < 30" and nd: "(1, lg_start s) \<notin> dirty s"
  shows "\<exists>t. write_head s = Ret () t \<and> bst t [] \<and>
    bstep s t (put_blk (blk s) 1 (lg_start s) (encode_head (lh_n s) (lh_block s) (blk s 1 (lg_start s))))
      [(True, lg_start s, encode_head (lh_n s) (lh_block s) (blk s 1 (lg_start s)))] (dirty s)"
proof -
  have "in_log s (lg_start s)" by (simp add: in_log_def)
  then have k: "key_ok s 1 (lg_start s)" "lg_dev s = 1" using g by (auto simp: lgeo_def)
  have "dirty s - {(1, lg_start s)} = dirty s" using nd by auto
  then show ?thesis
    using rewrite_block [OF st k(1) room, of "encode_head (lh_n s) (lh_block s)"] k(2)
    by (simp add: write_head_def km_simps)
qed


section \<open>The header on disk\<close>

lemma length_put_blocks [simp]: "length (put_blocks bl k i d) = length d"
  by (induction bl k i d rule: put_blocks.induct) simp_all

lemma get32_put_blocks_before: "m + 4 \<le> 4 + 4 * i \<Longrightarrow> get32 (put_blocks bl k i d) m = get32 d m"
  by (induction bl k i d rule: put_blocks.induct) simp_all

lemma get32_put_blocks:
  "i \<le> j \<Longrightarrow> j < i + k \<Longrightarrow> 8 + 4 * j \<le> length d \<Longrightarrow> get32 (put_blocks bl k i d) (4 + 4 * j) = bl ! j"
proof (induction bl k i d rule: put_blocks.induct)
  case (2 bl k i d)
  show ?case
  proof (cases "j = i")
    case True
    with 2 show ?thesis by (simp add: get32_put_blocks_before)
  next
    case False
    with 2 show ?thesis by simp
  qed
qed simp

lemma decode_encode:
  assumes "0 \<le> n" "n \<le> 30" "length d = 512"
  shows "sint (get32 (encode_head n bl d) 0) = n"
    "j < nat n \<Longrightarrow> get32 (encode_head n bl d) (4 + 4 * j) = bl ! j"
    "length (encode_head n bl d) = 512"
proof -
  have "get32 (encode_head n bl d) 0 = word_of_int n"
    using assms by (simp add: encode_head_def get32_put_blocks_before)
  moreover have "sint (word_of_int n :: u32) = n"
    using assms by (simp add: sint_sbintrunc' signed_take_bit_int_eq_self)
  ultimately show "sint (get32 (encode_head n bl d) 0) = n" by simp
  show "get32 (encode_head n bl d) (4 + 4 * j) = bl ! j" if "j < nat n"
    unfolding encode_head_def by (rule get32_put_blocks) (use assms that in auto)
  show "length (encode_head n bl d) = 512" using assms by (simp add: encode_head_def)
qed

lemma dsk_log_upd [simp]: "dsk (s\<lparr>lh_n := n\<rparr>) = dsk s" "dsk (s\<lparr>lh_block := bl\<rparr>) = dsk s"
  by (auto simp: dsk_def disk_def fun_eq_iff)

lemma log_upd_simps [simp]:
  "bst (s\<lparr>lh_n := n\<rparr>) H = bst s H" "bst (s\<lparr>lh_block := bl\<rparr>) H = bst s H"
  "blk (s\<lparr>lh_n := n\<rparr>) = blk s" "blk (s\<lparr>lh_block := bl\<rparr>) = blk s"
  "dirty (s\<lparr>lh_n := n\<rparr>) = dirty s" "dirty (s\<lparr>lh_block := bl\<rparr>) = dirty s"
  "key_ok (s\<lparr>lh_n := n\<rparr>) = key_ok s" "key_ok (s\<lparr>lh_block := bl\<rparr>) = key_ok s"
  "in_log (s\<lparr>lh_n := n\<rparr>) = in_log s" "in_log (s\<lparr>lh_block := bl\<rparr>) = in_log s"
  by (auto simp: bst_def binv_def quiet_def mine_def curpid_def blk_def dirty_def key_ok_def in_log_def
      fun_eq_iff)

lemma read_blocks_eval:
  "i + k \<le> 30 \<Longrightarrow> length (lh_block s) = 30 \<Longrightarrow> read_blocks d k i s = Ret () (s\<lparr>lh_block :=
     take i (lh_block s) @ map (\<lambda>j. get32 d (4 + 4 * j)) [i..<i + k] @ drop (i + k) (lh_block s)\<rparr>)"
proof (induction k arbitrary: i s)
  case 0
  then show ?case by (simp add: km_simps)
next
  case (Suc k)
  let ?s = "s\<lparr>lh_block := (lh_block s)[i := get32 d (4 + 4 * i)]\<rparr>"
  have up: "[i..<i + Suc k] = i # [Suc i..<Suc i + k]" by (simp add: upt_rec)
  have tk: "take (Suc i) ((lh_block s)[i := v]) = take i (lh_block s) @ [v]" for v
    using Suc.prems by (simp add: take_Suc_conv_app_nth take_update_cancel)
  have "read_blocks d (Suc k) i s = read_blocks d k (Suc i) ?s"
    using Suc.prems by (simp add: km_simps)
  also have "\<dots> = Ret () (?s\<lparr>lh_block := take (Suc i) (lh_block ?s) @
      map (\<lambda>j. get32 d (4 + 4 * j)) [Suc i..<Suc i + k] @ drop (Suc i + k) (lh_block ?s)\<rparr>)"
    by (rule Suc.IH) (use Suc.prems in auto)
  finally show ?case using Suc.prems unfolding up by (simp add: tk)
qed


lemma bframe_log_upd: "bframe s t \<Longrightarrow> bframe (s\<lparr>lh_n := n, lh_block := bl\<rparr>) (t\<lparr>lh_n := n, lh_block := bl\<rparr>)"
proof -
  assume f: "bframe s t"
  then have e: "t = s\<lparr>ptable := ptable t, slocks := slocks t, bufs := bufs t, lru := lru t, idev := idev t\<rparr>"
    by (simp add: bframe_def)
  have "t\<lparr>lh_n := n, lh_block := bl\<rparr> = s\<lparr>lh_n := n, lh_block := bl, ptable := ptable t, slocks := slocks t,
      bufs := bufs t, lru := lru t, idev := idev t\<rparr>"
    by (subst e) simp
  with f show ?thesis by (simp add: bframe_def)
qed

lemma read_head_ok:
  assumes st: "bst s []" and g: "lgeo s" and room: "card (dirty s) < 30"
    and n: "0 \<le> sint (get32 (blk s 1 (lg_start s)) 0)" "sint (get32 (blk s 1 (lg_start s)) 0) \<le> 30"
  defines "d \<equiv> blk s 1 (lg_start s)"
  shows "\<exists>t bl. read_head s = Ret () t \<and> bst t [] \<and> length bl = 30 \<and>
    take (nat (sint (get32 d 0))) bl = map (\<lambda>j. get32 d (4 + 4 * j)) [0..<nat (sint (get32 d 0))] \<and>
    bstep (s\<lparr>lh_n := sint (get32 d 0), lh_block := bl\<rparr>) t (blk s) [] (dirty s)"
proof -
  have "in_log s (lg_start s)" by (simp add: in_log_def)
  then have k: "key_ok s 1 (lg_start s)" "lg_dev s = 1" "length (lh_block s) = 30" using g by (auto simp: lgeo_def)
  obtain i s1 where b: "bread 1 (lg_start s) s = Ret i s1" and s1: "bread_post s [] 1 (lg_start s) i s1"
    using bread_ok [OF st k(1)] room by auto
  have st1: "bst s1 [i]" and k1: "bdev (bufs s1 ! i) = 1" "blockno (bufs s1 ! i) = lg_start s" "bdata (bufs s1 ! i) = d"
    and f1: "bstep s s1 (blk s) [] (dirty s)" and fr: "bframe s s1"
    using s1 by (auto simp: bread_post_def same_view_def has_key_def bstep_def d_def)
  let ?n = "sint (get32 d 0)"
  have len1: "length (lh_block s1) = 30" using bframe_log [OF fr] k(3) by simp
  define bl where "bl = map (\<lambda>j. get32 d (4 + 4 * j)) [0..<nat ?n] @ drop (nat ?n) (lh_block s1)"
  let ?s2 = "s1\<lparr>lh_n := ?n, lh_block := bl\<rparr>"
  have rb: "read_blocks d (nat ?n) 0 (s1\<lparr>lh_n := ?n\<rparr>) = Ret () ?s2"
    using read_blocks_eval [of 0 "nat ?n" "s1\<lparr>lh_n := ?n\<rparr>" d] n len1 by (simp add: bl_def d_def)
  have "(1, lg_start s) \<in> dirty s1 \<or> d = dsk s1 1 (lg_start s)"
    using blk_clean [OF st, of 1 "lg_start s"] f1 dsk_bstep [OF f1] by (auto simp: bstep_def d_def)
  then obtain t where t: "brelse i ?s2 = Ret () t" "bst t []" "same_view ?s2 t"
    using brelse_ok [of ?s2 "[i]" i] st1 k1 by auto
  have "bframe (s\<lparr>lh_n := ?n, lh_block := bl\<rparr>) ?s2" using fr by (rule bframe_log_upd)
  then have "bstep (s\<lparr>lh_n := ?n, lh_block := bl\<rparr>) t (blk s) [] (dirty s)"
    using t(3) f1 by (auto simp: bstep_def same_view_def intro: bframe_trans)
  moreover have "read_head s = Ret () t"
    using b k1 rb t(1) by (simp add: read_head_def km_simps k(2))
  moreover have "length bl = 30" "take (nat ?n) bl = map (\<lambda>j. get32 d (4 + 4 * j)) [0..<nat ?n]"
    using n len1 by (simp_all add: bl_def d_def)
  ultimately show ?thesis using t(2) by blast
qed

section \<open>Commit\<close>

lemma sect_write_put:
  "(\<lambda>d n. if d \<le> 1 then sect_write P w (bit d 0) n else []) =
   put_blk (\<lambda>d n. if d \<le> 1 then P (bit d 0) n else []) (if fst w then 1 else 0) (fst (snd w)) (snd (snd w))"
proof (intro ext)
  fix d n
  obtain b m v where w: "w = (b, m, v)" by (cases w) auto
  show "(if d \<le> 1 then sect_write P w (bit d 0) n else []) =
      put_blk (\<lambda>d n. if d \<le> 1 then P (bit d 0) n else []) (if fst w then 1 else 0) (fst (snd w)) (snd (snd w)) d n"
    unfolding w by (auto simp: sect_write_def u32_le_1)
qed

lemma platter_apply_w:
  "(\<lambda>d n. if d \<le> 1 then foldl sect_write P W (bit d 0) n else []) =
   apply_w (\<lambda>d n. if d \<le> 1 then P (bit d 0) n else []) W"
proof (induction W arbitrary: P)
  case Nil
  show ?case unfolding foldl_Nil apply_w_Nil ..
next
  case (Cons w W)
  show ?case using Cons.IH [of "sect_write P w"] unfolding sect_write_put [of P w] by (simp only: foldl_Cons apply_w_Cons)
qed

lemma dsk_writes:
  assumes "image (idev t) = image (idev s)" "written (idev t) = written (idev s) @ W"
  shows "dsk t = apply_w (dsk s) W"
proof -
  have "dsk t = (\<lambda>d n. if d \<le> 1 then foldl sect_write (platter (idev s)) W (bit d 0) n else [])"
    using assms by (intro ext) (simp add: dsk_def disk_def platter_def)
  moreover have "dsk s = (\<lambda>d n. if d \<le> 1 then platter (idev s) (bit d 0) n else [])"
    by (intro ext) (simp add: dsk_def disk_def)
  ultimately show ?thesis unfolding platter_apply_w by (simp only:)
qed

lemma bst_clean: "bst s [] \<Longrightarrow> dirty s = {} \<Longrightarrow> blk s = dsk s"
  by (intro ext) (simp add: blk_clean)

definition log_writes :: "'z lstate_scheme \<Rightarrow> (bool \<times> u32 \<times> u8 list) list" where
  "log_writes s = map (\<lambda>i. (True, log_blk s i, blk s 1 (lh_block s ! i))) [0..<nat (lh_n s)]"

definition home_writes :: "'z lstate_scheme \<Rightarrow> (bool \<times> u32 \<times> u8 list) list" where
  "home_writes s = map (\<lambda>i. (True, lh_block s ! i, blk s 1 (lh_block s ! i))) [0..<nat (lh_n s)]"

definition full_head :: "'z lstate_scheme \<Rightarrow> u8 list" where
  "full_head s = encode_head (lh_n s) (lh_block s) (blk s 1 (lg_start s))"

definition empty_head :: "'z lstate_scheme \<Rightarrow> u8 list" where
  "empty_head s = encode_head 0 (lh_block s) (full_head s)"

text \<open>The disk writes of \<open>commit\<close>, in order.\<close>

definition commit_writes :: "'z lstate_scheme \<Rightarrow> (bool \<times> u32 \<times> u8 list) list" where
  "commit_writes s = log_writes s @ (True, lg_start s, full_head s) # home_writes s @ [(True, lg_start s, empty_head s)]"

text \<open>Between system calls: the pinned blocks are the logged ones.\<close>

definition ltx :: "'z lstate_scheme \<Rightarrow> bool" where
  "ltx s \<longleftrightarrow> bst s [] \<and> lgeo s \<and> lhdr s \<and> dirty s = Pair 1 ` set (logged s)"

lemma distinct_log_blks: "lgeo s \<Longrightarrow> n \<le> 29 \<Longrightarrow> distinct (map (log_blk s) [0..<n])"
  unfolding distinct_map inj_on_def using log_blk_props(4) [of s] by auto

lemma map_logged:
  assumes "lhdr s" "lgeo s"
  shows "map (\<lambda>i. lh_block s ! i) [0..<nat (lh_n s)] = logged s"
proof -
  have "nat (lh_n s) \<le> length (lh_block s)" using assms by (auto simp: lhdr_def lgeo_def)
  then show ?thesis by (intro nth_equalityI) auto
qed

lemma log_area_reads:
  assumes "ltx s"
  shows "apply_w f (log_writes s) 1 (lg_start s) = f 1 (lg_start s)"
    "i < nat (lh_n s) \<Longrightarrow> apply_w f (log_writes s) 1 (log_blk s i) = blk s 1 (lh_block s ! i)"
    "\<not> in_log s x \<Longrightarrow> apply_w f (log_writes s) 1 x = f 1 x"
proof -
  have g: "lgeo s" "lhdr s" and n: "nat (lh_n s) \<le> 29" using assms by (auto simp: ltx_def lhdr_def)
  have ne: "log_blk s i \<noteq> lg_start s" "in_log s (log_blk s i)" if "i < nat (lh_n s)" for i
    using log_blk_props(1,3) [OF g(1), of i] that n by auto
  show "apply_w f (log_writes s) 1 (lg_start s) = f 1 (lg_start s)"
    using ne(1) by (intro apply_w_other) (auto simp: log_writes_def)
  show "\<not> in_log s x \<Longrightarrow> apply_w f (log_writes s) 1 x = f 1 x"
    using ne(2) by (intro apply_w_other) (auto simp: log_writes_def)
  show "i < nat (lh_n s) \<Longrightarrow> apply_w f (log_writes s) 1 (log_blk s i) = blk s 1 (lh_block s ! i)"
    unfolding log_writes_def using distinct_log_blks [OF g(1) n]
    by (intro apply_w_map [where g = "log_blk s" and h = "\<lambda>i. blk s 1 (lh_block s ! i)"]) auto
qed

lemma home_reads:
  assumes "ltx s"
  shows "in_log s x \<Longrightarrow> apply_w f (home_writes s) 1 x = f 1 x"
    "i < nat (lh_n s) \<Longrightarrow> apply_w f (home_writes s) 1 (lh_block s ! i) = blk s 1 (lh_block s ! i)"
    "x \<notin> set (logged s) \<Longrightarrow> apply_w f (home_writes s) 1 x = f 1 x"
proof -
  have g: "lgeo s" "lhdr s" using assms by (auto simp: ltx_def)
  show "in_log s x \<Longrightarrow> apply_w f (home_writes s) 1 x = f 1 x"
    using logged_nth(4) [OF g(2,1)] by (intro apply_w_other) (auto simp: home_writes_def)
  show "x \<notin> set (logged s) \<Longrightarrow> apply_w f (home_writes s) 1 x = f 1 x"
    using logged_nth(1) [OF g(2,1)] by (intro apply_w_other) (auto simp: home_writes_def)
  have "distinct (map (\<lambda>i. lh_block s ! i) [0..<nat (lh_n s)])"
    unfolding map_logged [OF g(2,1)] using g(2) by (simp add: lhdr_def)
  then show "i < nat (lh_n s) \<Longrightarrow> apply_w f (home_writes s) 1 (lh_block s ! i) = blk s 1 (lh_block s ! i)"
    unfolding home_writes_def
    by (intro apply_w_map [where g = "\<lambda>i. lh_block s ! i" and h = "\<lambda>i. blk s 1 (lh_block s ! i)"]) auto
qed

lemma lgeo_head:
  assumes "lgeo s"
  shows "lg_dev s = 1" "in_log s (lg_start s)" "key_ok s 1 (lg_start s)" "length (lh_block s) = 30"
  using assms by (auto simp: lgeo_def in_log_def)

lemma ltx_head:
  assumes "ltx s"
  shows "card (dirty s) < 30" "(1, lg_start s) \<notin> dirty s" "blk s 1 (lg_start s) = dsk s 1 (lg_start s)"
proof -
  have g: "bst s []" "lgeo s" "lhdr s" "dirty s = Pair 1 ` set (logged s)" using assms by (auto simp: ltx_def)
  show "card (dirty s) < 30" using card_dirty_logged [OF g(3,2)] g(4) by simp
  show "(1, lg_start s) \<notin> dirty s" using g(3) lgeo_head(2) [OF g(2)] by (auto simp: g(4) lhdr_def)
  then show "blk s 1 (lg_start s) = dsk s 1 (lg_start s)" using blk_clean [OF g(1)] by simp
qed

lemma lh_n_head:
  assumes "bst s []" "lgeo s" "card (dirty s) < 30" "(1, lg_start s) \<notin> dirty s"
  defines "h \<equiv> encode_head 0 (lh_block s) (blk s 1 (lg_start s))"
  shows "\<exists>t. thenK (modK (\<lambda>s. s\<lparr>lh_n := 0\<rparr>)) write_head s = Ret () t \<and> bst t [] \<and>
    bstep (s\<lparr>lh_n := 0\<rparr>) t (put_blk (blk s) 1 (lg_start s) h) [(True, lg_start s, h)] (dirty s)"
proof -
  have "lgeo (s\<lparr>lh_n := 0\<rparr>)" using assms(2) by (simp add: lgeo_def)
  then show ?thesis using write_head_ok [of "s\<lparr>lh_n := 0\<rparr>"] assms by (simp add: km_simps)
qed

lemma bstep_lh_n: "bstep s t f W D \<Longrightarrow> bstep (s\<lparr>lh_n := n\<rparr>) (t\<lparr>lh_n := n\<rparr>) f W D"
proof -
  assume a: "bstep s t f W D"
  then have f: "bframe s t" by (simp add: bstep_def)
  then have e: "t = s\<lparr>ptable := ptable t, slocks := slocks t, bufs := bufs t, lru := lru t, idev := idev t\<rparr>"
    by (simp add: bframe_def)
  have "t\<lparr>lh_n := n\<rparr> = s\<lparr>lh_n := n, ptable := ptable t, slocks := slocks t,
      bufs := bufs t, lru := lru t, idev := idev t\<rparr>"
    by (subst e) simp
  with f have "bframe (s\<lparr>lh_n := n\<rparr>) (t\<lparr>lh_n := n\<rparr>)" by (simp add: bframe_def)
  with a show ?thesis by (simp add: bstep_def)
qed

lemma commit_ok:
  assumes tx: "ltx s" and n: "0 < lh_n s"
  shows "\<exists>t. commit s = Ret () t \<and> bst t [] \<and>
    bstep (s\<lparr>lh_n := 0\<rparr>) t (apply_w (blk s) (commit_writes s)) (commit_writes s) {}"
proof -
  let ?st = "lg_start s" and ?L = "log_writes s" and ?M = "home_writes s"
  have g: "bst s []" "lgeo s" "lhdr s" "dirty s = Pair 1 ` set (logged s)" using tx by (auto simp: ltx_def)
  note h = lgeo_head [OF g(2)] and d = ltx_head [OF tx]
  obtain s1 where s1: "write_log s = Ret () s1" "bst s1 []" "bstep s s1 (apply_w (blk s) ?L) ?L (dirty s)"
    using write_log_loop_ok [OF g, of 0 "nat (lh_n s)"] by (auto simp: write_log_def log_writes_def km_simps)
  have f1: "bframe s s1" and e1: "dirty s1 = dirty s" "blk s1 = apply_w (blk s) ?L" using s1(3) by (auto simp: bstep_def)
  note l1 = bframe_log [OF f1] log_bframe [OF f1]
  have hd: "encode_head (lh_n s) (lh_block s) (blk s1 1 ?st) = full_head s"
    by (simp add: full_head_def e1 log_area_reads(1) [OF tx])
  obtain s2 where s2: "write_head s1 = Ret () s2" "bst s2 []"
    "bstep s1 s2 (put_blk (blk s1) 1 ?st (full_head s)) [(True, ?st, full_head s)] (dirty s)"
    using write_head_ok [OF s1(2)] g(2) d hd by (auto simp: l1 e1)
  have f2: "bframe s s2" using s2(3) f1 bframe_trans by (auto simp: bstep_def)
  note l2 = bframe_log [OF f2] log_bframe [OF f2]
  have e2: "dirty s2 = Pair 1 ` set (logged s)" "blk s2 = put_blk (blk s1) 1 ?st (full_head s)"
    using s2(3) g(4) by (auto simp: bstep_def)
  have lb: "blk s2 1 (log_blk s i) = blk s 1 (lh_block s ! i)" if i: "i < nat (lh_n s)" for i
  proof -
    have "i < 29" using i g(3) by (auto simp: lhdr_def)
    then have "log_blk s i \<noteq> ?st" using log_blk_props(3) [OF g(2), of i] by simp
    then show ?thesis using log_area_reads(2) [OF tx i] by (simp add: e1 e2)
  qed
  have W: "map (\<lambda>i. (True, lh_block s2 ! i, blk s2 1 (log_blk s2 i))) [0..<0 + nat (lh_n s2)] = ?M"
    using lb by (auto simp: home_writes_def l2)
  obtain s3 where s3: "install_trans s2 = Ret () s3" "bst s3 []" "bstep s2 s3 (apply_w (blk s2) ?M) ?M {}"
    using install_loop_ok [OF s2(2), of 0 "nat (lh_n s2)"] g(2,3) unfolding W
    by (auto simp: install_trans_def km_simps l2 e2)
  have f3: "bframe s s3" using s3(3) f2 bframe_trans by (auto simp: bstep_def)
  note l3 = bframe_log [OF f3] log_bframe [OF f3]
  have e3: "dirty s3 = {}" "blk s3 = apply_w (blk s2) ?M" using s3(3) by (auto simp: bstep_def)
  have hd3: "encode_head 0 (lh_block s) (blk s3 1 ?st) = empty_head s"
    using home_reads(1) [OF tx h(2)] by (simp add: empty_head_def e3 e2)
  obtain t where t: "thenK (modK (\<lambda>s. s\<lparr>lh_n := 0\<rparr>)) write_head s3 = Ret () t" "bst t []"
    "bstep (s3\<lparr>lh_n := 0\<rparr>) t (put_blk (blk s3) 1 ?st (empty_head s)) [(True, ?st, empty_head s)] {}"
    using lh_n_head [OF s3(2)] g(2) hd3 by (auto simp: l3 e3)
  have "bstep s s3 (apply_w (blk s2) ?M) (?L @ (True, ?st, full_head s) # ?M) {}"
    using bstep_trans [OF bstep_trans [OF s1(3) s2(3)] s3(3)] by simp
  from bstep_trans [OF bstep_lh_n [OF this] t(3)]
  have "bstep (s\<lparr>lh_n := 0\<rparr>) t (apply_w (blk s) (commit_writes s)) (commit_writes s) {}"
    by (simp add: commit_writes_def apply_w_append e1 e2 e3)
  moreover have "commit s = Ret () t"
    using n s1(1) s2(1) s3(1) t(1) by (simp add: commit_def km_simps)
  ultimately show ?thesis using t(2) by blast
qed

text \<open>A header block that recovery may read.\<close>

definition good_head :: "'z lstate_scheme \<Rightarrow> u8 list \<Rightarrow> bool" where
  "good_head s d \<longleftrightarrow> (let n = sint (get32 d 0); bs = map (\<lambda>j. get32 d (4 + 4 * j)) [0..<nat n] in
     0 \<le> n \<and> n < int LOGSIZE \<and> distinct bs \<and> (\<forall>b \<in> set bs. \<not> in_log s b \<and> key_ok s 1 b))"

definition replay :: "'z lstate_scheme \<Rightarrow> u8 list \<Rightarrow> (bool \<times> u32 \<times> u8 list) list" where
  "replay s d = map (\<lambda>i. (True, get32 d (4 + 4 * i), blk s 1 (log_blk s i))) [0..<nat (sint (get32 d 0))]"

lemma recover_ok:
  assumes st: "bst s []" and g: "lgeo s" and cl: "dirty s = {}"
  defines "d \<equiv> blk s 1 (lg_start s)"
  assumes gd: "good_head s d"
  shows "\<exists>t v. recover_from_log s = Ret () t \<and> bst t [] \<and> dirty t = {} \<and> lh_n t = 0 \<and>
    lgeo t \<and> lg_start t = lg_start s \<and>
    blk t = apply_w (blk s) (replay s d @ [(True, lg_start s, v)])"
proof -
  let ?n = "sint (get32 d 0)"
  have n: "0 \<le> ?n" "?n < int LOGSIZE" "?n \<le> 30" using gd by (auto simp: good_head_def Let_def)
  note h = lgeo_head [OF g]
  obtain s1 bl where s1: "read_head s = Ret () s1" "bst s1 []" "length bl = 30"
    "take (nat ?n) bl = map (\<lambda>j. get32 d (4 + 4 * j)) [0..<nat ?n]"
    "bstep (s\<lparr>lh_n := ?n, lh_block := bl\<rparr>) s1 (blk s) [] {}"
    using read_head_ok [OF st g] n cl unfolding d_def by auto
  let ?s = "s\<lparr>lh_n := ?n, lh_block := bl\<rparr>"
  have f1: "bframe ?s s1" and e1: "dirty s1 = {}" "blk s1 = blk s" using s1(5) by (auto simp: bstep_def)
  have "lgeo ?s" using g s1(3) by (simp add: lgeo_def)
  moreover have "lhdr ?s" using gd n s1(4) by (simp add: lhdr_def good_head_def Let_def)
  ultimately have g1: "lgeo s1" "lhdr s1" by (simp_all add: log_bframe [OF f1])
  have l1: "lg_start s1 = lg_start s" "lh_n s1 = ?n" "lh_block s1 = bl" using bframe_log [OF f1] by simp_all
  have "bl ! i = get32 d (4 + 4 * i)" if "i < nat ?n" for i
    using nth_take [OF that, of bl] that unfolding s1(4) by simp
  then have W: "map (\<lambda>i. (True, lh_block s1 ! i, blk s1 1 (log_blk s1 i))) [0..<0 + nat (lh_n s1)] = replay s d"
    by (auto simp: replay_def l1 e1)
  obtain s2 where s2: "install_trans s1 = Ret () s2" "bst s2 []" "bstep s1 s2 (apply_w (blk s) (replay s d)) (replay s d) {}"
    using install_loop_ok [OF s1(2) g1, of 0 "nat (lh_n s1)"] unfolding W
    by (auto simp: install_trans_def km_simps e1)
  have f2: "bframe s1 s2" and e2: "dirty s2 = {}" "blk s2 = apply_w (blk s) (replay s d)" using s2(3) by (auto simp: bstep_def)
  have g2: "lgeo s2" "lg_start s2 = lg_start s" using g1 l1 by (simp_all add: log_bframe [OF f2] bframe_log [OF f2])
  let ?v = "encode_head 0 (lh_block s2) (blk s2 1 (lg_start s2))"
  obtain t where t: "thenK (modK (\<lambda>s. s\<lparr>lh_n := 0\<rparr>)) write_head s2 = Ret () t" "bst t []"
    "bstep (s2\<lparr>lh_n := 0\<rparr>) t (put_blk (blk s2) 1 (lg_start s) ?v) [(True, lg_start s, ?v)] {}"
    using lh_n_head [OF s2(2) g2(1)] e2 g2 by auto
  have f3: "bframe (s2\<lparr>lh_n := 0\<rparr>) t" "dirty t = {}" "blk t = put_blk (blk s2) 1 (lg_start s) ?v"
    using t(3) by (auto simp: bstep_def)
  have "lgeo (s2\<lparr>lh_n := 0\<rparr>)" using g2(1) by (simp add: lgeo_def)
  then have "lgeo t" "lh_n t = 0" "lg_start t = lg_start s"
    using g2(2) by (simp_all add: log_bframe [OF f3(1)] bframe_log [OF f3(1)])
  moreover have "recover_from_log s = Ret () t"
    using s1(1) s2(1) t(1) by (simp add: recover_from_log_def km_simps)
  ultimately show ?thesis using t(2) f3 e2 by (intro exI [of _ t] exI [of _ ?v]) (simp add: apply_w_append)
qed

text \<open>
  A machine that stopped after some of the writes and booted again: an empty cache over the disk
  that the writes left, the log at the same place.
\<close>

definition rebooted :: "'z lstate_scheme \<Rightarrow> (bool \<times> u32 \<times> u8 list) list \<Rightarrow> 'z lstate_scheme \<Rightarrow> bool" where
  "rebooted s ws r \<longleftrightarrow> bst r [] \<and> dirty r = {} \<and> lgeo r \<and> lg_start r = lg_start s \<and>
     key_ok r = key_ok s \<and> dsk r = apply_w (dsk s) ws"

text \<open>The file system's part of the disk: everything but the log.\<close>

definition same_files :: "'z lstate_scheme \<Rightarrow> (u32 \<Rightarrow> u32 \<Rightarrow> u8 list) \<Rightarrow> (u32 \<Rightarrow> u32 \<Rightarrow> u8 list) \<Rightarrow> bool" where
  "same_files s f g \<longleftrightarrow> (\<forall>x. \<not> in_log s x \<longrightarrow> f 1 x = g 1 x)"

lemma recover_rebooted:
  assumes rb: "rebooted s ws r" and gd: "good_head r (dsk r 1 (lg_start s))"
  shows "\<exists>u. recover_from_log r = Ret () u \<and> bst u [] \<and> dirty u = {} \<and> lh_n u = 0 \<and>
    same_files s (dsk u) (apply_w (dsk r) (replay r (dsk r 1 (lg_start s))))"
proof -
  have r: "bst r []" "dirty r = {}" "lgeo r" "lg_start r = lg_start s" using rb by (auto simp: rebooted_def)
  have b: "blk r = dsk r" by (rule bst_clean [OF r(1,2)])
  obtain u v where u: "recover_from_log r = Ret () u" "bst u []" "dirty u = {}" "lh_n u = 0"
    "blk u = apply_w (blk r) (replay r (dsk r 1 (lg_start s)) @ [(True, lg_start r, v)])"
    using recover_ok [OF r(1,3,2)] gd by (auto simp: b r(4))
  have "in_log s (lg_start s)" by (simp add: in_log_def)
  moreover have "dsk u = put_blk (apply_w (dsk r) (replay r (dsk r 1 (lg_start s)))) 1 (lg_start s) v"
    using bst_clean [OF u(2,3)] u(5) by (simp add: apply_w_append b r(4))
  ultimately have "same_files s (dsk u) (apply_w (dsk r) (replay r (dsk r 1 (lg_start s))))"
    by (auto simp: same_files_def)
  with u show ?thesis by blast
qed

lemma zero_head:
  assumes "sint (get32 d 0) = 0"
  shows "good_head r d" "replay r d = []"
  using assms by (simp_all add: good_head_def replay_def)

lemma same_files_log_writes: "ltx s \<Longrightarrow> same_files s (apply_w f (take k (log_writes s))) f"
  unfolding same_files_def
proof (intro allI impI)
  fix x assume s: "ltx s" "\<not> in_log s x"
  then have "lgeo s" "nat (lh_n s) \<le> 29" by (auto simp: ltx_def lhdr_def)
  then show "apply_w f (take k (log_writes s)) 1 x = f 1 x"
    using log_blk_props(1) [of s] s(2) by (intro apply_w_other) (fastforce simp: log_writes_def dest!: in_set_takeD)
qed

lemma crash_old:
  assumes tx: "ltx s" and k: "k \<le> nat (lh_n s)" and h: "sint (get32 (dsk s 1 (lg_start s)) 0) = 0"
    and rb: "rebooted s (take k (commit_writes s)) r"
  shows "\<exists>u. recover_from_log r = Ret () u \<and> bst u [] \<and> dirty u = {} \<and> lh_n u = 0 \<and> same_files s (dsk u) (dsk s)"
proof -
  have tk: "take k (commit_writes s) = take k (log_writes s)" using k by (simp add: commit_writes_def log_writes_def)
  have r: "dsk r = apply_w (dsk s) (take k (log_writes s))" using rb by (simp add: rebooted_def tk)
  have g: "lgeo s" "nat (lh_n s) \<le> 29" using tx by (auto simp: ltx_def lhdr_def)
  have "dsk r 1 (lg_start s) = dsk s 1 (lg_start s)"
    unfolding r using log_blk_props(3) [OF g(1)] g(2)
    by (intro apply_w_other) (fastforce simp: log_writes_def dest!: in_set_takeD)
  then have z: "sint (get32 (dsk r 1 (lg_start s)) 0) = 0" using h by simp
  show ?thesis using recover_rebooted [OF rb zero_head(1) [OF z]] same_files_log_writes [OF tx, of "dsk s" k]
    unfolding zero_head(2) [OF z] apply_w_Nil unfolding r by (auto simp: same_files_def)
qed

lemma full_head_decode:
  assumes tx: "ltx s" and len: "length (dsk s 1 (lg_start s)) = 512"
  shows "sint (get32 (full_head s) 0) = lh_n s" "j < nat (lh_n s) \<Longrightarrow> get32 (full_head s) (4 + 4 * j) = lh_block s ! j"
    "sint (get32 (empty_head s) 0) = 0"
proof -
  have n: "0 \<le> lh_n s" "lh_n s \<le> 30" using tx by (auto simp: ltx_def lhdr_def)
  have l: "length (blk s 1 (lg_start s)) = 512" using len ltx_head(3) [OF tx] by simp
  note f = decode_encode [OF n l, where bl = "lh_block s", folded full_head_def]
  show "sint (get32 (full_head s) 0) = lh_n s" "j < nat (lh_n s) \<Longrightarrow> get32 (full_head s) (4 + 4 * j) = lh_block s ! j"
    using f by auto
  show "sint (get32 (empty_head s) 0) = 0" unfolding empty_head_def using decode_encode(1) [of 0] f(3) by simp
qed

lemma blk_unlogged: "ltx s \<Longrightarrow> x \<notin> set (logged s) \<Longrightarrow> blk s 1 x = dsk s 1 x"
  using blk_clean [of s "[]" 1 x] by (auto simp: ltx_def)

lemma home_installed:
  assumes tx: "ltx s" and f: "\<And>x. \<not> in_log s x \<Longrightarrow> x \<notin> set (logged s) \<Longrightarrow> f 1 x = dsk s 1 x"
  shows "same_files s (apply_w f (home_writes s)) (blk s)"
  unfolding same_files_def
proof (intro allI impI)
  fix x assume x: "\<not> in_log s x"
  show "apply_w f (home_writes s) 1 x = blk s 1 x"
  proof (cases "x \<in> set (logged s)")
    case True
    then obtain i where "i < nat (lh_n s)" "x = lh_block s ! i" by (auto simp: in_set_conv_nth)
    then show ?thesis using home_reads(2) [OF tx] by simp
  next
    case False
    then show ?thesis using home_reads(3) [OF tx False] f [OF x False] blk_unlogged [OF tx False] by simp
  qed
qed

lemma same_files_trans: "same_files s f g \<Longrightarrow> same_files s g h \<Longrightarrow> same_files s f h"
  by (simp add: same_files_def)

lemma same_files_head: "same_files s (put_blk f 1 (lg_start s) v) f"
proof -
  have "in_log s (lg_start s)" by (simp add: in_log_def)
  then show ?thesis by (auto simp: same_files_def)
qed

lemma crash_end:
  assumes tx: "ltx s" and k: "2 * nat (lh_n s) + 1 < k" and len: "length (dsk s 1 (lg_start s)) = 512"
    and rb: "rebooted s (take k (commit_writes s)) r"
  shows "\<exists>u. recover_from_log r = Ret () u \<and> bst u [] \<and> dirty u = {} \<and> lh_n u = 0 \<and> same_files s (dsk u) (blk s)"
proof -
  let ?st = "lg_start s"
  let ?f = "put_blk (apply_w (dsk s) (log_writes s)) 1 ?st (full_head s)"
  have tk: "take k (commit_writes s) = commit_writes s"
    using k by (simp add: commit_writes_def log_writes_def home_writes_def)
  have r: "dsk r = put_blk (apply_w ?f (home_writes s)) 1 ?st (empty_head s)"
    using rb unfolding rebooted_def tk by (simp add: commit_writes_def apply_w_append)
  have z: "sint (get32 (dsk r 1 ?st) 0) = 0" using full_head_decode(3) [OF tx len] by (simp add: r)
  obtain u where u: "recover_from_log r = Ret () u" "bst u []" "dirty u = {}" "lh_n u = 0" "same_files s (dsk u) (dsk r)"
    using recover_rebooted [OF rb zero_head(1) [OF z]] unfolding zero_head(2) [OF z] by auto
  have "?f 1 x = dsk s 1 x" if x: "\<not> in_log s x" for x
    using same_files_head [of s "apply_w (dsk s) (log_writes s)" "full_head s"] log_area_reads(3) [OF tx x] x
    unfolding same_files_def by auto
  then have "same_files s (dsk r) (blk s)"
    unfolding r using same_files_trans [OF same_files_head home_installed [OF tx]] by blast
  with u same_files_trans show ?thesis by blast
qed

lemma crash_mid:
  assumes tx: "ltx s" and k: "nat (lh_n s) < k" "k \<le> 2 * nat (lh_n s) + 1" and len: "length (dsk s 1 (lg_start s)) = 512"
    and rb: "rebooted s (take k (commit_writes s)) r"
  shows "\<exists>u. recover_from_log r = Ret () u \<and> bst u [] \<and> dirty u = {} \<and> lh_n u = 0 \<and> same_files s (dsk u) (blk s)"
proof -
  let ?n = "nat (lh_n s)" and ?st = "lg_start s" and ?h = "full_head s"
  define M where "M = take (k - ?n - 1) (home_writes s)"
  have g: "lgeo s" "lhdr s" and n: "?n \<le> 29" using tx by (auto simp: ltx_def lhdr_def)
  have tk: "take k (commit_writes s) = log_writes s @ (True, ?st, ?h) # M"
    using k by (simp add: commit_writes_def log_writes_def home_writes_def M_def take_Cons')
  let ?f = "put_blk (apply_w (dsk s) (log_writes s)) 1 ?st ?h"
  have r: "dsk r = apply_w ?f M" and rl: "lg_start r = ?st" "key_ok r = key_ok s" "bst r []" "dirty r = {}"
    using rb by (simp_all add: rebooted_def tk apply_w_append)
  have il: "in_log r = in_log s" by (simp add: in_log_def fun_eq_iff rl)
  have M: "apply_w f M 1 x = f 1 x" if "in_log s x \<or> x \<notin> set (logged s)" for f x
  proof (rule apply_w_other, rule)
    fix w assume "w \<in> set M"
    then obtain i where "i < ?n" "w = (True, lh_block s ! i, blk s 1 (lh_block s ! i))"
      by (auto simp: M_def home_writes_def dest!: in_set_takeD)
    then show "(if fst w then 1 else 0, fst (snd w)) \<noteq> (1, x)" using that logged_nth(1,4) [OF g(2,1), of i] by auto
  qed
  have hd: "dsk r 1 ?st = ?h" using M [of ?st] lgeo_head(2) [OF g(1)] by (simp add: r)
  note dh = full_head_decode [OF tx len]
  have lb: "blk r 1 (log_blk r i) = blk s 1 (lh_block s ! i)" if i: "i < ?n" for i
    using M [of "log_blk s i"] log_blk_props(1,3) [OF g(1), of i] n i log_area_reads(2) [OF tx i, of "dsk s"]
    by (simp add: bst_clean [OF rl(3,4)] r rl(1))
  have bl: "map (\<lambda>j. get32 ?h (4 + 4 * j)) [0..<?n] = logged s"
    unfolding map_logged [OF g(2,1), symmetric] using dh(2) by simp
  have "good_head r ?h" using g(2) unfolding good_head_def Let_def dh(1) bl lhdr_def il rl(2) by simp
  moreover have "replay r ?h = home_writes s" unfolding replay_def home_writes_def dh(1) using lb dh(2) by simp
  ultimately obtain u where u: "recover_from_log r = Ret () u" "bst u []" "dirty u = {}" "lh_n u = 0"
    "same_files s (dsk u) (apply_w (dsk r) (home_writes s))"
    using recover_rebooted [OF rb] unfolding hd by metis
  have "dsk r 1 x = dsk s 1 x" if "\<not> in_log s x" "x \<notin> set (logged s)" for x
    using M [of x ?f] that log_area_reads(3) [OF tx that(1), of "dsk s"]
      same_files_head [of s "apply_w (dsk s) (log_writes s)" ?h] unfolding r same_files_def by auto
  with u same_files_trans [OF u(5) home_installed [OF tx, of "dsk r"]] show ?thesis by blast
qed

section \<open>Writing inside a transaction\<close>

lemma log_index_spec:
  "log_index bl k i b = i + length (takeWhile (\<lambda>x. x \<noteq> b) (take k (drop i bl)))" if "i + k \<le> length bl"
  using that
proof (induction k arbitrary: i)
  case (Suc k)
  then have "drop i bl = bl ! i # drop (Suc i) bl" by (simp add: Cons_nth_drop_Suc)
  then show ?case using Suc by simp
qed simp

definition absorb :: "u32 \<Rightarrow> u32 list \<Rightarrow> u32 list" where
  "absorb b bl = (if b \<in> set bl then bl else bl @ [b])"

lemma log_slot:
  fixes b :: u32
  assumes "n < length bl"
  defines "i \<equiv> log_index bl n 0 b"
  shows "i \<le> n" "take (if i = n then Suc n else n) (bl[i := b]) = absorb b (take n bl)"
    "i = n \<longleftrightarrow> b \<notin> set (take n bl)"
proof -
  have i: "i = length (takeWhile (\<lambda>x. x \<noteq> b) (take n bl))" using log_index_spec [of 0 n bl b] assms by simp
  have l: "length (take n bl) = n" using assms by simp
  show "i \<le> n" using length_takeWhile_le [of "\<lambda>x. x \<noteq> b" "take n bl"] unfolding i l .
  show m: "i = n \<longleftrightarrow> b \<notin> set (take n bl)"
  proof
    assume "b \<notin> set (take n bl)"
    then have "takeWhile (\<lambda>x. x \<noteq> b) (take n bl) = take n bl" by (auto simp: takeWhile_eq_all_conv)
    then have "i = length (take n bl)" using i by (simp only:)
    then show "i = n" by (simp only: l)
  next
    assume "i = n"
    then have "takeWhile (\<lambda>x. x \<noteq> b) (take n bl) = take n bl"
      using i l by (metis takeWhile_eq_take take_all le_refl)
    then show "b \<notin> set (take n bl)" by (auto simp: takeWhile_eq_all_conv)
  qed
  show "take (if i = n then Suc n else n) (bl[i := b]) = absorb b (take n bl)"
  proof (cases "i = n")
    case True
    then show ?thesis using m assms(1) by (simp add: absorb_def take_Suc_conv_app_nth)
  next
    case False
    have "i < length (take n bl)" using False \<open>i \<le> n\<close> l by simp
    then have "take n bl ! i = b" unfolding i using nth_length_takeWhile [of "\<lambda>x. x \<noteq> b"] by blast
    then have "bl[i := b] = bl" using False \<open>i \<le> n\<close> by (metis list_update_id nth_take le_neq_implies_less)
    then show ?thesis using False m by (simp add: absorb_def)
  qed
qed

text \<open>A process inside a transaction, with the buffers \<open>H\<close> locked.\<close>

definition txn :: "'z lstate_scheme \<Rightarrow> nat list \<Rightarrow> bool" where
  "txn s H \<longleftrightarrow> bst s H \<and> lgeo s \<and> lhdr s \<and> dirty s = Pair 1 ` set (logged s) \<and>
     1 \<le> outstanding s \<and> int LOGSIZE \<le> lg_size s"

lemma log_write_eval:
  fixes i :: nat
  assumes "bst s H" "lgeo s" "lhdr s" "lh_n s < 29" "int LOGSIZE \<le> lg_size s" "1 \<le> outstanding s"
  defines "b \<equiv> blockno (bufs s ! i)"
  defines "j \<equiv> log_index (lh_block s) (nat (lh_n s)) 0 b"
  defines "u \<equiv> s\<lparr>lh_block := (lh_block s)[j := b], lh_n := (if j = nat (lh_n s) then lh_n s + 1 else lh_n s)\<rparr>"
  shows "log_write i s = Ret () (upd_buf i (\<lambda>b. b\<lparr>bflags := bflags b OR B_DIRTY\<rparr>) u)"
proof -
  have "held s = {}" using bst_parts(5) [OF assms(1)] by (simp add: quiet_def)
  moreover have "int j = lh_n s \<longleftrightarrow> j = nat (lh_n s)" using assms(3) by (auto simp: lhdr_def)
  ultimately show ?thesis using assms(4-6)
    by (simp add: log_write_def km_simps Let_def u_def j_def b_def upd_buf_def lk_release_def)
qed

lemma log_write_ok:
  assumes tx: "txn s H" and iH: "i \<in> set H" and n: "lh_n s < 29"
    and b: "bdev (bufs s ! i) = 1" "\<not> in_log s (blockno (bufs s ! i))" "key_ok s 1 (blockno (bufs s ! i))"
  shows "\<exists>t m bl. log_write i s = Ret () t \<and> txn t H \<and> bframe (s\<lparr>lh_block := bl, lh_n := m\<rparr>) t \<and>
    logged t = absorb (blockno (bufs s ! i)) (logged s) \<and> m \<le> lh_n s + 1 \<and> blk t = blk s \<and>
    written (idev t) = written (idev s) \<and> (\<forall>j. j \<noteq> i \<longrightarrow> bufs t ! j = bufs s ! j) \<and>
    bdata (bufs t ! i) = bdata (bufs s ! i) \<and> bdev (bufs t ! i) = 1 \<and> blockno (bufs t ! i) = blockno (bufs s ! i)"
proof -
  let ?b = "blockno (bufs s ! i)"
  let ?j = "log_index (lh_block s) (nat (lh_n s)) 0 ?b"
  let ?bl = "(lh_block s)[?j := ?b]" and ?m = "if ?j = nat (lh_n s) then lh_n s + 1 else lh_n s"
  let ?u = "s\<lparr>lh_block := ?bl, lh_n := ?m\<rparr>"
  let ?t = "upd_buf i (\<lambda>b. b\<lparr>bflags := bflags b OR B_DIRTY\<rparr>) ?u"
  have g: "bst s H" "lgeo s" "lhdr s" "dirty s = Pair 1 ` set (logged s)" "1 \<le> outstanding s" "int LOGSIZE \<le> lg_size s"
    using tx by (auto simp: txn_def)
  have e: "log_write i s = Ret () ?t" by (rule log_write_eval [OF g(1-3) n g(6,5)])
  have n0: "0 \<le> lh_n s" "nat (lh_n s) < length (lh_block s)" using g(2,3) n by (auto simp: lhdr_def lgeo_def)
  note sl = log_slot [OF n0(2), of ?b]
  have "nat ?m = (if ?j = nat (lh_n s) then Suc (nat (lh_n s)) else nat (lh_n s))" using n0 by auto
  then have lg: "take (nat ?m) ?bl = absorb ?b (logged s)" using sl(2) by simp
  have u: "bst ?u H" "lgeo ?u" using g(1,2) by (simp_all add: lgeo_def)
  have hu: "lhdr ?u" using g(3) n b n0 unfolding lhdr_def by (simp add: lg) (auto simp: absorb_def)
  note p = pin_ok [OF u(1) iH]
  have f: "bframe ?u ?t" using p by blast
  have "dirty ?t = insert (1, ?b) (dirty s)" using p b by simp
  then have "dirty ?t = Pair 1 ` set (absorb ?b (logged s))" unfolding g(4) by (auto simp: absorb_def)
  moreover have "logged ?t = absorb ?b (logged s)" unfolding bframe_log(6,7) [OF f] using lg by simp
  ultimately have "txn ?t H" using p g u hu unfolding txn_def bframe_log [OF f] log_bframe [OF f] by simp
  moreover have "?m \<le> lh_n s + 1" by simp
  ultimately show ?thesis using e p f b \<open>logged ?t = _\<close>
    by (intro exI [of _ ?t] exI [of _ ?m] exI [of _ ?bl]) simp
qed

text \<open>What a logged update leaves alone: all but the cache and the in-memory header.\<close>

definition lframe :: "'z lstate_scheme \<Rightarrow> 'z lstate_scheme \<Rightarrow> bool" where
  "lframe s t \<longleftrightarrow> (\<exists>m bl. bframe (s\<lparr>lh_block := bl, lh_n := m\<rparr>) t)"

lemma bframe_lupd: "bframe s t \<Longrightarrow> bframe (s\<lparr>lh_block := bl, lh_n := m\<rparr>) (t\<lparr>lh_block := bl, lh_n := m\<rparr>)"
proof -
  assume f: "bframe s t"
  then have e: "t = s\<lparr>ptable := ptable t, slocks := slocks t, bufs := bufs t, lru := lru t, idev := idev t\<rparr>"
    by (simp add: bframe_def)
  have "t\<lparr>lh_block := bl, lh_n := m\<rparr> = s\<lparr>lh_block := bl, lh_n := m, ptable := ptable t, slocks := slocks t,
      bufs := bufs t, lru := lru t, idev := idev t\<rparr>"
    by (subst e) simp
  with f show ?thesis by (simp add: bframe_def)
qed

lemma bframe_lframe: "bframe s t \<Longrightarrow> lframe s t"
  unfolding lframe_def by (intro exI [of _ "lh_n s"] exI [of _ "lh_block s"]) simp

lemma lframe_trans: "lframe s t \<Longrightarrow> lframe t u \<Longrightarrow> lframe s u"
  unfolding lframe_def
proof (elim exE)
  fix m bl m' bl'
  assume "bframe (s\<lparr>lh_block := bl, lh_n := m\<rparr>) t" "bframe (t\<lparr>lh_block := bl', lh_n := m'\<rparr>) u"
  then have "bframe (s\<lparr>lh_block := bl', lh_n := m'\<rparr>) u"
    using bframe_lupd [of "s\<lparr>lh_block := bl, lh_n := m\<rparr>" t m' bl'] bframe_trans by fastforce
  then show "\<exists>m bl. bframe (s\<lparr>lh_block := bl, lh_n := m\<rparr>) u" by blast
qed

lemma lframe_fields:
  assumes "lframe s t"
  shows "lg_start t = lg_start s" "lg_size t = lg_size s" "outstanding t = outstanding s" "committing t = committing s"
    "lg_dev t = lg_dev s" "lstate.more t = lstate.more s" "in_log t = in_log s" "key_ok t d n = key_ok s d n"
    "cur t = cur s" "held t = held s" "memfs t = memfs s" "image (idev t) = image (idev s)"
    "\<And>l. (\<And>b. l \<noteq> SlkBuf b) \<Longrightarrow> slocks t l = slocks s l" "wakes (ptable s) (ptable t)"
proof -
  obtain m bl where f: "bframe (s\<lparr>lh_block := bl, lh_n := m\<rparr>) t" using assms by (auto simp: lframe_def)
  note l = bframe_log [OF f] log_bframe(3) [OF f] key_ok_bframe [OF f] bframe_fields [OF f]
  show "lg_start t = lg_start s" "lg_size t = lg_size s" "outstanding t = outstanding s" "committing t = committing s"
    "lg_dev t = lg_dev s" "lstate.more t = lstate.more s" "in_log t = in_log s" "key_ok t d n = key_ok s d n"
    "cur t = cur s" "held t = held s" "memfs t = memfs s" "image (idev t) = image (idev s)"
    "\<And>l. (\<And>b. l \<noteq> SlkBuf b) \<Longrightarrow> slocks t l = slocks s l" "wakes (ptable s) (ptable t)"
    using l by simp_all
qed

lemma card_dirty_txn: "txn s H \<Longrightarrow> card (dirty s) \<le> nat (lh_n s)"
proof -
  assume tx: "txn s H"
  then have "card (dirty s) \<le> card (set (logged s))" by (auto simp: txn_def intro: card_image_le)
  also have "\<dots> \<le> length (logged s)" by (rule card_length)
  also have "\<dots> \<le> nat (lh_n s)" by simp
  finally show ?thesis .
qed

lemma txn_bstep:
  assumes "txn s H" "bst t H'" "bframe s t" "dirty t = dirty s"
  shows "txn t H'"
  using assms log_bframe [OF assms(3)] bframe_log [OF assms(3)] by (simp add: txn_def)

lemma update_ok:
  assumes tx: "txn s H" and n: "lh_n s < 29" "nat (lh_n s) + length H < 30" and b: "\<not> in_log s b" "key_ok s 1 b"
    and nh: "\<forall>j \<in> set H. \<not> has_key 1 b (bufs s ! j)"
  shows "\<exists>t. bindK (bread 1 b) (\<lambda>i. thenK (bset i f) (thenK (log_write i) (brelse i))) s = Ret () t \<and> txn t H \<and>
    lframe s t \<and> blk t = put_blk (blk s) 1 b (f (blk s 1 b)) \<and> logged t = absorb b (logged s) \<and>
    written (idev t) = written (idev s) \<and> (\<forall>j \<in> set H. bufs t ! j = bufs s ! j)"
proof -
  have st: "bst s H" using tx by (simp add: txn_def)
  have room: "card (dirty s) + length H < 30" using card_dirty_txn [OF tx] n(2) by simp
  obtain i s1 where r: "bread 1 b s = Ret i s1" and p: "bread_post s H 1 b i s1"
    using bread_ok [OF st b(2) nh] room by blast
  have s1: "bst s1 (i # H)" "bdev (bufs s1 ! i) = 1" "blockno (bufs s1 ! i) = b" "bdata (bufs s1 ! i) = blk s 1 b"
    "bframe s s1" "blk s1 = blk s" "dirty s1 = dirty s" "written (idev s1) = written (idev s)"
    "\<forall>j \<in> set H. bufs s1 ! j = bufs s ! j"
    using p by (auto simp: bread_post_def same_view_def has_key_def)
  have iH: "i \<notin> set H" using bst_parts(6) [OF s1(1)] by simp
  obtain s2 where s2: "bset i f s1 = Ret () s2" "bst s2 (i # H)" "bframe s1 s2"
    "blk s2 = put_blk (blk s1) 1 b (f (blk s 1 b))" "dirty s2 = dirty s1" "written (idev s2) = written (idev s1)"
    "\<And>j. j \<noteq> i \<Longrightarrow> bufs s2 ! j = bufs s1 ! j" "bdev (bufs s2 ! i) = 1" "blockno (bufs s2 ! i) = b"
    using bset_ok [OF s1(1), of i f] s1(2-4) by (auto simp: put_blk_def)
  have f2: "bframe s s2" using s1(5) s2(3) bframe_trans by blast
  have tx2: "txn s2 (i # H)" using txn_bstep [OF tx s2(2) f2] s1(7) s2(5) by simp
  have "lh_n s2 < 29" "\<not> in_log s2 b" "key_ok s2 1 b" "logged s2 = logged s"
    using n b bframe_log [OF f2] log_bframe [OF f2] key_ok_bframe [OF f2] by simp_all
  then obtain s3 m bl where s3: "log_write i s2 = Ret () s3" "txn s3 (i # H)" "bframe (s2\<lparr>lh_block := bl, lh_n := m\<rparr>) s3"
    "logged s3 = absorb b (logged s)" "blk s3 = blk s2" "written (idev s3) = written (idev s2)"
    "\<And>j. j \<noteq> i \<Longrightarrow> bufs s3 ! j = bufs s2 ! j" "bdev (bufs s3 ! i) = 1" "blockno (bufs s3 ! i) = b"
    using log_write_ok [OF tx2, of i] s2(8,9) by auto
  have "(1, b) \<in> dirty s3" using s3(2,4) by (auto simp: txn_def absorb_def)
  then obtain t where t: "brelse i s3 = Ret () t" "bst t H" "same_view s3 t" "\<And>j. j \<noteq> i \<Longrightarrow> bufs t ! j = bufs s3 ! j"
    using brelse_ok [of s3 "i # H" i] s3(2,8,9) by (auto simp: txn_def)
  have f4: "bframe s3 t" using t(3) by (simp add: same_view_def)
  have "txn t H" using txn_bstep [OF s3(2) t(2) f4] t(3) by (simp add: same_view_def)
  moreover have "lframe s t"
    using bframe_lframe [OF f2] s3(3) bframe_lframe [OF f4] lframe_trans unfolding lframe_def by metis
  moreover have "logged t = absorb b (logged s)" using s3(4) bframe_log [OF f4] by simp
  moreover have "\<forall>j \<in> set H. bufs t ! j = bufs s ! j" using t(4) s3(7) s2(7) s1(9) iH by metis
  ultimately show ?thesis using r s2(1,4,6) s3(1,5,6) t(1,3) s1(6,8) by (simp add: km_simps same_view_def)
qed

lemma dsk_lock_upd [simp]: "dsk (s\<lparr>outstanding := k\<rparr>) = dsk s" "dsk (s\<lparr>committing := c\<rparr>) = dsk s"
  by (auto simp: dsk_def disk_def fun_eq_iff)

lemma lock_upd_simps [simp]:
  "bst (s\<lparr>outstanding := k\<rparr>) H = bst s H" "bst (s\<lparr>committing := c\<rparr>) H = bst s H"
  "blk (s\<lparr>outstanding := k\<rparr>) = blk s" "blk (s\<lparr>committing := c\<rparr>) = blk s"
  "dirty (s\<lparr>outstanding := k\<rparr>) = dirty s" "dirty (s\<lparr>committing := c\<rparr>) = dirty s"
  "in_log (s\<lparr>outstanding := k\<rparr>) = in_log s" "in_log (s\<lparr>committing := c\<rparr>) = in_log s"
  "key_ok (s\<lparr>outstanding := k\<rparr>) = key_ok s" "key_ok (s\<lparr>committing := c\<rparr>) = key_ok s"
  by (auto simp: bst_def binv_def quiet_def mine_def curpid_def blk_def dirty_def key_ok_def in_log_def
      fun_eq_iff)

lemma ltx_upd [simp]: "ltx (s\<lparr>outstanding := k\<rparr>) = ltx s" "ltx (s\<lparr>committing := c\<rparr>) = ltx s"
  by (simp_all add: ltx_def lgeo_def lhdr_def)

lemma writes_upd [simp]:
  "commit_writes (s\<lparr>outstanding := k\<rparr>) = commit_writes s" "commit_writes (s\<lparr>committing := c\<rparr>) = commit_writes s"
  by (simp_all add: commit_writes_def log_writes_def home_writes_def full_head_def empty_head_def)

lemma commit_files:
  assumes tx: "ltx s"
  shows "same_files s (apply_w (dsk s) (commit_writes s)) (blk s)" "same_files s (apply_w (blk s) (commit_writes s)) (blk s)"
proof -
  have *: "same_files s (apply_w f (commit_writes s)) (blk s)" if f: "\<And>x. x \<notin> set (logged s) \<Longrightarrow> f 1 x = dsk s 1 x" for f
  proof -
    let ?f = "put_blk (apply_w f (log_writes s)) 1 (lg_start s) (full_head s)"
    have "?f 1 x = dsk s 1 x" if "\<not> in_log s x" "x \<notin> set (logged s)" for x
      using same_files_head [of s "apply_w f (log_writes s)" "full_head s"] log_area_reads(3) [OF tx that(1)] that f
      unfolding same_files_def by auto
    then have "same_files s (apply_w ?f (home_writes s)) (blk s)" using home_installed [OF tx] by blast
    then show ?thesis using same_files_trans [OF same_files_head] by (simp add: commit_writes_def apply_w_append)
  qed
  show "same_files s (apply_w (dsk s) (commit_writes s)) (blk s)" by (rule *) simp
  show "same_files s (apply_w (blk s) (commit_writes s)) (blk s)" by (rule *) (rule blk_unlogged [OF tx])
qed

lemma bst_woken:
  fixes c :: chan
  assumes "bst s H"
  defines "t \<equiv> s\<lparr>ptable := map (wakeup_proc c) (ptable s)\<rparr>"
  shows "bst t H" "blk t = blk s" "dirty t = dirty s" "dsk t = dsk s"
proof -
  have "bframe s t" unfolding bframe_def t_def by (simp add: wakes_wakeup)
  then have q: "quiet t" "curpid t = curpid s" using quiet_bframe bst_parts(5) [OF assms(1)] by blast+
  show d: "dsk t = dsk s" by (rule disk_cong) (simp_all add: t_def)
  show "blk t = blk s" "dirty t = dirty s" using d by (simp_all add: blk_def [abs_def] dirty_def t_def)
  show "bst t H" using assms(1) q d by (simp add: bst_def binv_def mine_def t_def)
qed

lemma end_op_commits:
  assumes tx: "ltx s" and o: "outstanding s = 1" "\<not> committing s" and n: "0 < lh_n s"
  shows "\<exists>t. end_op s = Ret () t \<and> bst t [] \<and> outstanding t = 0 \<and> \<not> committing t \<and> lh_n t = 0 \<and> dirty t = {} \<and>
    written (idev t) = written (idev s) @ commit_writes s \<and> same_files s (dsk t) (blk s) \<and> same_files s (blk t) (blk s) \<and>
    bframe (s\<lparr>outstanding := 0, lh_n := 0\<rparr>) t"
proof -
  let ?s = "s\<lparr>outstanding := 0, committing := True\<rparr>"
  have h: "held s = {}" using tx bst_parts(8) by (auto simp: ltx_def)
  obtain t where t: "commit ?s = Ret () t" "bst t []"
    "bstep (?s\<lparr>lh_n := 0\<rparr>) t (apply_w (blk s) (commit_writes s)) (commit_writes s) {}"
    using commit_ok [of ?s] tx n by auto
  have f: "bframe (?s\<lparr>lh_n := 0\<rparr>) t" using t(3) by (simp add: bstep_def)
  note l = bframe_log [OF f] bframe_fields(1,17) [OF f]
  let ?t = "t\<lparr>committing := False\<rparr>"
  let ?u = "?t\<lparr>ptable := map (wakeup_proc ChLog) (ptable ?t)\<rparr>"
  have st: "bst ?t []" using t(2) by simp
  note w = bst_woken [OF st, of ChLog]
  have d: "dsk t = apply_w (dsk s) (commit_writes s)"
    using dsk_writes [of t "?s\<lparr>lh_n := 0\<rparr>"] t(3) l by (simp add: bstep_def)
  have e: "s\<lparr>outstanding := 0, committing := True, held := {}\<rparr> = ?s" "?u\<lparr>held := {}\<rparr> = ?u"
    using h l by (simp_all add: lstate.equality)
  have "end_op s = Ret () ?u"
    using o h l t(1) by (simp add: e end_op_def km_simps Let_def lk_defs)
  moreover have "written (idev ?u) = written (idev s) @ commit_writes s" "dirty ?u = {}" "blk ?u = apply_w (blk s) (commit_writes s)"
    using t(3) w by (simp_all add: bstep_def)
  moreover have "bframe (s\<lparr>outstanding := 0, lh_n := 0\<rparr>) ?u"
  proof -
    have t: "t = ?s\<lparr>lh_n := 0, ptable := ptable t, slocks := slocks t, bufs := bufs t, lru := lru t, idev := idev t\<rparr>"
      using f by (simp add: bframe_def)
    have "?u = s\<lparr>outstanding := 0, lh_n := 0, ptable := ptable ?u, slocks := slocks ?u, bufs := bufs ?u, lru := lru ?u, idev := idev ?u\<rparr>"
      by (subst t) (use o(2) in simp)
    moreover have "wakes (ptable s) (ptable ?u)"
      using bframe_fields(15) [OF f] wakes_trans [OF _ wakes_wakeup] by simp
    ultimately show ?thesis using bframe_fields(16-18) [OF f] by (simp add: bframe_def)
  qed
  ultimately show ?thesis using w l d commit_files [OF tx] by (intro exI [of _ ?u]) simp
qed

text \<open>Ending the last operation, whether it logged anything or not.\<close>

lemma end_op_ok:
  assumes tx: "ltx s" and o: "outstanding s = 1" "\<not> committing s"
  shows "\<exists>t. end_op s = Ret () t \<and> bst t [] \<and> dirty t = {} \<and> bframe (s\<lparr>outstanding := 0, lh_n := 0\<rparr>) t \<and> same_files s (blk t) (blk s)"
proof (cases "0 < lh_n s")
  case True
  then show ?thesis using end_op_commits [OF assms] by blast
next
  case False
  then have n: "lh_n s = 0" using tx by (simp add: ltx_def lhdr_def)
  have h: "held s = {}" using tx bst_parts(8) by (auto simp: ltx_def)
  let ?s = "s\<lparr>outstanding := 0\<rparr>"
  let ?u = "?s\<lparr>ptable := map (wakeup_proc ChLog) (ptable s)\<rparr>"
  have st: "bst ?s []" using tx by (simp add: ltx_def)
  note w = bst_woken [OF st, of ChLog]
  have e: "s\<lparr>outstanding := 0, committing := False, ptable := map (wakeup_proc ChLog) (ptable s), held := {}\<rparr> = ?u"
    using h o(2) by (simp add: lstate.equality)
  have "end_op s = Ret () ?u"
    using o h n e by (simp add: end_op_def commit_def km_simps Let_def lk_defs)
  moreover have "dirty ?u = {}" using w tx n by (simp add: ltx_def)
  moreover have "bframe (s\<lparr>outstanding := 0, lh_n := 0\<rparr>) ?u" using n by (simp add: bframe_def wakes_wakeup)
  moreover have "same_files s (blk ?u) (blk s)" using w by (simp add: same_files_def)
  ultimately show ?thesis using w by (intro exI [of _ ?u]) simp
qed

text \<open>
  C1. Crash safety of a commit. Let the last operation of a transaction end: \<open>end_op\<close> returns with the
  logged blocks written, and if the machine stops after any number of the writes it issued, in
  their order, recovery at the next boot succeeds and leaves either all of the file system's blocks
  as they were on the disk before, or all of them as the transaction left them in the cache.
\<close>

theorem commit_crash_safe:
  assumes "ltx s" "outstanding s = 1" "\<not> committing s" "0 < lh_n s"
    and "length (dsk s 1 (lg_start s)) = 512" "sint (get32 (dsk s 1 (lg_start s)) 0) = 0"
  shows "\<exists>t ws. end_op s = Ret () t \<and> written (idev t) = written (idev s) @ ws \<and> same_files s (dsk t) (blk s) \<and>
    (\<forall>k r. rebooted s (take k ws) r \<longrightarrow>
      (\<exists>u. recover_from_log r = Ret () u \<and> dirty u = {} \<and> lh_n u = 0 \<and>
         (same_files s (dsk u) (dsk s) \<or> same_files s (dsk u) (blk s))))"
proof -
  have "\<exists>u. recover_from_log r = Ret () u \<and> dirty u = {} \<and> lh_n u = 0 \<and> (same_files s (dsk u) (dsk s) \<or> same_files s (dsk u) (blk s))"
    if r: "rebooted s (take k (commit_writes s)) r" for k r
  proof -
    consider "k \<le> nat (lh_n s)" | "nat (lh_n s) < k" "k \<le> 2 * nat (lh_n s) + 1" | "2 * nat (lh_n s) + 1 < k" by linarith
    then show ?thesis using crash_old [OF assms(1) _ assms(6) r] crash_mid [OF assms(1) _ _ assms(5) r]
      crash_end [OF assms(1) _ assms(5) r] by cases blast+
  qed
  moreover obtain t where "end_op s = Ret () t" "written (idev t) = written (idev s) @ commit_writes s" "same_files s (dsk t) (blk s)"
    using end_op_commits [OF assms(1-4)] by blast
  ultimately show ?thesis by (intro exI [of _ t] exI [of _ "commit_writes s"]) blast
qed

text \<open>
  C8. A write inside a transaction: the block read, changed, handed to \<open>log_write\<close> and released has the new
  contents for every later reader, is recorded once in the log header however often it is written, and
  no write reaches the disk before the commit.
\<close>

theorem log_write_absorbs:
  assumes "txn s []" "lh_n s < 28" "\<not> in_log s b" "key_ok s 1 b"
  shows "\<exists>t u. bindK (bread 1 b) (\<lambda>i. thenK (bset i f) (thenK (log_write i) (brelse i))) s = Ret () t \<and>
    bindK (bread 1 b) (\<lambda>i. thenK (bset i g) (thenK (log_write i) (brelse i))) t = Ret () u \<and>
    blk u = (blk s)(1 := (blk s 1)(b := g (f (blk s 1 b)))) \<and> dsk u = dsk s \<and>
    logged u = (if b \<in> set (logged s) then logged s else logged s @ [b])"
proof -
  have n: "lh_n s < 29" "nat (lh_n s) + length ([] :: nat list) < 30" "\<forall>j \<in> set ([] :: nat list). \<not> has_key 1 b (bufs s ! j)"
    using assms(2) by auto
  obtain t where t: "bindK (bread 1 b) (\<lambda>i. thenK (bset i f) (thenK (log_write i) (brelse i))) s = Ret () t" "txn t []"
    "lframe s t" "blk t = put_blk (blk s) 1 b (f (blk s 1 b))" "logged t = absorb b (logged s)"
    "written (idev t) = written (idev s)"
    using update_ok [OF assms(1) n(1,2) assms(3,4) n(3), of f] by blast
  note lt = lframe_fields [OF t(3)]
  have "length (logged t) \<le> Suc (length (logged s))" using t(5) by (simp add: absorb_def)
  moreover have "length (logged t) = nat (lh_n t)" "length (logged s) = nat (lh_n s)" "0 \<le> lh_n t"
    using t(2) assms(1) by (auto simp: txn_def lhdr_def lgeo_def)
  ultimately have m: "lh_n t < 29" "nat (lh_n t) + length ([] :: nat list) < 30" using assms(2) by auto
  obtain u where u: "bindK (bread 1 b) (\<lambda>i. thenK (bset i g) (thenK (log_write i) (brelse i))) t = Ret () u"
    "lframe t u" "blk u = put_blk (blk t) 1 b (g (blk t 1 b))" "logged u = absorb b (logged t)"
    "written (idev u) = written (idev t)"
    using update_ok [OF t(2) m, of b g] assms(3,4) lt by auto
  have "dsk u = dsk s" using dsk_writes [of u s "[]"] u(5) t(6) lframe_fields(12) [OF u(2)] lt(12) by simp
  then show ?thesis using t u by (intro exI [of _ t] exI [of _ u]) (auto simp: absorb_def put_blk_def)
qed

definition demo_log :: lstate where
  "demo_log = bstate.extend demo_ready (lstate.fields 2 30 1 False 1 0 (replicate 30 0))"

lemma demo_log_txn: "txn demo_log []" "lh_n demo_log = 0" "lg_start demo_log = 2" "outstanding demo_log = 1" "\<not> committing demo_log"
  "\<not> in_log demo_log 40" "key_ok demo_log 1 40"
  "length (dsk demo_log 1 2) = 512" "get32 (dsk demo_log 1 2) 0 = 0"
proof -
  have e: "bufs demo_log = bufs demo_ready" "lru demo_log = lru demo_ready" "idev demo_log = idev demo_ready"
    "slocks demo_log = slocks demo_ready" "held demo_log = held demo_ready" "cur demo_log = cur demo_ready"
    "ptable demo_log = ptable demo_ready" "idequeue demo_log = idequeue demo_ready" "memfs demo_log = memfs demo_ready"
    "disksize demo_log = disksize demo_ready" "havedisk1 demo_log = havedisk1 demo_ready"
    by (simp_all add: demo_log_def bstate.defs lstate.defs)
  show l: "lh_n demo_log = 0" "lg_start demo_log = 2" "outstanding demo_log = 1" "\<not> committing demo_log"
    by (simp_all add: demo_log_def bstate.defs lstate.defs)
  have m: "lg_size demo_log = 30" "lg_dev demo_log = 1" "lh_block demo_log = replicate 30 0"
    by (simp_all add: demo_log_def bstate.defs lstate.defs)
  have d: "dsk demo_log = dsk demo_ready" by (auto simp: dsk_def disk_def fun_eq_iff e)
  have "bst demo_log []" using demo_ready_bst(1) by (simp add: bst_def binv_def quiet_def mine_def curpid_def e d)
  moreover have "dirty demo_log = {}" using demo_ready_bst(2) by (simp add: dirty_def e)
  moreover have k: "key_ok demo_log 1 x" if "unat x < 1000" for x
    using that by (simp add: key_ok_def e demo_ready_def demo_cache_def demo_bstate_def word_less_nat_alt)
  moreover show "key_ok demo_log 1 40" by (rule k) simp
  show "\<not> in_log demo_log 40" by (simp add: in_log_def l)
  ultimately show "txn demo_log []"
    by (auto simp: txn_def lgeo_def lhdr_def in_log_def l m)
  show "length (dsk demo_log 1 2) = 512" "get32 (dsk demo_log 1 2) 0 = 0"
    by (simp_all add: d dsk_def disk_def platter_def demo_ready_def demo_cache_def demo_bstate_def demo_dev_def get32_def)
qed

theorem commit_crash_safe_witness: "\<exists>s t ws. 0 < lh_n s \<and> dirty s = {(1, 40)} \<and> end_op (s :: lstate) = Ret () t \<and> same_files s (dsk t) (blk s) \<and>
    (\<forall>k r. rebooted s (take k ws) r \<longrightarrow> (\<exists>u. recover_from_log r = Ret () u))"
proof -
  have "\<exists>t. bindK (bread 1 40) (\<lambda>i. thenK (bset i rev) (thenK (log_write i) (brelse i))) demo_log = Ret () t \<and> txn t [] \<and>
    lframe demo_log t \<and> blk t = put_blk (blk demo_log) 1 40 (rev (blk demo_log 1 40)) \<and> logged t = absorb 40 (logged demo_log) \<and>
    written (idev t) = written (idev demo_log) \<and> (\<forall>j \<in> set []. bufs t ! j = bufs demo_log ! j)"
    by (rule update_ok [OF demo_log_txn(1) _ _ demo_log_txn(6,7)]) (simp_all add: demo_log_txn(2))
  then obtain s where s: "txn s []" "lframe demo_log s" "logged s = [40]" "written (idev s) = written (idev demo_log)"
    by (auto simp: demo_log_txn(2) absorb_def)
  note l = lframe_fields [OF s(2)]
  have d: "dsk s = dsk demo_log" using dsk_writes [of s demo_log "[]"] s(4) l(12) by simp
  have n: "0 < lh_n s" using s(3) by (cases "0 < lh_n s") auto
  have x: "ltx s" "outstanding s = 1" "\<not> committing s" "dirty s = {(1, 40)}"
    using s(1,3) l demo_log_txn(4,5) by (auto simp: ltx_def txn_def)
  have y: "length (dsk s 1 (lg_start s)) = 512" "sint (get32 (dsk s 1 (lg_start s)) 0) = 0"
    using demo_log_txn(8,9) unfolding d l(1) demo_log_txn(3) by simp_all
  from commit_crash_safe [OF x(1-3) n y] n x(4) show ?thesis by meson
qed

theorem log_write_absorbs_witness:
  "\<exists>t u. bindK (bread 1 40) (\<lambda>i. thenK (bset i rev) (thenK (log_write i) (brelse i))) demo_log = Ret () t \<and>
    bindK (bread 1 40) (\<lambda>i. thenK (bset i rev) (thenK (log_write i) (brelse i))) t = Ret () u \<and> logged u = [40]"
  using log_write_absorbs [OF demo_log_txn(1) _ demo_log_txn(6,7), of rev rev] demo_log_txn(2) by auto

text \<open>
  C18. The reservation is one block too generous: on an idle log of thirty blocks three operations are
  admitted at once, which may write ten blocks each, yet with twenty-nine blocks logged every further
  \<open>log_write\<close> panics, because the header takes one block of the log.
\<close>

theorem log_overcommit:
  assumes "quiet s" "\<not> committing s" "lh_n s = 0" "outstanding s = 0" "lg_size s = 30"
  shows "\<exists>t. thenK begin_op (thenK begin_op begin_op) s = Ret () t \<and> outstanding t * 10 = 30 \<and>
    log_write b (t\<lparr>lh_n := 29\<rparr>) = Panic ''too big a transaction''"
proof -
  have h: "held s = {}" using assms(1) by (simp add: quiet_def)
  have e: "s\<lparr>outstanding := k, held := {}\<rparr> = s\<lparr>outstanding := k\<rparr>" for k
    using h by (simp add: lstate.equality)
  show ?thesis using assms h by (simp add: begin_op_def log_write_def km_simps lk_defs e)
qed

theorem log_overcommit_witness:
  "\<exists>t. thenK begin_op (thenK begin_op begin_op) (demo_log\<lparr>outstanding := 0\<rparr>) = Ret () t \<and>
    log_write 0 (t\<lparr>lh_n := 29\<rparr>) = Panic ''too big a transaction''"
proof -
  have "quiet (demo_log\<lparr>outstanding := 0\<rparr>)" "lg_size (demo_log\<lparr>outstanding := 0\<rparr>) = 30"
    using demo_log_txn(1) by (simp_all add: txn_def bst_def quiet_def demo_log_def bstate.defs lstate.defs)
  then show ?thesis using log_overcommit [of "demo_log\<lparr>outstanding := 0\<rparr>" 0] demo_log_txn(2,5) by auto
qed

end
