(* ===== verification/Fs.thy ===== *)
theory Fs
  imports Log
begin

text \<open>
  \<open>fs.c\<close>: block allocator, inodes, file contents, directories, path names, and the raw block
  transfers of \<open>swapread\<close> and \<open>swapwrite\<close>.
\<close>

section \<open>State\<close>

text \<open>
  \<open>struct inode\<close> of \<open>file.h\<close> without its sleep lock, which is \<open>SlkInode i\<close> for entry \<open>i\<close> of the
  inode cache. A \<open>struct inode *\<close> is the index of the entry, 0 is \<open>None\<close>.
\<close>

record inode =
  i_dev :: u32
  inum :: u32
  iref :: int
  ivalid :: bool
  itype :: u16
  imajor :: u16
  iminor :: u16
  nlink :: u16
  isize :: u32
  addrs :: "u32 list"

record istate = lstate +
  sb :: superblock
  inodes :: "inode list"

text \<open>
  \<open>struct devsw\<close>: the device functions of a major number. A read gives the count it returns and the
  bytes it stores at the destination.
\<close>

record 's devsw =
  dread :: "(nat \<Rightarrow> u32 \<Rightarrow> ('s, int \<times> u8 list) km) option"
  dwrite :: "(nat \<Rightarrow> u8 list \<Rightarrow> ('s, int) km) option"

record stat =
  st_type :: u16
  st_dev :: u32
  st_ino :: u32
  st_nlink :: u16
  st_size :: u32

abbreviation (input) ino :: "nat \<Rightarrow> 'z istate_scheme \<Rightarrow> inode" where
  "ino i s \<equiv> inodes s ! i"

definition upd_ino :: "nat \<Rightarrow> (inode \<Rightarrow> inode) \<Rightarrow> 'z istate_scheme \<Rightarrow> 'z istate_scheme" where
  "upd_ino i f s = s\<lparr>inodes := (inodes s)[i := f (inodes s ! i)]\<rparr>"

section \<open>Blocks\<close>

definition bzero :: "u32 \<Rightarrow> u32 \<Rightarrow> ('z istate_scheme, unit) km" where
  "bzero dev bno = bindK (bread dev bno) (\<lambda>bp.
     thenK (bset bp (\<lambda>d. replicate BSIZE 0)) (thenK (log_write bp) (brelse bp)))"

definition bit_mask :: "nat \<Rightarrow> u8" where
  "bit_mask bi = push_bit (bi mod 8) 1"

definition bit_free :: "u8 list \<Rightarrow> nat \<Rightarrow> bool" where
  "bit_free d bi \<longleftrightarrow> d ! (bi div 8) AND bit_mask bi = 0"

definition mark_used :: "nat \<Rightarrow> u8 list \<Rightarrow> u8 list" where
  "mark_used bi d = d[bi div 8 := d ! (bi div 8) OR bit_mask bi]"

definition mark_free :: "nat \<Rightarrow> u8 list \<Rightarrow> u8 list" where
  "mark_free bi d = d[bi div 8 := d ! (bi div 8) AND NOT (bit_mask bi)]"

fun find_free :: "u8 list \<Rightarrow> nat \<Rightarrow> nat \<Rightarrow> nat option" where
  "find_free d 0 bi = None"
| "find_free d (Suc k) bi = (if bit_free d bi then Some bi else find_free d k (Suc bi))"

fun balloc_loop :: "nat \<Rightarrow> u32 \<Rightarrow> nat \<Rightarrow> ('z istate_scheme, u32) km" where
  "balloc_loop 0 dev b = panicK ''balloc: out of blocks''"
| "balloc_loop (Suc k) dev b = bindK (getK sb) (\<lambda>sb.
     bindK (bread dev (BBLOCK (of_nat b) sb)) (\<lambda>bp.
     bindK (getK (\<lambda>s. bdata (bufs s ! bp))) (\<lambda>d.
     case find_free d (min BPB (unat (sb_size sb) - b)) 0 of
       Some bi \<Rightarrow>
         thenK (bset bp (mark_used bi))
        (thenK (log_write bp)
        (thenK (brelse bp)
        (thenK (bzero dev (of_nat (b + bi)))
         (retK (of_nat (b + bi))))))
     | None \<Rightarrow> thenK (brelse bp) (balloc_loop k dev (b + BPB)))))"

definition balloc :: "u32 \<Rightarrow> ('z istate_scheme, u32) km" where
  "balloc dev = bindK (getK sb) (\<lambda>sb. balloc_loop ((unat (sb_size sb) + (BPB - 1)) div BPB) dev 0)"

definition bfree :: "u32 \<Rightarrow> u32 \<Rightarrow> ('z istate_scheme, unit) km" where
  "bfree dev b = bindK (getK sb) (\<lambda>sb. bindK (bread dev (BBLOCK b sb)) (\<lambda>bp.
     let bi = unat b mod BPB in
     bindK (getK (\<lambda>s. bdata (bufs s ! bp))) (\<lambda>d.
     thenK (assertK (\<not> bit_free d bi) ''freeing free block'')
    (thenK (bset bp (mark_free bi))
    (thenK (log_write bp) (brelse bp))))))"

section \<open>Inodes\<close>

text \<open>\<open>struct dinode\<close> at its offset in an inode block: four shorts, the size, thirteen addresses.\<close>

definition dinode_off :: "u32 \<Rightarrow> nat" where
  "dinode_off n = unat n mod IPB * 64"

definition get_dinode :: "u8 list \<Rightarrow> nat \<Rightarrow> inode \<Rightarrow> inode" where
  "get_dinode d o' ip = ip\<lparr>itype := get16 d o', imajor := get16 d (o' + 2), iminor := get16 d (o' + 4),
     nlink := get16 d (o' + 6), isize := get32 d (o' + 8),
     addrs := map (\<lambda>j. get32 d (o' + 12 + 4 * j)) [0..<NDIRECT + 1]\<rparr>"

fun put_addrs :: "nat \<Rightarrow> u32 list \<Rightarrow> u8 list \<Rightarrow> u8 list" where
  "put_addrs o' [] d = d"
| "put_addrs o' (a # as) d = put_addrs (o' + 4) as (put32 d o' a)"

definition put_dinode :: "inode \<Rightarrow> nat \<Rightarrow> u8 list \<Rightarrow> u8 list" where
  "put_dinode ip o' d = put_addrs (o' + 12) (addrs ip)
     (put32 (put16 (put16 (put16 (put16 d o' (itype ip)) (o' + 2) (imajor ip)) (o' + 4) (iminor ip))
       (o' + 6) (nlink ip)) (o' + 8) (isize ip))"

definition clear_dinode :: "nat \<Rightarrow> u16 \<Rightarrow> u8 list \<Rightarrow> u8 list" where
  "clear_dinode o' ty d = put16 (take o' d @ replicate 64 0 @ drop (o' + 64) d) o' ty"

fun iinit_loop :: "nat \<Rightarrow> nat \<Rightarrow> ('z istate_scheme, unit) km" where
  "iinit_loop 0 i = retK ()"
| "iinit_loop (Suc k) i = thenK (initsleeplock (SlkInode i)) (iinit_loop k (Suc i))"

definition iinit :: "u32 \<Rightarrow> ('z istate_scheme, unit) km" where
  "iinit dev = thenK (modK (\<lambda>s. s\<lparr>held := held s - {LkIcache}\<rparr>))
    (thenK (iinit_loop NINODE 0)
    (bindK (readsb dev) (\<lambda>sb'. modK (\<lambda>s. s\<lparr>sb := sb'\<rparr>))))"

text \<open>
  The scan of \<open>iget\<close>: the first entry in use for the inode, and the first free one before it.
\<close>

fun iget_scan :: "inode list \<Rightarrow> nat \<Rightarrow> u32 \<Rightarrow> u32 \<Rightarrow> nat option \<Rightarrow> nat option \<times> nat option" where
  "iget_scan [] i dev n emp = (None, emp)"
| "iget_scan (ip # ips) i dev n emp =
     (if iref ip > 0 \<and> i_dev ip = dev \<and> inum ip = n then (Some i, emp)
      else iget_scan ips (Suc i) dev n (if emp = None \<and> iref ip = 0 then Some i else emp))"

definition iget :: "u32 \<Rightarrow> u32 \<Rightarrow> ('z istate_scheme, nat) km" where
  "iget dev n = thenK (lk_acquire LkIcache) (bindK (getK inodes) (\<lambda>ips.
     case iget_scan ips 0 dev n None of
       (Some i, _) \<Rightarrow>
         thenK (modK (upd_ino i (\<lambda>ip. ip\<lparr>iref := iref ip + 1\<rparr>)))
        (thenK (lk_release LkIcache) (retK i))
     | (None, None) \<Rightarrow> panicK ''iget: no inodes''
     | (None, Some i) \<Rightarrow>
         thenK (modK (upd_ino i (\<lambda>ip. ip\<lparr>i_dev := dev, inum := n, iref := 1, ivalid := False\<rparr>)))
        (thenK (lk_release LkIcache) (retK i))))"

definition idup :: "nat \<Rightarrow> ('z istate_scheme, nat) km" where
  "idup i = thenK (lk_acquire LkIcache)
    (thenK (modK (upd_ino i (\<lambda>ip. ip\<lparr>iref := iref ip + 1\<rparr>)))
    (thenK (lk_release LkIcache) (retK i)))"

fun ialloc_loop :: "nat \<Rightarrow> u32 \<Rightarrow> u16 \<Rightarrow> u32 \<Rightarrow> ('z istate_scheme, nat) km" where
  "ialloc_loop 0 dev ty n = panicK ''ialloc: no inodes''"
| "ialloc_loop (Suc k) dev ty n = bindK (getK sb) (\<lambda>sb. bindK (bread dev (IBLOCK n sb)) (\<lambda>bp.
     bindK (getK (\<lambda>s. bdata (bufs s ! bp))) (\<lambda>d.
     if get16 d (dinode_off n) = 0 then
       thenK (bset bp (clear_dinode (dinode_off n) ty))
      (thenK (log_write bp)
      (thenK (brelse bp) (iget dev n)))
     else thenK (brelse bp) (ialloc_loop k dev ty (n + 1)))))"

definition ialloc :: "u32 \<Rightarrow> u16 \<Rightarrow> ('z istate_scheme, nat) km" where
  "ialloc dev ty = bindK (getK sb) (\<lambda>sb. ialloc_loop (unat (sb_ninodes sb) - 1) dev ty 1)"

definition iupdate :: "nat \<Rightarrow> ('z istate_scheme, unit) km" where
  "iupdate i = bindK (getK sb) (\<lambda>sb. bindK (getK (ino i)) (\<lambda>ip.
     bindK (bread (i_dev ip) (IBLOCK (inum ip) sb)) (\<lambda>bp.
     thenK (bset bp (put_dinode ip (dinode_off (inum ip))))
    (thenK (log_write bp) (brelse bp)))))"

definition ilock :: "nat option \<Rightarrow> ('z istate_scheme, unit) km" where
  "ilock ip = (case ip of None \<Rightarrow> panicK ''ilock'' | Some i \<Rightarrow>
     bindK (getK (ino i)) (\<lambda>ip. thenK (assertK (\<not> iref ip < 1) ''ilock'')
    (thenK (acquiresleep (SlkInode i))
    (bindK (getK (ino i)) (\<lambda>ip. whenK (\<not> ivalid ip)
      (bindK (getK sb) (\<lambda>sb. bindK (bread (i_dev ip) (IBLOCK (inum ip) sb)) (\<lambda>bp.
       bindK (getK (\<lambda>s. bdata (bufs s ! bp))) (\<lambda>d.
       thenK (modK (upd_ino i (get_dinode d (dinode_off (inum ip)))))
      (thenK (brelse bp)
      (thenK (modK (upd_ino i (\<lambda>ip. ip\<lparr>ivalid := True\<rparr>)))
      (bindK (getK (ino i)) (\<lambda>ip. assertK (itype ip \<noteq> 0) ''ilock: no type'')))))))))))))"

definition iunlock :: "nat option \<Rightarrow> ('z istate_scheme, unit) km" where
  "iunlock ip = (case ip of None \<Rightarrow> panicK ''iunlock'' | Some i \<Rightarrow>
     bindK (holdingsleep (SlkInode i)) (\<lambda>h. bindK (getK (ino i)) (\<lambda>ip.
     thenK (assertK (\<not> (\<not> h \<or> iref ip < 1)) ''iunlock'')
     (releasesleep (SlkInode i)))))"

section \<open>Inode contents\<close>

definition bmap :: "nat \<Rightarrow> u32 \<Rightarrow> ('z istate_scheme, u32) km" where
  "bmap i bn = bindK (getK (ino i)) (\<lambda>ip.
     if bn < of_nat NDIRECT then
       (let addr = addrs ip ! unat bn in
        if addr = 0 then bindK (balloc (i_dev ip)) (\<lambda>addr.
          thenK (modK (upd_ino i (\<lambda>ip. ip\<lparr>addrs := (addrs ip)[unat bn := addr]\<rparr>))) (retK addr))
        else retK addr)
     else let bn = bn - of_nat NDIRECT in
     if bn < of_nat NINDIRECT then
       bindK (let addr = addrs ip ! NDIRECT in
          if addr = 0 then bindK (balloc (i_dev ip)) (\<lambda>addr.
            thenK (modK (upd_ino i (\<lambda>ip. ip\<lparr>addrs := (addrs ip)[NDIRECT := addr]\<rparr>))) (retK addr))
          else retK addr) (\<lambda>addr.
       bindK (bread (i_dev ip) addr) (\<lambda>bp.
       bindK (getK (\<lambda>s. bdata (bufs s ! bp))) (\<lambda>a.
       bindK (let addr = get32 a (4 * unat bn) in
          if addr = 0 then bindK (balloc (i_dev ip)) (\<lambda>addr.
            thenK (bset bp (\<lambda>a. put32 a (4 * unat bn) addr)) (thenK (log_write bp) (retK addr)))
          else retK addr) (\<lambda>addr.
       thenK (brelse bp) (retK addr)))))
     else panicK ''bmap: out of range'')"

fun trunc_direct :: "nat \<Rightarrow> nat \<Rightarrow> nat \<Rightarrow> ('z istate_scheme, unit) km" where
  "trunc_direct ip 0 i = retK ()"
| "trunc_direct ip (Suc k) i = bindK (getK (ino ip)) (\<lambda>n.
     thenK (whenK (addrs n ! i \<noteq> 0)
       (thenK (bfree (i_dev n) (addrs n ! i))
        (modK (upd_ino ip (\<lambda>n. n\<lparr>addrs := (addrs n)[i := 0]\<rparr>)))))
     (trunc_direct ip k (Suc i)))"

fun trunc_indirect :: "u32 \<Rightarrow> nat \<Rightarrow> nat \<Rightarrow> nat \<Rightarrow> ('z istate_scheme, unit) km" where
  "trunc_indirect dev bp 0 j = retK ()"
| "trunc_indirect dev bp (Suc k) j = bindK (getK (\<lambda>s. get32 (bdata (bufs s ! bp)) (4 * j))) (\<lambda>a.
     thenK (whenK (a \<noteq> 0) (bfree dev a)) (trunc_indirect dev bp k (Suc j)))"

definition itrunc :: "nat \<Rightarrow> ('z istate_scheme, unit) km" where
  "itrunc i = thenK (trunc_direct i NDIRECT 0) (bindK (getK (ino i)) (\<lambda>ip.
     thenK (whenK (addrs ip ! NDIRECT \<noteq> 0)
       (bindK (bread (i_dev ip) (addrs ip ! NDIRECT)) (\<lambda>bp.
        thenK (trunc_indirect (i_dev ip) bp NINDIRECT 0)
       (thenK (brelse bp)
       (thenK (bfree (i_dev ip) (addrs ip ! NDIRECT))
        (modK (upd_ino i (\<lambda>ip. ip\<lparr>addrs := (addrs ip)[NDIRECT := 0]\<rparr>))))))))
    (thenK (modK (upd_ino i (\<lambda>ip. ip\<lparr>isize := 0\<rparr>)))
     (iupdate i))))"

definition iput :: "nat \<Rightarrow> ('z istate_scheme, unit) km" where
  "iput i = thenK (acquiresleep (SlkInode i)) (bindK (getK (ino i)) (\<lambda>ip.
     thenK (whenK (ivalid ip \<and> nlink ip = 0)
       (thenK (lk_acquire LkIcache)
       (bindK (getK (\<lambda>s. iref (ino i s))) (\<lambda>r.
        thenK (lk_release LkIcache)
        (whenK (r = 1)
          (thenK (itrunc i)
          (thenK (modK (upd_ino i (\<lambda>ip. ip\<lparr>itype := 0\<rparr>)))
          (thenK (iupdate i)
           (modK (upd_ino i (\<lambda>ip. ip\<lparr>ivalid := False\<rparr>)))))))))))
    (thenK (releasesleep (SlkInode i))
    (thenK (lk_acquire LkIcache)
    (thenK (modK (upd_ino i (\<lambda>ip. ip\<lparr>iref := iref ip - 1\<rparr>)))
     (lk_release LkIcache))))))"

definition iunlockput :: "nat \<Rightarrow> ('z istate_scheme, unit) km" where
  "iunlockput i = thenK (iunlock (Some i)) (iput i)"

definition stati :: "nat \<Rightarrow> ('z istate_scheme, stat) km" where
  "stati i = bindK (getK (ino i)) (\<lambda>ip. retK \<lparr>st_type = itype ip, st_dev = i_dev ip, st_ino = inum ip,
     st_nlink = nlink ip, st_size = isize ip\<rparr>)"

text \<open>
  \<open>readi\<close>: the count and the bytes it copies to \<open>dst\<close>, in order; \<open>r\<close> is the C loop's \<open>n - tot\<close>.
\<close>

definition chunk :: "u32 \<Rightarrow> nat \<Rightarrow> nat" where
  "chunk off r = min r (BSIZE - unat off mod BSIZE)"

lemma chunk_pos: "0 < r \<Longrightarrow> 0 < chunk off r"
  by (simp add: chunk_def)

function readi_loop :: "nat \<Rightarrow> u32 \<Rightarrow> nat \<Rightarrow> ('z istate_scheme, u8 list) km" where
  "readi_loop i off r = (if r = 0 then retK [] else
     bindK (bmap i (off div of_nat BSIZE)) (\<lambda>addr. bindK (getK (ino i)) (\<lambda>ip.
     bindK (bread (i_dev ip) addr) (\<lambda>bp.
     let m = chunk off r in
     bindK (getK (\<lambda>s. take m (drop (unat off mod BSIZE) (bdata (bufs s ! bp))))) (\<lambda>d.
     thenK (brelse bp)
     (bindK (readi_loop i (off + of_nat m) (r - m)) (\<lambda>ds. retK (d @ ds))))))))"
  by pat_completeness auto
termination
  by (relation "measure (\<lambda>(i, off, r). r)") (auto simp: chunk_pos)

declare readi_loop.simps [simp del]

definition readi :: "'z istate_scheme devsw list \<Rightarrow> nat \<Rightarrow> u32 \<Rightarrow> u32 \<Rightarrow> ('z istate_scheme, int \<times> u8 list) km" where
  "readi dv i off n = bindK (getK (ino i)) (\<lambda>ip.
     if itype ip = T_DEV then
       (if sint (imajor ip) < 0 \<or> sint (imajor ip) \<ge> int NDEV then retK (-1, [])
        else case dread (dv ! unat (imajor ip)) of None \<Rightarrow> retK (-1, []) | Some f \<Rightarrow> f i n)
     else if off > isize ip \<or> off + n < off then retK (-1, [])
     else let n = (if off + n > isize ip then isize ip - off else n) in
       bindK (readi_loop i off (unat n)) (\<lambda>d. retK (sint n, d)))"

function writei_loop :: "nat \<Rightarrow> u8 list \<Rightarrow> u32 \<Rightarrow> ('z istate_scheme, u32) km" where
  "writei_loop i src off = (if src = [] then retK off else
     bindK (bmap i (off div of_nat BSIZE)) (\<lambda>addr. bindK (getK (ino i)) (\<lambda>ip.
     bindK (bread (i_dev ip) addr) (\<lambda>bp.
     let m = chunk off (length src) in
     thenK (bset bp (\<lambda>d. take (unat off mod BSIZE) d @ take m src @ drop (unat off mod BSIZE + m) d))
    (thenK (log_write bp)
    (thenK (brelse bp)
     (writei_loop i (drop m src) (off + of_nat m))))))))"
  by pat_completeness auto
termination
  by (relation "measure (\<lambda>(i, src, off). length src)") (auto simp: chunk_pos)

declare writei_loop.simps [simp del]

text \<open>\<open>writei\<close>: \<open>src\<close> is the \<open>n\<close> bytes the source points to.\<close>

definition writei :: "'z istate_scheme devsw list \<Rightarrow> nat \<Rightarrow> u8 list \<Rightarrow> u32 \<Rightarrow> ('z istate_scheme, int) km" where
  "writei dv i src off = bindK (getK (ino i)) (\<lambda>ip. let n = of_nat (length src) :: u32 in
     if itype ip = T_DEV then
       (if sint (imajor ip) < 0 \<or> sint (imajor ip) \<ge> int NDEV then retK (-1)
        else case dwrite (dv ! unat (imajor ip)) of None \<Rightarrow> retK (-1) | Some f \<Rightarrow> f i src)
     else if off > isize ip \<or> off + n < off then retK (-1)
     else if off + n > of_nat (MAXFILE * BSIZE) then retK (-1)
     else bindK (writei_loop i src off) (\<lambda>off. bindK (getK (ino i)) (\<lambda>ip.
       thenK (whenK (n > 0 \<and> off > isize ip)
         (thenK (modK (upd_ino i (\<lambda>ip. ip\<lparr>isize := off\<rparr>))) (iupdate i)))
       (retK (sint n)))))"

section \<open>Directories\<close>

definition namecmp :: "u8 list \<Rightarrow> u8 list \<Rightarrow> int" where
  "namecmp s t = strncmpL s t DIRSIZ"

text \<open>\<open>struct dirent\<close> as its sixteen bytes.\<close>

definition de_inum :: "u8 list \<Rightarrow> u16" where
  "de_inum de = get16 de 0"

definition de_name :: "u8 list \<Rightarrow> u8 list" where
  "de_name de = drop 2 de"

definition mk_dirent :: "u8 list \<Rightarrow> u16 \<Rightarrow> u8 list" where
  "mk_dirent name n = put16 (0 # 0 # strncpyL name DIRSIZ) 0 n"

fun dirlookup_loop :: "'z istate_scheme devsw list \<Rightarrow> nat \<Rightarrow> nat \<Rightarrow> u8 list \<Rightarrow> u32 \<Rightarrow>
    ('z istate_scheme, (nat \<times> u32) option) km" where
  "dirlookup_loop dv 0 dp name off = retK None"
| "dirlookup_loop dv (Suc k) dp name off = bindK (readi dv dp off 16) (\<lambda>(r, de).
     thenK (assertK (\<not> r \<noteq> 16) ''dirlookup read'')
     (if de_inum de = 0 then dirlookup_loop dv k dp name (off + 16)
      else if namecmp name (de_name de) = 0 then
        bindK (getK (ino dp)) (\<lambda>d. bindK (iget (i_dev d) (ucast (de_inum de))) (\<lambda>i. retK (Some (i, off))))
      else dirlookup_loop dv k dp name (off + 16)))"

definition dir_entries :: "u32 \<Rightarrow> nat" where
  "dir_entries sz = (unat sz + 15) div 16"

definition dirlookup :: "'z istate_scheme devsw list \<Rightarrow> nat \<Rightarrow> u8 list \<Rightarrow> ('z istate_scheme, (nat \<times> u32) option) km" where
  "dirlookup dv dp name = bindK (getK (ino dp)) (\<lambda>d.
     thenK (assertK (\<not> itype d \<noteq> T_DIR) ''dirlookup not DIR'')
     (dirlookup_loop dv (dir_entries (isize d)) dp name 0))"

fun dirlink_loop :: "'z istate_scheme devsw list \<Rightarrow> nat \<Rightarrow> nat \<Rightarrow> u32 \<Rightarrow> ('z istate_scheme, u32) km" where
  "dirlink_loop dv 0 dp off = retK off"
| "dirlink_loop dv (Suc k) dp off = bindK (readi dv dp off 16) (\<lambda>(r, de).
     thenK (assertK (\<not> r \<noteq> 16) ''dirlink read'')
     (if de_inum de = 0 then retK off else dirlink_loop dv k dp (off + 16)))"

definition dirlink :: "'z istate_scheme devsw list \<Rightarrow> nat \<Rightarrow> u8 list \<Rightarrow> u32 \<Rightarrow> ('z istate_scheme, int) km" where
  "dirlink dv dp name n = bindK (dirlookup dv dp name) (\<lambda>r. case r of
     Some (i, _) \<Rightarrow> thenK (iput i) (retK (-1))
   | None \<Rightarrow> bindK (getK (ino dp)) (\<lambda>d.
       bindK (dirlink_loop dv (dir_entries (isize d)) dp 0) (\<lambda>off.
       bindK (writei dv dp (mk_dirent name (ucast n)) off) (\<lambda>r.
       thenK (assertK (\<not> r \<noteq> 16) ''dirlink'') (retK 0)))))"

section \<open>Paths\<close>

abbreviation (input) slash :: u8 where "slash \<equiv> 0x2F"

text \<open>A path is the list of its bytes before the NUL; \<open>name\<close> is what its buffer holds up to a NUL.\<close>

definition skipelem :: "u8 list \<Rightarrow> (u8 list \<times> u8 list) option" where
  "skipelem path = (let path = dropWhile (\<lambda>c. c = slash) path in
     if path = [] then None
     else let len = length (takeWhile (\<lambda>c. c \<noteq> slash) path);
              name = (if len \<ge> DIRSIZ then take DIRSIZ path else take len path)
          in Some (dropWhile (\<lambda>c. c = slash) (drop len path), name))"

lemma skipelem_shorter: "skipelem path = Some (path', name) \<Longrightarrow> length path' < length path"
proof -
  assume a: "skipelem path = Some (path', name)"
  let ?p = "dropWhile (\<lambda>c. c = slash) path"
  have "?p \<noteq> []" using a by (cases "?p = []") (simp_all add: skipelem_def Let_def del: dropWhile_eq_Nil_conv)
  then obtain c cs where p: "?p = c # cs" by (cases ?p) auto
  then have c: "c \<noteq> slash" using hd_dropWhile [of "\<lambda>c. c = slash" path] by simp
  have "path' = dropWhile (\<lambda>c. c = slash) (drop (length (takeWhile (\<lambda>c. c \<noteq> slash) (c # cs))) (c # cs))"
    using a unfolding skipelem_def Let_def p by simp
  then have "length path' \<le> length (drop (length (takeWhile (\<lambda>c. c \<noteq> slash) (c # cs))) (c # cs))"
    using length_dropWhile_le by metis
  also have "\<dots> \<le> length cs" using c by simp
  also have "\<dots> < length ?p" using p by simp
  also have "\<dots> \<le> length path" by (rule length_dropWhile_le)
  finally show ?thesis .
qed

function namex_loop :: "'z istate_scheme devsw list \<Rightarrow> nat \<Rightarrow> u8 list \<Rightarrow> bool \<Rightarrow> u8 list \<Rightarrow>
    ('z istate_scheme, nat option \<times> u8 list) km" where
  "namex_loop dv i path nip name = (case skipelem path of
     Some (path, name) \<Rightarrow>
       thenK (ilock (Some i)) (bindK (getK (ino i)) (\<lambda>ip.
       if itype ip \<noteq> T_DIR then thenK (iunlockput i) (retK (None, name))
       else if nip \<and> path = [] then thenK (iunlock (Some i)) (retK (Some i, name))
       else bindK (dirlookup dv i name) (\<lambda>next. case next of
           None \<Rightarrow> thenK (iunlockput i) (retK (None, name))
         | Some (next, _) \<Rightarrow> thenK (iunlockput i) (namex_loop dv next path nip name))))
   | None \<Rightarrow> if nip then thenK (iput i) (retK (None, name)) else retK (Some i, name))"
  by pat_completeness auto
termination
  by (relation "measure (\<lambda>(dv, i, path, nip, name). length path)") (auto simp: skipelem_shorter)

declare namex_loop.simps [simp del]

definition namex :: "'z istate_scheme devsw list \<Rightarrow> u8 list \<Rightarrow> bool \<Rightarrow> ('z istate_scheme, nat option \<times> u8 list) km" where
  "namex dv path nip = bindK
     (if hd0 path = slash then iget ROOTDEV ROOTINO
      else bindK curproc (\<lambda>p. bindK (getK (\<lambda>s. cwd (ptable s ! p))) (\<lambda>c. case c of
        None \<Rightarrow> panicK ''trap'' | Some i \<Rightarrow> idup i)))
     (\<lambda>i. namex_loop dv i path nip [])"

definition namei :: "'z istate_scheme devsw list \<Rightarrow> u8 list \<Rightarrow> ('z istate_scheme, nat option) km" where
  "namei dv path = bindK (namex dv path False) (\<lambda>(i, name). retK i)"

definition nameiparent :: "'z istate_scheme devsw list \<Rightarrow> u8 list \<Rightarrow> ('z istate_scheme, nat option \<times> u8 list) km" where
  "nameiparent dv path = namex dv path True"

section \<open>Swap\<close>

abbreviation (input) SWAPBASE :: int where "SWAPBASE \<equiv> 500"
abbreviation (input) SWAPMAX :: int where "SWAPMAX \<equiv> 100000 - SWAPBASE"

fun swapread_loop :: "nat \<Rightarrow> int \<Rightarrow> int \<Rightarrow> ('z bstate_scheme, u8 list) km" where
  "swapread_loop 0 blkno i = retK []"
| "swapread_loop (Suc k) blkno i = bindK (bread 0 (word_of_int (blkno + SWAPBASE + i))) (\<lambda>bp.
     bindK (getK (\<lambda>s. bdata (bufs s ! bp))) (\<lambda>d.
     thenK (brelse bp)
     (bindK (swapread_loop k blkno (i + 1)) (\<lambda>ds. retK (d @ ds)))))"

text \<open>The bytes \<open>swapread\<close> stores from \<open>ptr\<close> on, and the bytes \<open>swapwrite\<close> takes from there.\<close>

definition swapread :: "int \<Rightarrow> ('z bstate_scheme, u8 list) km" where
  "swapread blkno = thenK (assertK (\<not> (blkno < 0 \<or> blkno \<ge> SWAPMAX)) ''swapread: blkno exceed range'')
     (swapread_loop 8 blkno 0)"

fun swapwrite_loop :: "nat \<Rightarrow> u8 list \<Rightarrow> int \<Rightarrow> int \<Rightarrow> ('z bstate_scheme, unit) km" where
  "swapwrite_loop 0 src blkno i = retK ()"
| "swapwrite_loop (Suc k) src blkno i = bindK (bread 0 (word_of_int (blkno + SWAPBASE + i))) (\<lambda>bp.
     thenK (bset bp (\<lambda>_. take BSIZE src))
    (thenK (bwrite bp)
    (thenK (brelse bp)
     (swapwrite_loop k (drop BSIZE src) blkno (i + 1)))))"

definition swapwrite :: "u8 list \<Rightarrow> int \<Rightarrow> ('z bstate_scheme, unit) km" where
  "swapwrite src blkno = thenK (assertK (\<not> (blkno < 0 \<or> blkno \<ge> SWAPMAX)) ''swapread: blkno exceed range'')
     (swapwrite_loop 8 src blkno 0)"

section \<open>A file system at rest\<close>

definition zero_inode :: inode where
  "zero_inode = \<lparr>i_dev = 0, inum = 0, iref = 0, ivalid = False, itype = 0, imajor = 0, iminor = 0, nlink = 0,
     isize = 0, addrs = replicate (NDIRECT + 1) 0\<rparr>"

definition demo_sb :: superblock where
  "demo_sb = \<lparr>sb_size = 1000, sb_nblocks = 941, sb_ninodes = 200, sb_nlog = 30, sb_logstart = 2,
     sb_inodestart = 32, sb_bmapstart = 58\<rparr>"

definition demo_fs :: istate where
  "demo_fs = lstate.extend demo_log (istate.fields demo_sb (replicate NINODE zero_inode))"

end
