(* ===== verification/Blocks.thy ===== *)
theory Blocks
  imports Fs
begin

text \<open>
  The block layer of \<open>fs.c\<close> inside a transaction: reading, changing and releasing one block with any
  buffers held, and the block allocator (\<open>balloc\<close>, \<open>bfree\<close>, \<open>bzero\<close>) over the bitmap.
\<close>

section \<open>One block at a time\<close>

text \<open>
  A buffer of the file system device that can be released without losing a change: its block is pinned
  by the log, or it is as on the disk.
\<close>

definition at_rest :: "'z bstate_scheme \<Rightarrow> nat \<Rightarrow> bool" where
  "at_rest s i \<longleftrightarrow> bkey s i \<in> dirty s \<or> bdata (bufs s ! i) = dsk s (bdev (bufs s ! i)) (blockno (bufs s ! i))"

lemma visit_ok:
  assumes tx: "txn s H" and n: "nat (lh_n s) + length H < 30" and k: "key_ok s 1 b"
    and nh: "\<forall>j \<in> set H. \<not> has_key 1 b (bufs s ! j)"
  shows "\<exists>i u. bread 1 b s = Ret i u \<and> txn u (i # H) \<and> same_view s u \<and> bdev (bufs u ! i) = 1 \<and>
    blockno (bufs u ! i) = b \<and> bdata (bufs u ! i) = blk s 1 b \<and> at_rest u i \<and> i \<notin> set H \<and>
    (\<forall>j \<in> set H. bufs u ! j = bufs s ! j)"
proof -
  have st: "bst s H" using tx by (simp add: txn_def)
  have "card (dirty s) + length H < 30" using card_dirty_txn [OF tx] n by simp
  then obtain i u where r: "bread 1 b s = Ret i u" and p: "bread_post s H 1 b i u"
    using bread_ok [OF st k nh] by blast
  have u: "bst u (i # H)" "bframe s u" "dirty u = dirty s" "blk u = blk s" "written (idev u) = written (idev s)"
    "bdev (bufs u ! i) = 1" "blockno (bufs u ! i) = b" "bdata (bufs u ! i) = blk s 1 b"
    using p by (auto simp: bread_post_def same_view_def has_key_def)
  have "dsk u = dsk s" using dsk_bstep [of s u "blk s" "dirty s"] u by (simp add: bstep_def)
  then have "at_rest u i" using blk_clean [OF st nh] u by (auto simp: at_rest_def)
  moreover have "txn u (i # H)" using txn_bstep [OF tx u(1,2)] u(3) by simp
  ultimately show ?thesis using r p u bst_parts(6) [OF u(1)]
    by (intro exI [of _ i] exI [of _ u]) (simp add: bread_post_def)
qed

lemma leave_ok:
  assumes tx: "txn s (i # H)" and r: "at_rest s i"
  shows "\<exists>t. brelse i s = Ret () t \<and> txn t H \<and> same_view s t \<and> (\<forall>j \<in> set H. bufs t ! j = bufs s ! j)"
proof -
  have st: "bst s (i # H)" using tx by (simp add: txn_def)
  have "i \<notin> set H" using bst_parts(6) [OF st] by simp
  moreover obtain t where t: "brelse i s = Ret () t" "bst t H" "same_view s t" "\<And>j. j \<noteq> i \<Longrightarrow> bufs t ! j = bufs s ! j"
    using brelse_ok [OF st, of i] r by (auto simp: at_rest_def)
  ultimately show ?thesis using txn_bstep [OF tx t(2)] by (metis same_view_def)
qed

text \<open>A step of a transaction: the contents become \<open>f\<close>, the log header \<open>L\<close>, nothing is written.\<close>

definition tstep :: "'z lstate_scheme \<Rightarrow> 'z lstate_scheme \<Rightarrow> (u32 \<Rightarrow> u32 \<Rightarrow> u8 list) \<Rightarrow> u32 list \<Rightarrow> bool" where
  "tstep s t f L \<longleftrightarrow> lframe s t \<and> blk t = f \<and> logged t = L \<and> written (idev t) = written (idev s)"

lemma tstep_trans: "tstep s t f L \<Longrightarrow> tstep t u g M \<Longrightarrow> tstep s u g M"
  by (auto simp: tstep_def intro: lframe_trans)

lemma same_view_tstep: "same_view s t \<Longrightarrow> tstep (s :: 'z lstate_scheme) t (blk s) (logged s)"
  by (auto simp: same_view_def tstep_def bframe_lframe bframe_log)

lemma dsk_tstep: "tstep s t f L \<Longrightarrow> dsk t = dsk s"
  by (rule disk_cong) (auto simp: tstep_def dest: lframe_fields(12))

lemma lh_n_txn: "txn s H \<Longrightarrow> nat (lh_n s) = length (logged s) \<and> 0 \<le> lh_n s"
  by (auto simp: txn_def lhdr_def lgeo_def)

lemma change_ok:
  assumes tx: "txn s (i # H)" and n: "length (logged s) < 29" and b: "bdev (bufs s ! i) = 1" "blockno (bufs s ! i) = b"
    and k: "\<not> in_log s b" "key_ok s 1 b"
  shows "\<exists>u v. bset i f s = Ret () u \<and> log_write i u = Ret () v \<and> txn v (i # H) \<and>
    tstep s v (put_blk (blk s) 1 b (f (bdata (bufs s ! i)))) (absorb b (logged s)) \<and> at_rest v i \<and>
    bdata (bufs v ! i) = f (bdata (bufs s ! i)) \<and> bdev (bufs v ! i) = 1 \<and> blockno (bufs v ! i) = b \<and>
    (\<forall>j. j \<noteq> i \<longrightarrow> bufs v ! j = bufs s ! j)"
proof -
  have st: "bst s (i # H)" using tx by (simp add: txn_def)
  obtain u where u: "bset i f s = Ret () u" "bst u (i # H)" "bframe s u" "dirty u = dirty s" "written (idev u) = written (idev s)"
    "blk u = put_blk (blk s) 1 b (f (bdata (bufs s ! i)))" "\<And>j. j \<noteq> i \<Longrightarrow> bufs u ! j = bufs s ! j"
    "bdev (bufs u ! i) = 1" "blockno (bufs u ! i) = b" "bdata (bufs u ! i) = f (bdata (bufs s ! i))"
    using bset_ok [OF st, of i f] b by (auto simp: put_blk_def)
  have tu: "txn u (i # H)" by (rule txn_bstep [OF tx u(2,3,4)])
  have "lh_n u < 29" "\<not> in_log u b" "key_ok u 1 b"
    using lh_n_txn [OF tx] n k bframe_log [OF u(3)] log_bframe [OF u(3)] key_ok_bframe [OF u(3)] by simp_all
  then obtain v m bl where v: "log_write i u = Ret () v" "txn v (i # H)" "bframe (u\<lparr>lh_block := bl, lh_n := m\<rparr>) v"
    "logged v = absorb b (logged u)" "blk v = blk u" "written (idev v) = written (idev u)"
    "\<And>j. j \<noteq> i \<Longrightarrow> bufs v ! j = bufs u ! j" "bdata (bufs v ! i) = bdata (bufs u ! i)"
    "bdev (bufs v ! i) = 1" "blockno (bufs v ! i) = b"
    using log_write_ok [OF tu, of i] u(8,9) by auto
  have "lframe s v" using bframe_lframe [OF u(3)] v(3) lframe_trans unfolding lframe_def by blast
  moreover have "(1, b) \<in> dirty v" using v(2,4) by (auto simp: txn_def absorb_def)
  ultimately show ?thesis
    using u v bframe_log(6,7) [OF u(3)] by (intro exI [of _ u] exI [of _ v]) (simp add: tstep_def at_rest_def)
qed

text \<open>Read one block, change it, log it and release it, with \<open>H\<close> held.\<close>

lemma update_step:
  assumes tx: "txn s H" and n: "length (logged s) < 29" "length (logged s) + length H < 30"
    and b: "\<not> in_log s b" "key_ok s 1 b" and nh: "\<forall>j \<in> set H. \<not> has_key 1 b (bufs s ! j)"
  shows "\<exists>i u v w t. bread 1 b s = Ret i u \<and> bdata (bufs u ! i) = blk s 1 b \<and> bset i f u = Ret () v \<and>
    log_write i v = Ret () w \<and> brelse i w = Ret () t \<and> txn t H \<and>
    tstep s t (put_blk (blk s) 1 b (f (blk s 1 b))) (absorb b (logged s)) \<and> (\<forall>j \<in> set H. bufs t ! j = bufs s ! j)"
proof -
  obtain i u where u: "bread 1 b s = Ret i u" "txn u (i # H)" "same_view s u" "bdev (bufs u ! i) = 1"
    "blockno (bufs u ! i) = b" "bdata (bufs u ! i) = blk s 1 b" "i \<notin> set H" "\<forall>j \<in> set H. bufs u ! j = bufs s ! j"
    using visit_ok [OF tx _ b(2) nh] lh_n_txn [OF tx] n by auto
  note su = same_view_tstep [OF u(3)]
  have l: "lframe s u" "logged u = logged s" "blk u = blk s" using su by (simp_all add: tstep_def)
  obtain v w where v: "bset i f u = Ret () v" "log_write i v = Ret () w" "txn w (i # H)" "at_rest w i"
    "tstep u w (put_blk (blk s) 1 b (f (blk s 1 b))) (absorb b (logged s))" "\<forall>j. j \<noteq> i \<longrightarrow> bufs w ! j = bufs u ! j"
    using change_ok [OF u(2) _ u(4,5), of f] u(6) b n lframe_fields(7,8) [OF l(1)] l(2,3) by auto
  obtain t where t: "brelse i w = Ret () t" "txn t H" "same_view w t" "\<forall>j \<in> set H. bufs t ! j = bufs w ! j"
    using leave_ok [OF v(3,4)] by blast
  have "tstep w t (put_blk (blk s) 1 b (f (blk s 1 b))) (absorb b (logged s))"
    using same_view_tstep [OF t(3)] v(5) by (simp add: tstep_def)
  then have "tstep s t (put_blk (blk s) 1 b (f (blk s 1 b))) (absorb b (logged s))"
    using su v(5) tstep_trans by blast
  moreover have "\<forall>j \<in> set H. bufs t ! j = bufs s ! j" using t(4) v(6) u(7,8) by metis
  ultimately show ?thesis using u(1,6) v(1,2) t(1,2) by blast
qed

lemma look_step:
  assumes tx: "txn s H" and n: "length (logged s) + length H < 30" and b: "key_ok s 1 b"
    and nh: "\<forall>j \<in> set H. \<not> has_key 1 b (bufs s ! j)"
  shows "\<exists>i u t. bread 1 b s = Ret i u \<and> bdata (bufs u ! i) = blk s 1 b \<and> brelse i u = Ret () t \<and> txn t H \<and>
    same_view s t \<and> (\<forall>j \<in> set H. bufs t ! j = bufs s ! j)"
proof -
  obtain i u where u: "bread 1 b s = Ret i u" "txn u (i # H)" "same_view s u" "bdata (bufs u ! i) = blk s 1 b"
    "at_rest u i" "\<forall>j \<in> set H. bufs u ! j = bufs s ! j"
    using visit_ok [OF tx _ b nh] lh_n_txn [OF tx] n by auto
  obtain t where t: "brelse i u = Ret () t" "txn t H" "same_view u t" "\<forall>j \<in> set H. bufs t ! j = bufs u ! j"
    using leave_ok [OF u(2,5)] by blast
  have "same_view s t" using u(3) t(3) by (auto simp: same_view_def intro: bframe_trans)
  moreover have "\<forall>j \<in> set H. bufs t ! j = bufs s ! j" using t(4) u(6) by simp
  ultimately show ?thesis using u t by blast
qed

section \<open>The bitmap\<close>

lemma bit_free_bit: "bit_free d bi \<longleftrightarrow> \<not> bit (d ! (bi div 8)) (bi mod 8)"
proof -
  have "bit (d ! (bi div 8) AND bit_mask bi) n \<longleftrightarrow> n = bi mod 8 \<and> bit (d ! (bi div 8)) n" if "n < 8" for n
    using that by (auto simp: bit_mask_def bit_simps bit_1_iff)
  moreover have "x = 0 \<longleftrightarrow> (\<forall>n < 8. \<not> bit (x :: u8) n)" for x by (auto intro: bit_word_eqI)
  moreover have "bi mod 8 < 8" by simp
  ultimately show ?thesis unfolding bit_free_def by metis
qed

lemma bit_mark:
  assumes "bi < 8 * length d" "bj < 8 * length d"
  shows "bit_free (mark_used bi d) bj \<longleftrightarrow> bj \<noteq> bi \<and> bit_free d bj"
    and "bit_free (mark_free bi d) bj \<longleftrightarrow> bj = bi \<or> bit_free d bj"
proof -
  have l: "bi div 8 < length d" "bj div 8 < length d" using assms by auto
  have m: "bit (bit_mask bi) n \<longleftrightarrow> n = bi mod 8" if "n < 8" for n using that by (auto simp: bit_mask_def bit_simps bit_1_iff)
  have e: "bj = bi \<longleftrightarrow> bj div 8 = bi div 8 \<and> bj mod 8 = bi mod 8" by (metis div_mult_mod_eq)
  show "bit_free (mark_used bi d) bj \<longleftrightarrow> bj \<noteq> bi \<and> bit_free d bj"
    unfolding bit_free_bit mark_used_def using l e m [of "bj mod 8"] by (auto simp: nth_list_update bit_simps)
  show "bit_free (mark_free bi d) bj \<longleftrightarrow> bj = bi \<or> bit_free d bj"
    unfolding bit_free_bit mark_free_def using l e m [of "bj mod 8"]
    by (auto simp: nth_list_update bit_simps)
qed

lemma find_free_find: "find_free d k bi = find (bit_free d) [bi..<bi + k]"
  by (induction d k bi rule: find_free.induct) (simp_all add: upt_conv_Cons del: upt_Suc)

lemma find_upt_Some: "find P [a..<n] = Some i \<Longrightarrow> a \<le> i \<and> i < n \<and> P i"
  by (drule find_SomeD) simp

lemma find_append: "find P (xs @ ys) = (case find P xs of None \<Rightarrow> find P ys | Some x \<Rightarrow> Some x)"
  by (induction xs) auto

lemma find_map: "find P (map f xs) = map_option f (find (P \<circ> f) xs)"
  by (induction xs) auto

text \<open>
  A block of the disk is used when its bit is set. Bitmap blocks, inode blocks, the log and block 0 are
  always marked used, so that a block \<open>balloc\<close> returns can hold data.
\<close>

abbreviation (input) fssize :: "'z istate_scheme \<Rightarrow> nat" where
  "fssize s \<equiv> unat (sb_size (sb s))"

definition used :: "'z istate_scheme \<Rightarrow> u32 \<Rightarrow> bool" where
  "used s b \<longleftrightarrow> \<not> bit_free (blk s 1 (BBLOCK b (sb s))) (unat b mod BPB)"

definition is_bitmap :: "'z istate_scheme \<Rightarrow> u32 \<Rightarrow> bool" where
  "is_bitmap s n \<longleftrightarrow> (\<exists>b. unat b < fssize s \<and> n = BBLOCK b (sb s))"

definition is_iblock :: "'z istate_scheme \<Rightarrow> u32 \<Rightarrow> bool" where
  "is_iblock s n \<longleftrightarrow> (\<exists>k. unat k < unat (sb_ninodes (sb s)) \<and> n = IBLOCK k (sb s))"

definition data_block :: "'z istate_scheme \<Rightarrow> u32 \<Rightarrow> bool" where
  "data_block s n \<longleftrightarrow> unat n < fssize s \<and> n \<noteq> 0 \<and> \<not> in_log s n \<and> \<not> is_bitmap s n \<and> \<not> is_iblock s n"

definition geo :: "'z istate_scheme \<Rightarrow> bool" where
  "geo s \<longleftrightarrow> (\<forall>n. unat n < fssize s \<longrightarrow> key_ok s 1 n) \<and>
     (\<forall>n. unat n < fssize s \<and> \<not> in_log s n \<longrightarrow> length (blk s 1 n) = BSIZE) \<and>
     (\<forall>n. is_bitmap s n \<or> is_iblock s n \<longrightarrow> n \<noteq> 0 \<and> unat n < fssize s \<and> \<not> in_log s n) \<and>
     (\<forall>n. is_bitmap s n \<longrightarrow> \<not> is_iblock s n) \<and>
     (\<forall>n. unat n < fssize s \<and> \<not> used s n \<longrightarrow> data_block s n)"

lemma lframe_istate:
  assumes "lframe (s :: 'z istate_scheme) t"
  shows "sb t = sb s" "inodes t = inodes s" "istate.more t = istate.more s"
    "is_bitmap t = is_bitmap s" "is_iblock t = is_iblock s" "data_block t = data_block s"
proof -
  have m: "lstate.more t = lstate.more s" by (rule lframe_fields(6) [OF assms])
  then show e: "sb t = sb s" "inodes t = inodes s" "istate.more t = istate.more s" by (cases s; cases t; simp)+
  then show "is_bitmap t = is_bitmap s" "is_iblock t = is_iblock s" by (simp_all add: is_bitmap_def is_iblock_def fun_eq_iff)
  then show "data_block t = data_block s" by (simp add: data_block_def e lframe_fields(7) [OF assms] fun_eq_iff)
qed

lemma BBLOCK_eq:
  assumes "unat b div BPB = unat c div BPB"
  shows "BBLOCK b x = BBLOCK c x"
proof -
  have "b div 4096 = c div (4096 :: u32)" using assms by (simp add: word_unat_eq_iff unat_div)
  then show ?thesis by (simp add: BBLOCK_def)
qed

lemma bit_index:
  assumes "BBLOCK b x = BBLOCK c x" "unat b mod BPB = unat c mod BPB"
  shows "b = c"
proof -
  have "b div 4096 = c div (4096 :: u32)" using assms(1) by (simp add: BBLOCK_def)
  then have "unat (b div 4096) = unat (c div 4096)" by simp
  then have "unat b div 4096 = unat c div 4096" by (simp add: unat_div)
  then have "unat b = unat c" using assms(2) by (metis div_mult_mod_eq)
  then show ?thesis by (rule word_unat_eq_iff [THEN iffD2])
qed

section \<open>Allocating a block\<close>

text \<open>
  What \<open>balloc\<close> leaves: the bit of the block is set, the block is zeroed, both are in the log; buffers
  held across the call keep their contents.
\<close>

definition balloc_post :: "'z istate_scheme \<Rightarrow> nat list \<Rightarrow> u32 \<Rightarrow> 'z istate_scheme \<Rightarrow> bool" where
  "balloc_post s H b t \<longleftrightarrow> txn t H \<and>
     tstep s t (put_blk (put_blk (blk s) 1 (BBLOCK b (sb s)) (mark_used (unat b mod BPB) (blk s 1 (BBLOCK b (sb s)))))
       1 b (replicate BSIZE 0)) (absorb b (absorb (BBLOCK b (sb s)) (logged s))) \<and>
     (\<forall>j \<in> set H. bufs t ! j = bufs s ! j)"

text \<open>Buffers a caller of \<open>balloc\<close> may hold: they are of blocks in use that are not bitmap blocks.\<close>

definition apart :: "'z istate_scheme \<Rightarrow> nat list \<Rightarrow> bool" where
  "apart s H \<longleftrightarrow> (\<forall>j \<in> set H. \<forall>n. has_key 1 n (bufs s ! j) \<longrightarrow> used s n \<and> \<not> is_bitmap s n)"

lemma geoD:
  assumes "geo s"
  shows "unat n < fssize s \<Longrightarrow> key_ok s 1 n" "unat n < fssize s \<Longrightarrow> \<not> in_log s n \<Longrightarrow> length (blk s 1 n) = BSIZE"
    "is_bitmap s n \<Longrightarrow> unat n < fssize s" "is_bitmap s n \<Longrightarrow> \<not> in_log s n" "is_bitmap s n \<Longrightarrow> \<not> is_iblock s n"
    "is_iblock s n \<Longrightarrow> unat n < fssize s" "is_iblock s n \<Longrightarrow> \<not> in_log s n"
    "unat n < fssize s \<Longrightarrow> \<not> used s n \<Longrightarrow> data_block s n" "is_iblock s n \<Longrightarrow> n \<noteq> 0"
  using assms by (auto simp: geo_def)

lemma bitmapI: "unat b < fssize s \<Longrightarrow> is_bitmap s (BBLOCK b (sb s))"
  by (auto simp: is_bitmap_def)

lemma bzero_ok:
  assumes "txn s H" "length (logged s) < 29" "length (logged s) + length H < 30" "\<not> in_log s b" "key_ok s 1 b"
    "\<forall>j \<in> set H. \<not> has_key 1 b (bufs s ! j)"
  shows "\<exists>t. bzero 1 b s = Ret () t \<and> txn t H \<and> tstep s t (put_blk (blk s) 1 b (replicate BSIZE 0)) (absorb b (logged s)) \<and>
    (\<forall>j \<in> set H. bufs t ! j = bufs s ! j)"
  using update_step [OF assms, of "\<lambda>_. replicate BSIZE 0"] by (auto simp: bzero_def km_simps)

text \<open>Room in the log and in the cache for a bitmap block and one more.\<close>

definition room :: "'z istate_scheme \<Rightarrow> nat list \<Rightarrow> bool" where
  "room s H \<longleftrightarrow> (\<forall>B. is_bitmap s B \<longrightarrow> length (absorb B (logged s)) < 29 \<and> length (absorb B (logged s)) + length H < 30)"

lemma length_absorb: "length L \<le> length (absorb b L)" "length (absorb b L) \<le> Suc (length L)"
  by (simp_all add: absorb_def)

lemma room_small: "length (logged s) < 28 \<Longrightarrow> room s []"
  unfolding room_def using length_absorb(2) [of _ "logged s"] by (fastforce intro: order_le_less_trans)

lemma roomD:
  assumes "room s H" "is_bitmap s B"
  shows "length (logged s) < 29" "length (logged s) + length H < 30"
    "length (absorb B (logged s)) < 29" "length (absorb B (logged s)) + length H < 30"
  using assms length_absorb(1) [of "logged s" B] by (auto simp: room_def)

lemma balloc_found:
  assumes tx: "txn s H" and g: "geo s" and n: "room s H" and H: "apart s H"
    and b: "unat b < fssize s" "\<not> used s b"
  shows "\<exists>i u v w x t. bread 1 (BBLOCK b (sb s)) s = Ret i u \<and> bdata (bufs u ! i) = blk s 1 (BBLOCK b (sb s)) \<and>
    bset i (mark_used (unat b mod BPB)) u = Ret () v \<and> log_write i v = Ret () w \<and> brelse i w = Ret () x \<and>
    bzero 1 b x = Ret () t \<and> balloc_post s H b t"
proof -
  let ?B = "BBLOCK b (sb s)"
  have B: "is_bitmap s ?B" by (rule bitmapI [OF b(1)])
  have nh: "\<forall>j \<in> set H. \<not> has_key 1 ?B (bufs s ! j)" using H B by (auto simp: apart_def)
  obtain i u v w x where x: "bread 1 ?B s = Ret i u" "bdata (bufs u ! i) = blk s 1 ?B"
    "bset i (mark_used (unat b mod BPB)) u = Ret () v" "log_write i v = Ret () w" "brelse i w = Ret () x" "txn x H"
    "tstep s x (put_blk (blk s) 1 ?B (mark_used (unat b mod BPB) (blk s 1 ?B))) (absorb ?B (logged s))"
    "\<forall>j \<in> set H. bufs x ! j = bufs s ! j"
    using update_step [OF tx roomD(1,2) [OF n B] geoD(4) [OF g B] geoD(1) [OF g geoD(3) [OF g B]] nh, of "mark_used (unat b mod BPB)"] by blast
  have l: "lframe s x" "logged x = absorb ?B (logged s)" using x(7) by (auto simp: tstep_def)
  have d: "data_block s b" by (rule geoD(8) [OF g b])
  have "\<forall>j \<in> set H. \<not> has_key 1 b (bufs x ! j)" using H b(2) x(8) by (auto simp: apart_def)
  moreover have "\<not> in_log x b" "key_ok x 1 b" using d geoD(1) [OF g b(1)] lframe_fields(7,8) [OF l(1)] by (auto simp: data_block_def)
  moreover have "length (logged x) < 29" "length (logged x) + length H < 30" unfolding l(2) using roomD(3,4) [OF n B] .
  ultimately obtain t where t: "bzero 1 b x = Ret () t" "txn t H"
    "tstep x t (put_blk (blk x) 1 b (replicate BSIZE 0)) (absorb b (logged x))" "\<forall>j \<in> set H. bufs t ! j = bufs x ! j"
    using bzero_ok [OF x(6)] by blast
  have "balloc_post s H b t"
    using tstep_trans [OF x(7) t(3)] t(2,4) x(7,8) by (simp add: balloc_post_def tstep_def)
  then show ?thesis using x t(1) by blast
qed

lemma same_view_fs:
  assumes "same_view (s :: 'z istate_scheme) t"
  shows "sb t = sb s" "inodes t = inodes s" "used t = used s" "is_bitmap t = is_bitmap s" "logged t = logged s" "blk t = blk s"
    "geo t = geo s" "data_block t = data_block s"
proof -
  have f: "bframe s t" "blk t = blk s" using assms by (simp_all add: same_view_def)
  note l = lframe_istate [OF bframe_lframe [OF f(1)]]
  show u: "sb t = sb s" "inodes t = inodes s" "used t = used s" "is_bitmap t = is_bitmap s" "logged t = logged s" "blk t = blk s"
    "data_block t = data_block s"
    using l f bframe_log [OF f(1)] by (simp_all add: used_def fun_eq_iff)
  show "geo t = geo s" by (simp add: geo_def u l log_bframe [OF f(1)] key_ok_bframe [OF f(1)] f(2))
qed

lemma bit_chunk:
  assumes "b mod BPB = 0" "bi < BPB" "b + bi < unat (sz :: u32)"
  shows "unat (of_nat (b + bi) :: u32) = b + bi" "(b + bi) mod BPB = bi"
    "BBLOCK (of_nat (b + bi)) x = BBLOCK (of_nat b) x"
proof -
  have "unat sz < 4294967296" by simp
  then have s: "b + bi < 4294967296" using assms(3) by linarith
  then show u: "unat (of_nat (b + bi) :: u32) = b + bi" by (simp add: unat_of_nat del: of_nat_add)
  have v: "unat (of_nat b :: u32) = b" using s by (simp add: unat_of_nat)
  obtain q where q: "b = 4096 * q" using assms(1) by (auto simp: mod_eq_0_iff_dvd)
  show "(b + bi) mod BPB = bi" unfolding q using assms(2) by simp
  have "(b + bi) div 4096 = b div 4096" unfolding q using assms(2) by simp
  then show "BBLOCK (of_nat (b + bi)) x = BBLOCK (of_nat b) x" by (intro BBLOCK_eq) (simp only: u v)
qed

lemma map_plus_upt: "map ((+) b) [0..<m] = [b..<b + m]"
  by (induction m) auto

lemma find_chunk:
  assumes "b mod BPB = 0" "b < fssize s"
  defines "m \<equiv> min BPB (fssize s - b)"
  shows "find (\<lambda>n. \<not> used s (of_nat n)) [b..<fssize s] =
    (case find_free (blk s 1 (BBLOCK (of_nat b) (sb s))) m 0 of Some bi \<Rightarrow> Some (b + bi)
     | None \<Rightarrow> find (\<lambda>n. \<not> used s (of_nat n)) [b + BPB..<fssize s])"
proof -
  have e: "[b..<fssize s] = map ((+) b) [0..<m] @ [b + BPB..<fssize s]"
  proof (cases "fssize s - b \<le> BPB")
    case True
    then show ?thesis using assms(2) by (simp add: m_def map_plus_upt min_def)
  next
    case False
    then have "b + BPB \<le> fssize s" by linarith
    then obtain k where "fssize s = b + BPB + k" using le_Suc_ex by blast
    then have "[b..<fssize s] = [b..<b + BPB] @ [b + BPB..<fssize s]" using upt_add_eq_append [of b "b + BPB" k] by simp
    then show ?thesis using False by (simp add: m_def map_plus_upt min_def)
  qed
  have p: "(\<not> used s (of_nat (b + bi))) = bit_free (blk s 1 (BBLOCK (of_nat b) (sb s))) bi" if "bi < m" for bi
  proof -
    have "bi < BPB" "b + bi < fssize s" using that by (auto simp: m_def)
    note c = bit_chunk [OF assms(1) this]
    show ?thesis unfolding used_def c by simp
  qed
  have "find ((\<lambda>n. \<not> used s (of_nat n)) \<circ> (+) b) [0..<m] = find (bit_free (blk s 1 (BBLOCK (of_nat b) (sb s)))) [0..<m]"
    using p by (intro find_cong) auto
  then show ?thesis unfolding e find_append find_map find_free_find by (simp split: option.splits)
qed

lemma apart_view: "same_view s t \<Longrightarrow> \<forall>j \<in> set H. bufs t ! j = bufs s ! j \<Longrightarrow> apart s H \<Longrightarrow> apart t H"
  by (simp add: apart_def same_view_fs)

lemma balloc_loop_ok:
  assumes "txn s H" "geo s" "room s H" "apart s H"
    and "b mod BPB = 0" "fssize s \<le> b + k * BPB" "0 < k \<Longrightarrow> b + (k - 1) * BPB < fssize s"
  shows "case find (\<lambda>n. \<not> used s (of_nat n)) [b..<fssize s] of
      None \<Rightarrow> balloc_loop k 1 b s = Panic ''balloc: out of blocks''
    | Some n \<Rightarrow> \<exists>t. balloc_loop k 1 b s = Ret (of_nat n) t \<and> balloc_post s H (of_nat n) t"
  using assms
proof (induction k arbitrary: b s)
  case 0
  then show ?case by (simp add: panicK_def)
next
  case (Suc k)
  note tx = Suc.prems(1) and g = Suc.prems(2)
  let ?B = "BBLOCK (of_nat b) (sb s)" and ?m = "min BPB (fssize s - b)"
  let ?F = "find_free (blk s 1 ?B) ?m 0"
  have b: "b < fssize s" using Suc.prems(7) by simp
  have ub: "unat (of_nat b :: u32) = b" using bit_chunk(1) [of b 0 "sb_size (sb s)"] Suc.prems(5) b by simp
  have B: "is_bitmap s ?B" by (rule bitmapI) (simp add: ub b)
  have nh: "\<forall>j \<in> set H. \<not> has_key 1 ?B (bufs s ! j)" using Suc.prems(4) B by (auto simp: apart_def)
  note fc = find_chunk [OF Suc.prems(5) b]
  show ?case
  proof (cases ?F)
    case None
    obtain i u t where t: "bread 1 ?B s = Ret i u" "bdata (bufs u ! i) = blk s 1 ?B" "brelse i u = Ret () t" "txn t H"
      "same_view s t" "\<forall>j \<in> set H. bufs t ! j = bufs s ! j"
      using look_step [OF tx roomD(2) [OF Suc.prems(3) B] geoD(1) [OF g geoD(3) [OF g B]] nh] by blast
    note v = same_view_fs [OF t(5)]
    have e: "balloc_loop (Suc k) 1 b s = balloc_loop k 1 (b + BPB) t"
      using t None by (simp add: km_simps)
    have w: "geo t" "room t H" "apart t H" "(b + BPB) mod BPB = 0" "fssize t \<le> b + BPB + k * BPB"
      using g Suc.prems(3,5,6) apart_view [OF t(5,6) Suc.prems(4)] v by (simp_all add: room_def)
    have "b + BPB + (k - 1) * BPB < fssize t" if "0 < k" using Suc.prems(7) that v by (cases k) simp_all
    note IH = Suc.IH [OF t(4) w this]
    have "balloc_post t H n u \<Longrightarrow> balloc_post s H n u" for n u
      using tstep_trans [OF same_view_tstep [OF t(5)]] v t(6) by (simp add: balloc_post_def)
    then show ?thesis using IH unfolding fc None e v
      by (cases "find (\<lambda>n. \<not> used s (of_nat n)) [b + BPB..<fssize s]") (simp, simp only: option.case, blast)
  next
    case (Some bi)
    then have "find (bit_free (blk s 1 ?B)) [0..<?m] = Some bi" by (simp only: find_free_find add_0)
    from find_upt_Some [OF this] have bi: "bi < ?m" "bit_free (blk s 1 ?B) bi" by blast+
    have c: "unat (of_nat (b + bi) :: u32) = b + bi" "(b + bi) mod BPB = bi" "BBLOCK (of_nat (b + bi)) (sb s) = ?B"
    proof -
      have "bi < BPB" "b + bi < fssize s" using bi(1) by auto
      note c = bit_chunk [OF Suc.prems(5) this]
      show "unat (of_nat (b + bi) :: u32) = b + bi" "(b + bi) mod BPB = bi"
        "BBLOCK (of_nat (b + bi)) (sb s) = ?B" by (fact c)+
    qed
    have u: "unat (of_nat (b + bi) :: u32) < fssize s" "\<not> used s (of_nat (b + bi))"
      unfolding used_def c using bi by auto
    obtain i v w x y t where r: "bread 1 ?B s = Ret i v" "bdata (bufs v ! i) = blk s 1 ?B" "bset i (mark_used bi) v = Ret () w"
      "log_write i w = Ret () x" "brelse i x = Ret () y" "bzero 1 (of_nat (b + bi)) y = Ret () t" "balloc_post s H (of_nat (b + bi)) t"
      using balloc_found [OF tx g Suc.prems(3,4) u] unfolding c by blast
    then have "balloc_loop (Suc k) 1 b s = Ret (of_nat (b + bi)) t" using Some by (simp add: km_simps del: of_nat_add)
    then show ?thesis unfolding fc using Some r(7) by (simp del: of_nat_add)
  qed
qed

section \<open>The allocator as its callers see it\<close>

lemma lframe_geo:
  assumes "lframe (s :: 'z istate_scheme) t" "geo s"
    and "\<And>n. unat n < fssize s \<Longrightarrow> \<not> in_log s n \<Longrightarrow> length (blk t 1 n) = BSIZE" "\<And>n. unat n < fssize s \<Longrightarrow> \<not> used t n \<Longrightarrow> data_block s n"
  shows "geo t"
  using assms(2-4) unfolding geo_def lframe_istate [OF assms(1)] lframe_fields(7,8) [OF assms(1)] by blast

lemma used_bit:
  assumes "geo s" "unat b < fssize s" "unat n < fssize s"
    and "sb t = sb s" "blk t 1 (BBLOCK n (sb s)) = (if BBLOCK n (sb s) = BBLOCK b (sb s) then f (blk s 1 (BBLOCK b (sb s))) else blk s 1 (BBLOCK n (sb s)))"
    and "\<And>d bj. length d = BSIZE \<Longrightarrow> bj < BPB \<Longrightarrow> bit_free (f d) bj \<longleftrightarrow> (if bj = unat b mod BPB then c else bit_free d bj)"
  shows "used t n \<longleftrightarrow> (if n = b then \<not> c else used s n)"
proof -
  have "length (blk s 1 (BBLOCK b (sb s))) = BSIZE" using geoD(2-4) [OF assms(1)] bitmapI [OF assms(2)] by blast
  then have f: "bit_free (f (blk s 1 (BBLOCK b (sb s)))) (unat n mod BPB) \<longleftrightarrow>
      (if unat n mod BPB = unat b mod BPB then c else bit_free (blk s 1 (BBLOCK b (sb s))) (unat n mod BPB))"
    by (intro assms(6)) simp_all
  show ?thesis
    unfolding used_def assms(4,5) using f bit_index [of n "sb s" b] by (auto split: if_splits)
qed

lemma balloc_post_used:
  assumes g: "geo s" and b: "unat b < fssize s" "\<not> used s b" and p: "balloc_post s H b t"
  shows "geo t" "\<And>n. unat n < fssize s \<Longrightarrow> used t n \<longleftrightarrow> used s n \<or> n = b"
    "blk t 1 b = replicate BSIZE 0" "\<And>d n. (d, n) \<noteq> (1, b) \<Longrightarrow> (d, n) \<noteq> (1, BBLOCK b (sb s)) \<Longrightarrow> blk t d n = blk s d n"
    "b \<noteq> BBLOCK b (sb s)"
proof -
  let ?B = "BBLOCK b (sb s)"
  have l: "lframe s t" and bt: "blk t = put_blk (put_blk (blk s) 1 ?B (mark_used (unat b mod BPB) (blk s 1 ?B))) 1 b (replicate BSIZE 0)"
    using p by (auto simp: balloc_post_def tstep_def)
  have d: "data_block s b" by (rule geoD(8) [OF g b])
  have nb: "BBLOCK n (sb s) \<noteq> b" if "unat n < fssize s" for n using d bitmapI [OF that] by (auto simp: data_block_def)
  show "b \<noteq> BBLOCK b (sb s)" using nb [OF b(1)] by simp
  show "blk t 1 b = replicate BSIZE 0" by (simp add: bt)
  show "blk t d n = blk s d n" if "(d, n) \<noteq> (1, b)" "(d, n) \<noteq> (1, BBLOCK b (sb s))" for d n using that by (auto simp: bt)
  show u: "used t n \<longleftrightarrow> used s n \<or> n = b" if n: "unat n < fssize s" for n
  proof -
    have "used t n \<longleftrightarrow> (if n = b then \<not> False else used s n)"
    proof (rule used_bit [OF g b(1) n lframe_istate(1) [OF l]])
      show "blk t 1 (BBLOCK n (sb s)) = (if BBLOCK n (sb s) = ?B then mark_used (unat b mod BPB) (blk s 1 ?B) else blk s 1 (BBLOCK n (sb s)))"
        using nb [OF n] by (simp add: bt)
      show "bit_free (mark_used (unat b mod BPB) d) bj \<longleftrightarrow> (if bj = unat b mod BPB then False else bit_free d bj)"
        if "length d = BSIZE" "bj < BPB" for d bj using bit_mark(1) [of "unat b mod BPB" d bj] that by simp
    qed
    then show ?thesis by simp
  qed
  show "geo t"
  proof (rule lframe_geo [OF l g])
    show "length (blk t 1 n) = BSIZE" if "unat n < fssize s" "\<not> in_log s n" for n
      using geoD(2-4) [OF g] that bitmapI [OF b(1)] by (simp add: bt mark_used_def)
    show "data_block s n" if "unat n < fssize s" "\<not> used t n" for n using u [OF that(1)] that geoD(8) [OF g] by blast
  qed
qed

lemma balloc_ok:
  assumes tx: "txn s H" and g: "geo s" and n: "room s H" and H: "apart s H"
  shows "case find (\<lambda>n. \<not> used s (of_nat n)) [0..<fssize s] of
      None \<Rightarrow> balloc 1 s = Panic ''balloc: out of blocks''
    | Some n \<Rightarrow> \<exists>t. balloc 1 s = Ret (of_nat n) t \<and> balloc_post s H (of_nat n) t"
proof -
  let ?k = "(fssize s + (BPB - 1)) div BPB"
  have e: "balloc 1 s = balloc_loop ?k 1 0 s" by (simp add: balloc_def km_simps)
  have "fssize s \<le> 0 + ?k * BPB" by simp
  moreover have "0 + (?k - 1) * BPB < fssize s" if "0 < ?k"
  proof -
    have "0 < fssize s" using that by (cases "fssize s") simp_all
    have "?k * BPB \<le> fssize s + (BPB - 1)" by (metis div_times_less_eq_dividend)
    then have "(?k - 1) * BPB + BPB \<le> fssize s + (BPB - 1)" using that by (cases ?k) simp_all
    then show ?thesis by simp
  qed
  ultimately show ?thesis unfolding e by (intro balloc_loop_ok [OF tx g n H]) simp_all
qed

lemma unat_small: "k < unat (x :: u32) \<Longrightarrow> unat (of_nat k :: u32) = k"
  using unat_u32_less [of x] by (simp add: unat_of_nat del: unat_u32_less)

lemma used_of_nat: "find (\<lambda>n. \<not> used s (of_nat n)) [0..<fssize s] = None \<longleftrightarrow> (\<forall>n. unat n < fssize s \<longrightarrow> used s n)"
proof -
  have "(\<forall>k < fssize s. used s (of_nat k)) \<longleftrightarrow> (\<forall>n. unat n < fssize s \<longrightarrow> used s n)"
  proof safe
    fix n :: u32 assume "\<forall>k < fssize s. used s (of_nat k)" "unat n < fssize s"
    then have "used s (of_nat (unat n))" by blast
    then show "used s n" by simp
  next
    fix k assume a: "\<forall>n. unat n < fssize s \<longrightarrow> used s n" "k < fssize s"
    then have "unat (of_nat k :: u32) = k" by (simp add: unat_small)
    then show "used s (of_nat k)" using a by simp
  qed
  then show ?thesis by (simp add: find_None_iff)
qed

lemma balloc_Some:
  assumes "txn s H" "geo s" "room s H" "apart s H"
    and "unat n < fssize s" "\<not> used s n"
  shows "\<exists>b t. balloc 1 s = Ret b t \<and> unat b < fssize s \<and> \<not> used s b \<and> (\<forall>m. unat m < unat b \<longrightarrow> used s m) \<and> balloc_post s H b t"
proof -
  obtain k where k: "find (\<lambda>n. \<not> used s (of_nat n)) [0..<fssize s] = Some k"
    using used_of_nat [of s] assms(5,6) by (cases "find (\<lambda>n. \<not> used s (of_nat n)) [0..<fssize s]") auto
  then have f: "k < fssize s" "\<not> used s (of_nat k)" "\<forall>j < k. used s (of_nat j)" by (auto simp: find_Some_iff)
  have u: "unat (of_nat k :: u32) = k" using f(1) by (rule unat_small)
  have "used s m" if "unat m < k" for m using f(3) [rule_format, OF that] by simp
  then show ?thesis using balloc_ok [OF assms(1-4)] k f u by auto
qed

text \<open>
  C4. \<open>balloc\<close> returns the lowest block whose bit is clear. The block can hold data (it is not in the log,
  not a bitmap block and not an inode block), its bit and no other is set, it reads as zeros, and every
  other block but its bitmap block keeps its contents. Both changes are in the log and nothing is on the
  disk yet. When every block is in use \<open>balloc\<close> panics.
\<close>

theorem balloc_first_free:
  assumes "txn s []" "geo s" "lh_n s < 28"
  shows "if \<forall>n. unat n < fssize s \<longrightarrow> used s n then balloc 1 s = Panic ''balloc: out of blocks''
    else \<exists>b t. balloc 1 s = Ret b t \<and> data_block s b \<and> \<not> used s b \<and> (\<forall>n. unat n < unat b \<longrightarrow> used s n) \<and>
      (\<forall>n. unat n < fssize s \<longrightarrow> used t n = (used s n \<or> n = b)) \<and> blk t 1 b = replicate BSIZE 0 \<and>
      (\<forall>d n. (d, n) \<noteq> (1, b) \<and> (d, n) \<noteq> (1, BBLOCK b (sb s)) \<longrightarrow> blk t d n = blk s d n) \<and>
      set (logged t) = {b, BBLOCK b (sb s)} \<union> set (logged s) \<and> dsk t = dsk s \<and> txn t [] \<and> geo t"
proof (cases "\<forall>n. unat n < fssize s \<longrightarrow> used s n")
  have n: "room s []" using lh_n_txn [OF assms(1)] assms(3) by (intro room_small) simp
  have H: "apart s []" by (simp add: apart_def)
  {
    case True
    then have "find (\<lambda>n. \<not> used s (of_nat n)) [0..<fssize s] = None" using used_of_nat by blast
    then show ?thesis using balloc_ok [OF assms(1,2) n H] True by simp
  next
    case False
    then obtain b t where b: "balloc 1 s = Ret b t" "unat b < fssize s" "\<not> used s b" "\<forall>m. unat m < unat b \<longrightarrow> used s m"
      "balloc_post s [] b t" using balloc_Some [OF assms(1,2) n H] by blast
    note u = balloc_post_used [OF assms(2) b(2,3,5)]
    have "txn t []" "dsk t = dsk s" "logged t = absorb b (absorb (BBLOCK b (sb s)) (logged s))"
      using b(5) dsk_tstep by (auto simp: balloc_post_def tstep_def)
    then show ?thesis using False b u geoD(8) [OF assms(2) b(2,3)]
      by (simp only: if_False) (intro exI [of _ b] exI [of _ t], auto simp: absorb_def)
  }
qed

section \<open>Freeing a block\<close>

lemma bfree_ok:
  assumes tx: "txn s H" and g: "geo s" and n: "room s H" and H: "apart s H" and b: "unat b < fssize s"
  shows "if used s b then \<exists>t. bfree 1 b s = Ret () t \<and> txn t H \<and>
      tstep s t (put_blk (blk s) 1 (BBLOCK b (sb s)) (mark_free (unat b mod BPB) (blk s 1 (BBLOCK b (sb s)))))
        (absorb (BBLOCK b (sb s)) (logged s)) \<and> (\<forall>j \<in> set H. bufs t ! j = bufs s ! j)
    else bfree 1 b s = Panic ''freeing free block''"
proof -
  let ?B = "BBLOCK b (sb s)"
  have B: "is_bitmap s ?B" by (rule bitmapI [OF b])
  have nh: "\<forall>j \<in> set H. \<not> has_key 1 ?B (bufs s ! j)" using H B by (auto simp: apart_def)
  note up = update_step [OF tx roomD(1,2) [OF n B] geoD(4) [OF g B] geoD(1) [OF g geoD(3) [OF g B]] nh, of "mark_free (unat b mod BPB)"]
  show ?thesis
  proof (cases "used s b")
    case True
    then show ?thesis using up by (auto simp: bfree_def km_simps used_def Let_def)
  next
    case False
    then show ?thesis using up by (auto simp: bfree_def km_simps used_def Let_def)
  qed
qed

section \<open>A volume\<close>

text \<open>
  The layout \<open>mkfs\<close> gives a disk of 1000 blocks: log at 2, inodes at 32, bitmap at 58. The first 800
  blocks are in use; entry 0 of the inode cache has inode 2, an empty file.
\<close>

definition demo_vol :: istate where
  "demo_vol = demo_fs\<lparr>
     idev := demo_dev\<lparr>image := (\<lambda>d n. if n = 58 then replicate 100 0xFF @ replicate 412 0
       else if n = 32 then replicate 128 0 @ [2, 0, 0, 0, 0, 0, 1, 0] @ replicate 376 0 else replicate 512 0)\<rparr>,
     inodes := (replicate NINODE zero_inode)[0 := zero_inode\<lparr>i_dev := 1, inum := 2, iref := 1, ivalid := True, itype := T_FILE, nlink := 1\<rparr>]\<rparr>"

text \<open>Any state with this disk, an empty cache and an open transaction that has logged nothing.\<close>

definition fresh_vol :: "'z istate_scheme \<Rightarrow> bool" where
  "fresh_vol s \<longleftrightarrow> sb s = demo_sb \<and> bufs s = replicate 30 zero_buf \<and> held s = {} \<and> cur s = Some 0 \<and>
     lg_start s = 2 \<and> lh_n s = 0 \<and> lh_block s = replicate 30 0 \<and> lg_dev s = 1 \<and> lg_size s = 30 \<and> outstanding s = 1 \<and>
     \<not> memfs s \<and> havedisk1 s \<and> slocks s = (\<lambda>_. \<lparr>locked = False, slpid = 0\<rparr>) \<and> lru s = rev [0..<30] \<and>
     ptable s = [demo_proc] \<and> idequeue s = [] \<and> inodes s = inodes demo_vol \<and> idev s = idev demo_vol"

lemma fresh_demo_vol: "fresh_vol demo_vol"
  by (simp add: fresh_vol_def demo_vol_def demo_fs_def demo_log_def demo_ready_def demo_cache_def demo_bstate_def
      bstate.defs lstate.defs istate.defs)

lemma fresh_fields:
  assumes "fresh_vol s"
  shows "sb s = demo_sb" "bufs s = replicate 30 zero_buf" "held s = {}" "cur s = Some 0" "lg_start s = 2" "lh_n s = 0"
    "lh_block s = replicate 30 0" "lg_dev s = 1" "lg_size s = 30" "outstanding s = 1" "memfs s = False" "havedisk1 s"
    "slocks s = (\<lambda>_. \<lparr>locked = False, slpid = 0\<rparr>)" "lru s = rev [0..<30]" "ptable s = [demo_proc]" "idequeue s = []"
    "length (inodes s) = NINODE"
    "inodes s ! 0 = zero_inode\<lparr>i_dev := 1, inum := 2, iref := 1, ivalid := True, itype := T_FILE, nlink := 1\<rparr>"
    "dsk s 1 n = (if n = 58 then replicate 100 0xFF @ replicate 412 0
      else if n = 32 then replicate 128 0 @ [2, 0, 0, 0, 0, 0, 1, 0] @ replicate 376 0 else replicate 512 0)" "ready (idev s)" "fssize s = 1000"
  using assms
  by (simp_all add: fresh_vol_def) (simp_all add: demo_vol_def dsk_def disk_def platter_def demo_dev_def ready_def demo_sb_def)

lemma fresh_txn:
  assumes "fresh_vol s"
  shows "txn s []" "blk s = dsk s" "key_ok s 1 n \<longleftrightarrow> unat n < 1000"
proof -
  note f = fresh_fields [OF assms]
  have q: "quiet s" by (simp add: quiet_def f demo_proc_def)
  have b: "bst s []" by (rule bst_zero [OF _ q]) (auto simp: f)
  have d: "dirty s = {}" by (auto simp: dirty_def dirtyf_def f zero_buf_def bdirty_def)
  show k: "key_ok s 1 n \<longleftrightarrow> unat n < 1000" for n by (simp add: key_ok_def f word_less_nat_alt)
  show "blk s = dsk s" by (rule bst_clean [OF b d])
  show "txn s []" using b d by (simp add: txn_def lgeo_def lhdr_def in_log_def f k)
qed

lemma fresh_map:
  assumes "fresh_vol s"
  shows "is_bitmap s n \<longleftrightarrow> n = 58" "is_iblock s n \<Longrightarrow> 32 \<le> unat n \<and> unat n < 57" "unat n < 1000 \<Longrightarrow> used s n \<longleftrightarrow> unat n < 800"
proof -
  note f = fresh_fields [OF assms]
  have z: "BBLOCK b demo_sb = 58" if "unat b < 1000" for b
  proof -
    have "b div 4096 = 0" using that by (simp add: word_unat_eq_iff unat_div)
    then show ?thesis by (simp add: BBLOCK_def demo_sb_def)
  qed
  show "is_bitmap s n \<longleftrightarrow> n = 58"
    unfolding is_bitmap_def f(1) using z by (auto simp: demo_sb_def intro: exI [of _ 0])
  show "32 \<le> unat n \<and> unat n < 57" if i: "is_iblock s n"
  proof -
    obtain k where k: "unat k < 200" "n = k div 8 + 32"
      using i by (auto simp: is_iblock_def f(1) demo_sb_def IBLOCK_def)
    then have l: "unat (k div 8) < 25" by (simp add: unat_div)
    then have "unat n = unat (k div 8) + 32" unfolding k(2) by (subst unat_add_u32) simp_all
    with l show ?thesis by simp
  qed
  show "used s n \<longleftrightarrow> unat n < 800" if "unat n < 1000"
  proof -
    have m: "(0xFF :: u8) = mask 8" by (simp add: mask_eq_exp_minus_1)
    have "bit (0xFF :: u8) (unat n mod 8)" unfolding m bit_mask_iff by simp
    then show ?thesis
      unfolding used_def f(1) z [OF that] fresh_txn(2) [OF assms] f(19) bit_free_bit using that by (auto simp: nth_append)
  qed
qed

lemma fresh_geo: "fresh_vol s \<Longrightarrow> geo s"
proof -
  assume a: "fresh_vol s"
  note f = fresh_fields [OF a] and m = fresh_map [OF a] and t = fresh_txn [OF a]
  have "data_block s n" if "800 \<le> unat n" "unat n < 1000" for n
    using that m(2) [of n] by (auto simp: data_block_def m(1) in_log_def f(5) f(21))
  then show ?thesis
    unfolding geo_def f(21) t(2) by (auto simp: m(1,3) t(3) f(19) in_log_def f(5) dest: m(2))
qed

lemmas demo_vol_fields = fresh_fields(1-18) [OF fresh_demo_vol]
lemmas demo_vol_txn = fresh_txn [OF fresh_demo_vol]
lemmas demo_vol_map = fresh_map [OF fresh_demo_vol]
lemmas demo_vol_geo = fresh_geo [OF fresh_demo_vol]

theorem balloc_first_free_witness: "\<exists>t. balloc 1 demo_vol = Ret 800 t \<and> used t 800 \<and> blk t 1 800 = replicate BSIZE 0"
proof -
  have z: "fssize demo_vol = 1000" by (simp add: demo_vol_fields demo_sb_def)
  have "\<not> used demo_vol 800" using demo_vol_map(3) [of 800] by simp
  then have n: "\<not> (\<forall>n. unat n < fssize demo_vol \<longrightarrow> used demo_vol n)" using z by (intro notI) auto
  have "lh_n demo_vol < 28" by (simp add: demo_vol_fields)
  then obtain b t where b: "balloc 1 demo_vol = Ret b t" "data_block demo_vol b" "\<not> used demo_vol b" "\<forall>n. unat n < unat b \<longrightarrow> used demo_vol n"
    "\<forall>n. unat n < fssize demo_vol \<longrightarrow> used t n = (used demo_vol n \<or> n = b)" "blk t 1 b = replicate BSIZE 0"
    using balloc_first_free [OF demo_vol_txn(1) demo_vol_geo] unfolding if_not_P [OF n] by blast
  have "unat b < 1000" using b(2) z by (simp add: data_block_def)
  then have "\<not> unat b < 800" using b(3) demo_vol_map(3) by blast
  moreover have "\<not> 800 < unat b" using b(4) \<open>\<not> used demo_vol 800\<close> by auto
  ultimately have "b = 800" by (simp add: word_unat_eq_iff)
  then show ?thesis using b(1,5,6) z by auto
qed

end
