(* ===== verification/Contents.thy ===== *)
theory Contents
  imports Blocks
begin

text \<open>
  The contents of a file: the bytes its inode reaches through direct and indirect addresses, and how
  \<open>bmap\<close>, \<open>readi\<close> and \<open>writei\<close> use and change them inside a transaction.
\<close>

section \<open>Changing the inode cache\<close>

lemma dsk_ino [simp]: "dsk (s\<lparr>inodes := x\<rparr>) = dsk s"
  by (auto simp: dsk_def disk_def fun_eq_iff)

lemma ino_simps [simp]:
  "blk (s\<lparr>inodes := x\<rparr>) = blk s" "dirty (s\<lparr>inodes := x\<rparr>) = dirty s" "in_log (s\<lparr>inodes := x\<rparr>) = in_log s"
  "key_ok (s\<lparr>inodes := x\<rparr>) = key_ok s" "is_bitmap (s\<lparr>inodes := x\<rparr>) = is_bitmap s" "is_iblock (s\<lparr>inodes := x\<rparr>) = is_iblock s"
  "used (s\<lparr>inodes := x\<rparr>) = used s" "data_block (s\<lparr>inodes := x\<rparr>) = data_block s" "geo (s\<lparr>inodes := x\<rparr>) = geo s"
proof -
  show b: "blk (s\<lparr>inodes := x\<rparr>) = blk s" "dirty (s\<lparr>inodes := x\<rparr>) = dirty s" "in_log (s\<lparr>inodes := x\<rparr>) = in_log s"
    "key_ok (s\<lparr>inodes := x\<rparr>) = key_ok s" "is_bitmap (s\<lparr>inodes := x\<rparr>) = is_bitmap s" "is_iblock (s\<lparr>inodes := x\<rparr>) = is_iblock s"
    by (simp_all add: blk_def dirty_def in_log_def key_ok_def is_bitmap_def is_iblock_def fun_eq_iff)
  then show u: "used (s\<lparr>inodes := x\<rparr>) = used s" "data_block (s\<lparr>inodes := x\<rparr>) = data_block s"
    by (simp_all add: used_def data_block_def fun_eq_iff)
  show "geo (s\<lparr>inodes := x\<rparr>) = geo s" by (simp add: geo_def b u)
qed

lemma txn_ino [simp]: "txn (s\<lparr>inodes := x\<rparr>) H = txn s H"
proof -
  have "bst (s\<lparr>inodes := x\<rparr>) H = bst s H" by (simp add: bst_def binv_def mine_def quiet_def curpid_def)
  moreover have "lgeo (s\<lparr>inodes := x\<rparr>) = lgeo s" "lhdr (s\<lparr>inodes := x\<rparr>) = lhdr s" by (simp_all add: lgeo_def lhdr_def)
  ultimately show ?thesis by (simp add: txn_def)
qed

lemma lframe_ino: "lframe s t \<Longrightarrow> lframe (s\<lparr>inodes := x\<rparr>) (t\<lparr>inodes := x\<rparr>)"
  unfolding lframe_def
proof (elim exE)
  fix m bl assume f: "bframe (s\<lparr>lh_block := bl, lh_n := m\<rparr>) t"
  then have e: "t = s\<lparr>lh_block := bl, lh_n := m, ptable := ptable t, slocks := slocks t, bufs := bufs t, lru := lru t, idev := idev t\<rparr>"
    by (simp add: bframe_def)
  have "t\<lparr>inodes := x\<rparr> = s\<lparr>inodes := x, lh_block := bl, lh_n := m, ptable := ptable t, slocks := slocks t,
      bufs := bufs t, lru := lru t, idev := idev t\<rparr>" by (subst e) simp
  with f have "bframe (s\<lparr>inodes := x, lh_block := bl, lh_n := m\<rparr>) (t\<lparr>inodes := x\<rparr>)" by (simp add: bframe_def)
  then show "\<exists>m bl. bframe (s\<lparr>inodes := x, lh_block := bl, lh_n := m\<rparr>) (t\<lparr>inodes := x\<rparr>)" by blast
qed

text \<open>
  What an operation on the contents of inode \<open>i\<close> leaves alone: everything but the cache, the header of
  the log, and the addresses and size of that inode.
\<close>

definition fframe :: "nat \<Rightarrow> 'z istate_scheme \<Rightarrow> 'z istate_scheme \<Rightarrow> bool" where
  "fframe i s t \<longleftrightarrow> lframe (s\<lparr>inodes := inodes t\<rparr>) t \<and> written (idev t) = written (idev s) \<and>
     (\<exists>a z. inodes t = (inodes s)[i := (ino i s)\<lparr>addrs := a, isize := z\<rparr>])"

lemma fframe_trans:
  assumes "fframe i s t" "fframe i t u"
  shows "fframe i s u"
proof -
  obtain a z b y where e: "inodes t = (inodes s)[i := (ino i s)\<lparr>addrs := a, isize := z\<rparr>]"
    "inodes u = (inodes t)[i := (ino i t)\<lparr>addrs := b, isize := y\<rparr>]"
    using assms by (auto simp: fframe_def)
  then have "inodes u = (inodes s)[i := (ino i s)\<lparr>addrs := b, isize := y\<rparr>]"
    by (cases "i < length (inodes s)") (simp_all add: list_update_beyond)
  moreover have "lframe (s\<lparr>inodes := inodes u\<rparr>) u"
    using lframe_ino [of "s\<lparr>inodes := inodes t\<rparr>" t "inodes u"] assms lframe_trans by (fastforce simp: fframe_def)
  ultimately show ?thesis using assms by (auto simp: fframe_def)
qed

lemma fframe_fields:
  assumes "fframe i s t"
  shows "sb t = sb s" "istate.more t = istate.more s" "is_bitmap t = is_bitmap s" "is_iblock t = is_iblock s" "data_block t = data_block s"
    "in_log t = in_log s" "key_ok t = key_ok s" "length (inodes t) = length (inodes s)" "\<And>j. j \<noteq> i \<Longrightarrow> ino j t = ino j s"
    "i_dev (ino i t) = i_dev (ino i s)" "itype (ino i t) = itype (ino i s)" "inum (ino i t) = inum (ino i s)" "dsk t = dsk s"
    "imajor (ino i t) = imajor (ino i s)" "iminor (ino i t) = iminor (ino i s)" "nlink (ino i t) = nlink (ino i s)"
proof -
  have l: "lframe (s\<lparr>inodes := inodes t\<rparr>) t" using assms by (simp add: fframe_def)
  obtain a z where e: "inodes t = (inodes s)[i := (ino i s)\<lparr>addrs := a, isize := z\<rparr>]" using assms by (auto simp: fframe_def)
  show "sb t = sb s" "istate.more t = istate.more s" "is_bitmap t = is_bitmap s" "is_iblock t = is_iblock s" "data_block t = data_block s"
    "in_log t = in_log s" "key_ok t = key_ok s"
    using lframe_istate [OF l] lframe_fields(7) [OF l] lframe_fields(8) [OF l] by (simp_all add: fun_eq_iff)
  show "length (inodes t) = length (inodes s)" "\<And>j. j \<noteq> i \<Longrightarrow> ino j t = ino j s" by (simp_all add: e)
  show "i_dev (ino i t) = i_dev (ino i s)" "itype (ino i t) = itype (ino i s)" "inum (ino i t) = inum (ino i s)"
    "imajor (ino i t) = imajor (ino i s)" "iminor (ino i t) = iminor (ino i s)" "nlink (ino i t) = nlink (ino i s)"
    unfolding e by (cases "i < length (inodes s)", simp_all add: list_update_beyond)+
  show "dsk t = dsk s" using disk_cong [of t s] lframe_fields(12) [OF l] assms by (simp add: fframe_def)
qed

lemma tstep_fframe: "tstep s t f L \<Longrightarrow> fframe i s t"
proof -
  assume a: "tstep s t f L"
  have e: "inodes t = inodes s" using a lframe_istate(2) [of s t] by (simp add: tstep_def)
  have "inodes s = (inodes s)[i := (ino i s)\<lparr>addrs := addrs (ino i s), isize := isize (ino i s)\<rparr>]" by simp
  then have "\<exists>a z. inodes s = (inodes s)[i := (ino i s)\<lparr>addrs := a, isize := z\<rparr>]" by blast
  then show "fframe i s t" unfolding fframe_def e using a by (simp add: tstep_def)
qed

lemma upd_ino_fframe: "fframe i s (upd_ino i (\<lambda>ip. ip\<lparr>addrs := a, isize := z\<rparr>) s)"
  unfolding fframe_def upd_ino_def by (auto intro: bframe_lframe)

section \<open>The bytes of a file\<close>

abbreviation (input) ind :: "'z istate_scheme \<Rightarrow> nat \<Rightarrow> u32" where
  "ind s i \<equiv> addrs (ino i s) ! NDIRECT"

text \<open>The address of block \<open>bn\<close> of the file, 0 when it has none.\<close>

definition baddr :: "'z istate_scheme \<Rightarrow> nat \<Rightarrow> nat \<Rightarrow> u32" where
  "baddr s i bn = (if bn < NDIRECT then addrs (ino i s) ! bn else if ind s i = 0 then 0
     else get32 (blk s 1 (ind s i)) (4 * (bn - NDIRECT)))"

definition fbyte :: "'z istate_scheme \<Rightarrow> nat \<Rightarrow> nat \<Rightarrow> u8" where
  "fbyte s i k = (if baddr s i (k div BSIZE) = 0 then 0 else blk s 1 (baddr s i (k div BSIZE)) ! (k mod BSIZE))"

definition owns :: "'z istate_scheme \<Rightarrow> u32 \<Rightarrow> bool" where
  "owns s a \<longleftrightarrow> data_block s a \<and> used s a"

text \<open>An inode whose addresses are different blocks in use.\<close>

definition file_ok :: "'z istate_scheme \<Rightarrow> nat \<Rightarrow> bool" where
  "file_ok s i \<longleftrightarrow> i < length (inodes s) \<and> i_dev (ino i s) = 1 \<and> length (addrs (ino i s)) = NDIRECT + 1 \<and>
     (ind s i \<noteq> 0 \<longrightarrow> owns s (ind s i)) \<and>
     (\<forall>m < MAXFILE. baddr s i m \<noteq> 0 \<longrightarrow> owns s (baddr s i m) \<and> baddr s i m \<noteq> ind s i) \<and>
     (\<forall>m < MAXFILE. \<forall>n < MAXFILE. baddr s i m = baddr s i n \<and> baddr s i m \<noteq> 0 \<longrightarrow> m = n)"

text \<open>A volume whose bitmap is one block, as \<open>mkfs\<close> makes it, inside a transaction with no buffer held.\<close>

definition vol :: "'z istate_scheme \<Rightarrow> bool" where
  "vol s \<longleftrightarrow> txn s [] \<and> geo s \<and> fssize s \<le> BPB"

abbreviation (input) bmb :: "'z istate_scheme \<Rightarrow> u32" where
  "bmb s \<equiv> sb_bmapstart (sb s)"

definition free_blocks :: "'z istate_scheme \<Rightarrow> u32 set" where
  "free_blocks s = {n. unat n < fssize s \<and> \<not> used s n}"

lemma BBLOCK_one: "fssize s \<le> BPB \<Longrightarrow> unat b < fssize s \<Longrightarrow> BBLOCK b (sb s) = bmb s"
  using BBLOCK_eq [of b 0 "sb s"] by (simp add: BBLOCK_def)

lemma bitmap_one: "fssize s \<le> BPB \<Longrightarrow> is_bitmap s n \<Longrightarrow> n = bmb s"
  using BBLOCK_one by (auto simp: is_bitmap_def)

text \<open>
  A step that gives the file the blocks \<open>N\<close>: no byte of the file changes, no address it has, and no other
  block in use but the bitmap and the indirect block.
\<close>

definition grows :: "nat \<Rightarrow> 'z istate_scheme \<Rightarrow> 'z istate_scheme \<Rightarrow> u32 set \<Rightarrow> bool" where
  "grows i s t N \<longleftrightarrow> fframe i s t \<and> vol t \<and> file_ok t i \<and> isize (ino i t) = isize (ino i s) \<and> N \<subseteq> free_blocks s \<and>
     (\<forall>k < MAXFILE * BSIZE. fbyte t i k = fbyte s i k) \<and>
     (\<forall>n. unat n < fssize s \<longrightarrow> used t n = (used s n \<or> n \<in> N)) \<and>
     (\<forall>n. used s n \<and> unat n < fssize s \<and> n \<noteq> bmb s \<and> n \<noteq> ind s i \<longrightarrow> blk t 1 n = blk s 1 n) \<and>
     (\<forall>m < MAXFILE. baddr s i m \<noteq> 0 \<longrightarrow> baddr t i m = baddr s i m) \<and>
     (\<forall>m < MAXFILE. baddr t i m = baddr s i m \<or> baddr t i m \<in> N) \<and>
     (ind s i \<noteq> 0 \<longrightarrow> ind t i = ind s i) \<and> (ind s i = 0 \<longrightarrow> ind t i = 0 \<or> ind t i \<in> N) \<and>
     set (logged t) \<subseteq> set (logged s) \<union> N \<union> {bmb s} \<union> ({ind t i} - {0})"

lemma growsD:
  assumes "grows i s t N"
  shows "fframe i s t" "vol t" "file_ok t i" "isize (ino i t) = isize (ino i s)" "N \<subseteq> free_blocks s"
    "k < MAXFILE * BSIZE \<Longrightarrow> fbyte t i k = fbyte s i k" "unat n < fssize s \<Longrightarrow> used t n = (used s n \<or> n \<in> N)"
    "used s n \<Longrightarrow> unat n < fssize s \<Longrightarrow> n \<noteq> bmb s \<Longrightarrow> n \<noteq> ind s i \<Longrightarrow> blk t 1 n = blk s 1 n"
    "m < MAXFILE \<Longrightarrow> baddr s i m \<noteq> 0 \<Longrightarrow> baddr t i m = baddr s i m" "m < MAXFILE \<Longrightarrow> baddr t i m = baddr s i m \<or> baddr t i m \<in> N"
    "ind s i \<noteq> 0 \<Longrightarrow> ind t i = ind s i" "ind s i = 0 \<Longrightarrow> ind t i = 0 \<or> ind t i \<in> N"
    "set (logged t) \<subseteq> set (logged s) \<union> N \<union> {bmb s} \<union> ({ind t i} - {0})"
    "sb t = sb s" "free_blocks t = free_blocks s - N"
proof -
  show "fframe i s t" "vol t" "file_ok t i" "isize (ino i t) = isize (ino i s)" "N \<subseteq> free_blocks s"
    "k < MAXFILE * BSIZE \<Longrightarrow> fbyte t i k = fbyte s i k" and u: "unat n < fssize s \<Longrightarrow> used t n = (used s n \<or> n \<in> N)"
    and "used s n \<Longrightarrow> unat n < fssize s \<Longrightarrow> n \<noteq> bmb s \<Longrightarrow> n \<noteq> ind s i \<Longrightarrow> blk t 1 n = blk s 1 n"
    "m < MAXFILE \<Longrightarrow> baddr s i m \<noteq> 0 \<Longrightarrow> baddr t i m = baddr s i m" "m < MAXFILE \<Longrightarrow> baddr t i m = baddr s i m \<or> baddr t i m \<in> N"
    "ind s i \<noteq> 0 \<Longrightarrow> ind t i = ind s i" "ind s i = 0 \<Longrightarrow> ind t i = 0 \<or> ind t i \<in> N"
    "set (logged t) \<subseteq> set (logged s) \<union> N \<union> {bmb s} \<union> ({ind t i} - {0})" for n
    using assms by (simp_all add: grows_def)
  show sb: "sb t = sb s" by (rule fframe_fields(1) [OF \<open>fframe i s t\<close>])
  show "free_blocks t = free_blocks s - N" using u by (auto simp: free_blocks_def sb)
qed

lemma grows_trans:
  assumes a: "grows i s t N" and b: "grows i t u M"
  shows "grows i s u (N \<union> M)"
proof -
  note A = growsD [OF a] and B = growsD [OF b]
  have "blk u 1 n = blk s 1 n" if n: "used s n" "unat n < fssize s" "n \<noteq> bmb s" "n \<noteq> ind s i" for n
  proof -
    have "n \<noteq> ind t i"
    proof (cases "ind s i = 0")
      case True
      then have "ind t i = 0 \<or> ind t i \<in> N" by (rule A(12))
      then show ?thesis using n True A(5) by (auto simp: free_blocks_def)
    next
      case False
      then show ?thesis using A(11) n(4) by simp
    qed
    moreover have "used t n" "unat n < fssize t" "n \<noteq> bmb t" using A(7) A(14) n by simp_all
    ultimately show ?thesis using A(8) [OF n] B(8) [of n] by simp
  qed
  moreover have "set (logged u) \<subseteq> set (logged s) \<union> (N \<union> M) \<union> {bmb s} \<union> ({ind u i} - {0})"
    using A(13) B(13) B(11) A(14) by (cases "ind t i = 0") auto
  moreover have "ind s i = 0 \<longrightarrow> ind u i = 0 \<or> ind u i \<in> N \<union> M" using A(12) B(11,12) by (cases "ind t i = 0") auto
  moreover have "ind s i \<noteq> 0 \<longrightarrow> ind u i = ind s i" using A(11) B(11) by simp
  moreover have "\<forall>m < MAXFILE. baddr s i m \<noteq> 0 \<longrightarrow> baddr u i m = baddr s i m" using A(9) B(9) by simp
  moreover have "\<forall>m < MAXFILE. baddr u i m = baddr s i m \<or> baddr u i m \<in> N \<union> M"
  proof (intro allI impI)
    fix m :: nat assume "m < MAXFILE"
    then show "baddr u i m = baddr s i m \<or> baddr u i m \<in> N \<union> M" using A(10) [of m] B(10) [of m] by auto
  qed
  moreover have "\<forall>n. unat n < fssize s \<longrightarrow> used u n = (used s n \<or> n \<in> N \<union> M)" using A(7,14) B(7) by auto
  moreover have "N \<union> M \<subseteq> free_blocks s" using A(5,15) B(5) by auto
  moreover have "fframe i s u" using A(1) B(1) fframe_trans by blast
  moreover have "\<forall>k < MAXFILE * BSIZE. fbyte u i k = fbyte s i k" using A(6) B(6) by simp
  moreover have "isize (ino i u) = isize (ino i s)" using A(4) B(4) by simp
  ultimately show ?thesis using B(2,3) unfolding grows_def by blast
qed

lemma volD: "vol s \<Longrightarrow> txn s []" "vol s \<Longrightarrow> geo s" "vol s \<Longrightarrow> fssize s \<le> BPB"
  by (simp_all add: vol_def)

lemma owns_neq: "vol s \<Longrightarrow> owns s a \<Longrightarrow> a \<noteq> bmb s \<and> unat a < fssize s \<and> used s a \<and> a \<noteq> 0 \<and> \<not> in_log s a"
  using bitmapI [of 0 s] BBLOCK_one [of s 0] by (cases "0 < fssize s") (auto simp: owns_def data_block_def vol_def)

lemma grows_view:
  assumes "same_view s t" "vol s" "file_ok s i" "txn t []"
  shows "grows i s t {}"
proof -
  note v = same_view_fs [OF assms(1)]
  have "baddr t i = baddr s i" by (simp add: baddr_def v fun_eq_iff)
  moreover have "fbyte t i = fbyte s i" using calculation by (simp add: fbyte_def v fun_eq_iff)
  moreover have "fframe i s t" by (rule tstep_fframe [OF same_view_tstep [OF assms(1)]])
  ultimately show ?thesis using assms v by (auto simp: grows_def vol_def file_ok_def owns_def)
qed

lemma file_okD:
  assumes "file_ok s i"
  shows "i < length (inodes s)" "i_dev (ino i s) = 1" "length (addrs (ino i s)) = NDIRECT + 1" "ind s i \<noteq> 0 \<Longrightarrow> owns s (ind s i)"
    "m < MAXFILE \<Longrightarrow> baddr s i m \<noteq> 0 \<Longrightarrow> owns s (baddr s i m)" "m < MAXFILE \<Longrightarrow> baddr s i m \<noteq> 0 \<Longrightarrow> baddr s i m \<noteq> ind s i"
    "m < MAXFILE \<Longrightarrow> n < MAXFILE \<Longrightarrow> baddr s i m = baddr s i n \<Longrightarrow> baddr s i m \<noteq> 0 \<Longrightarrow> m = n"
  using assms unfolding file_ok_def by blast+

text \<open>One new block \<open>b\<close>: as block \<open>bn\<close> of the file, or as its indirect block.\<close>

lemma new_block:
  assumes s: "vol s" "file_ok s i" and b: "b \<in> free_blocks s"
    and t: "fframe i s t" "vol t" "length (addrs (ino i t)) = NDIRECT + 1"
    and us: "\<And>n. unat n < fssize s \<Longrightarrow> used t n \<longleftrightarrow> used s n \<or> n = b" and z: "blk t 1 b = replicate BSIZE 0"
    and bl: "\<And>n. used s n \<Longrightarrow> unat n < fssize s \<Longrightarrow> n \<noteq> bmb s \<Longrightarrow> n \<noteq> ind s i \<Longrightarrow> blk t 1 n = blk s 1 n"
    and new: "(\<exists>bn < MAXFILE. baddr s i bn = 0 \<and> (\<forall>m < MAXFILE. baddr t i m = (if m = bn then b else baddr s i m)) \<and> ind t i = ind s i) \<or>
      (\<forall>m < MAXFILE. baddr t i m = baddr s i m) \<and> ind s i = 0 \<and> ind t i = b"
  shows "file_ok t i" "\<And>k. k < MAXFILE * BSIZE \<Longrightarrow> fbyte t i k = fbyte s i k"
proof -
  note f = fframe_fields [OF t(1)]
  have bd: "data_block s b" using geoD(8) [OF volD(2) [OF s(1)]] b by (auto simp: free_blocks_def)
  have bs: "unat b < fssize s" "\<not> used s b" "b \<noteq> 0" using b bd by (auto simp: free_blocks_def data_block_def)
  have ob: "owns t b" using bd us [OF bs(1)] by (simp add: owns_def f)
  have keep: "owns s a \<Longrightarrow> owns t a \<and> a \<noteq> b" for a using us [of a] bs(2) by (auto simp: owns_def f data_block_def)
  have old: "ind s i \<noteq> 0 \<longrightarrow> owns s (ind s i)" "\<And>m. m < MAXFILE \<Longrightarrow> baddr s i m \<noteq> 0 \<Longrightarrow> owns s (baddr s i m) \<and> baddr s i m \<noteq> ind s i"
    "\<And>m n. m < MAXFILE \<Longrightarrow> n < MAXFILE \<Longrightarrow> baddr s i m = baddr s i n \<Longrightarrow> baddr s i m \<noteq> 0 \<Longrightarrow> m = n"
    using file_okD [OF s(2)] by blast+
  have base: "i < length (inodes t)" "i_dev (ino i t) = 1" using s(2) f by (simp_all add: file_ok_def)
  show "file_ok t i"
    using new
  proof (elim disjE exE conjE)
    fix bn assume n: "bn < MAXFILE" "baddr s i bn = 0" "\<forall>m < MAXFILE. baddr t i m = (if m = bn then b else baddr s i m)" "ind t i = ind s i"
    have "ind t i \<noteq> 0 \<longrightarrow> owns t (ind t i)" using old(1) keep n(4) by metis
    moreover have "owns t (baddr t i m) \<and> baddr t i m \<noteq> ind t i" if m: "m < MAXFILE" "baddr t i m \<noteq> 0" for m
    proof (cases "m = bn")
      case True
      then have "baddr t i m = b" using n(3) m by simp
      then show ?thesis using ob keep old(1) n(4) bs(3) by metis
    next
      case False
      then have "baddr t i m = baddr s i m" using n(3) m by simp
      then show ?thesis using old(2) [OF m(1)] keep n(4) m(2) by metis
    qed
    moreover have "m = k" if "m < MAXFILE" "k < MAXFILE" "baddr t i m = baddr t i k" "baddr t i m \<noteq> 0" for m k
    proof -
      have "baddr t i m = (if m = bn then b else baddr s i m)" "baddr t i k = (if k = bn then b else baddr s i k)" using n(3) that by blast+
      then show ?thesis using that old(2) old(3) keep by metis
    qed
    ultimately show ?thesis using base t(3) unfolding file_ok_def by blast
  next
    assume n: "\<forall>m < MAXFILE. baddr t i m = baddr s i m" "ind s i = 0" "ind t i = b"
    have "owns t (baddr t i m) \<and> baddr t i m \<noteq> ind t i" if m: "m < MAXFILE" "baddr t i m \<noteq> 0" for m
      using n m old(2) [OF m(1)] keep by metis
    moreover have "m = k" if "m < MAXFILE" "k < MAXFILE" "baddr t i m = baddr t i k" "baddr t i m \<noteq> 0" for m k
      using n(1) that old(3) by metis
    ultimately show ?thesis using base t(3) ob n(3) unfolding file_ok_def by blast
  qed
  have ow: "owns s a \<Longrightarrow> a \<noteq> ind s i \<Longrightarrow> blk t 1 a = blk s 1 a" for a using owns_neq [OF s(1)] bl by blast
  show "fbyte t i k = fbyte s i k" if k: "k < MAXFILE * BSIZE" for k
  proof -
    have m: "k div BSIZE < MAXFILE" using k by (simp add: less_mult_imp_div_less)
    have same: "fbyte t i k = fbyte s i k" if "baddr t i (k div BSIZE) = baddr s i (k div BSIZE)"
      using that old(2) [OF m] ow by (auto simp: fbyte_def)
    have "fbyte t i k = fbyte s i k" if "baddr s i (k div BSIZE) = 0" "baddr t i (k div BSIZE) = b"
      using that z by (simp add: fbyte_def)
    with same show ?thesis using new m by metis
  qed
qed

lemma upd_addrs_fframe: "fframe i s (upd_ino i (\<lambda>ip. ip\<lparr>addrs := f (addrs ip)\<rparr>) s)"
proof -
  have "upd_ino i (\<lambda>ip. ip\<lparr>addrs := f (addrs ip)\<rparr>) s = upd_ino i (\<lambda>ip. ip\<lparr>addrs := f (addrs (ino i s)), isize := isize (ino i s)\<rparr>) s"
    by (simp add: upd_ino_def)
  then show ?thesis using upd_ino_fframe [of i s] by simp
qed

lemma get32_zeros: "k + 4 \<le> n \<Longrightarrow> get32 (replicate n 0) k = 0"
  by (simp add: get32_def)

lemma balloc_free:
  assumes "geo s" "fssize s \<le> BPB" "txn s H" "room s H" "apart s H" "free_blocks s \<noteq> {}"
  shows "\<exists>b t. balloc 1 s = Ret b t \<and> b \<in> free_blocks s \<and> b \<noteq> 0 \<and> txn t H \<and> lframe s t \<and> geo t \<and> fssize t \<le> BPB \<and>
    (\<forall>n. unat n < fssize s \<longrightarrow> used t n = (used s n \<or> n = b)) \<and> blk t 1 b = replicate BSIZE 0 \<and>
    (\<forall>n. n \<noteq> b \<and> n \<noteq> bmb s \<longrightarrow> blk t 1 n = blk s 1 n) \<and> logged t = absorb b (absorb (bmb s) (logged s)) \<and>
    written (idev t) = written (idev s) \<and> (\<forall>j \<in> set H. bufs t ! j = bufs s ! j)"
proof -
  obtain n where n: "unat n < fssize s" "\<not> used s n" using assms(6) by (auto simp: free_blocks_def)
  obtain b t where b: "balloc 1 s = Ret b t" "unat b < fssize s" "\<not> used s b" "balloc_post s H b t"
    using balloc_Some [OF assms(3,1,4,5) n] by blast
  note u = balloc_post_used [OF assms(1) b(2-4)]
  have B: "BBLOCK b (sb s) = bmb s" by (rule BBLOCK_one [OF assms(2) b(2)])
  have p: "txn t H" "lframe s t" "logged t = absorb b (absorb (bmb s) (logged s))" "written (idev t) = written (idev s)"
    "\<forall>j \<in> set H. bufs t ! j = bufs s ! j"
    using b(4) by (auto simp: balloc_post_def tstep_def B)
  have "b \<noteq> 0" using geoD(8) [OF assms(1) b(2,3)] by (simp add: data_block_def)
  moreover have "fssize t \<le> BPB" using assms(2) lframe_istate(1) [OF p(2)] by simp
  ultimately show ?thesis using b(1-3) p u B by (intro exI [of _ b] exI [of _ t]) (auto simp: free_blocks_def)
qed

lemma balloc_slot:
  assumes s: "vol s" "file_ok s i" "room s []" "free_blocks s \<noteq> {}" and j: "j \<le> NDIRECT" "addrs (ino i s) ! j = 0"
  shows "\<exists>b t. balloc 1 s = Ret b t \<and> b \<noteq> 0 \<and>
    (let t' = upd_ino i (\<lambda>ip. ip\<lparr>addrs := (addrs ip)[j := b]\<rparr>) t in grows i s t' {b} \<and> addrs (ino i t') ! j = b \<and>
      (j = NDIRECT \<longrightarrow> (\<forall>m < MAXFILE. baddr t' i m = baddr s i m)))"
proof -
  obtain b t where t: "balloc 1 s = Ret b t" "b \<in> free_blocks s" "b \<noteq> 0" "txn t []" "lframe s t" "geo t" "fssize t \<le> BPB"
    "\<forall>n. unat n < fssize s \<longrightarrow> used t n = (used s n \<or> n = b)" "blk t 1 b = replicate BSIZE 0"
    "\<forall>n. n \<noteq> b \<and> n \<noteq> bmb s \<longrightarrow> blk t 1 n = blk s 1 n" "logged t = absorb b (absorb (bmb s) (logged s))"
    "written (idev t) = written (idev s)"
    using balloc_free [OF volD(2,3,1) [OF s(1)] s(3) _ s(4)] by (auto simp: apart_def)
  let ?t = "upd_ino i (\<lambda>ip. ip\<lparr>addrs := (addrs ip)[j := b]\<rparr>) t"
  have it: "inodes t = inodes s" by (rule lframe_istate(2) [OF t(5)])
  have i: "i < length (inodes s)" "length (addrs (ino i s)) = 13" using s(2) by (simp_all add: file_ok_def)
  have u: "ino i ?t = (ino i s)\<lparr>addrs := (addrs (ino i s))[j := b]\<rparr>" "blk ?t = blk t" "used ?t = used t" "geo ?t" "txn ?t []"
    "logged ?t = logged t" "sb ?t = sb t"
    using i it t(4,6) by (simp_all add: upd_ino_def)
  have fr: "fframe i s ?t" using fframe_trans [OF tstep_fframe upd_addrs_fframe] t(5,12) by (fastforce simp: tstep_def)
  have v: "vol ?t" using u t(7) by (simp add: vol_def)
  have nb: "\<not> used s b" using t(2) by (simp add: free_blocks_def)
  have bl: "blk ?t 1 n = blk s 1 n" if "used s n" "n \<noteq> bmb s" for n using that t(10) nb u(2) by metis
  have old: "ind s i \<noteq> 0 \<Longrightarrow> blk ?t 1 (ind s i) = blk s 1 (ind s i)" using owns_neq [OF s(1) file_okD(4) [OF s(2)]] bl by blast
  have new: "(\<exists>bn < MAXFILE. baddr s i bn = 0 \<and> (\<forall>m < MAXFILE. baddr ?t i m = (if m = bn then b else baddr s i m)) \<and> ind ?t i = ind s i) \<or>
      (\<forall>m < MAXFILE. baddr ?t i m = baddr s i m) \<and> ind s i = 0 \<and> ind ?t i = b"
  proof (cases "j = NDIRECT")
    case True
    have "baddr ?t i m = baddr s i m" if "m < MAXFILE" for m
      unfolding baddr_def u(1,2) using that True i j(2) t(3,9) by (auto simp: get32_zeros)
    moreover have "ind ?t i = b" "ind s i = 0" unfolding u(1) using True i j(2) by simp_all
    ultimately show ?thesis by blast
  next
    case False
    then have "baddr s i j = 0" "\<forall>m < MAXFILE. baddr ?t i m = (if m = j then b else baddr s i m)" "ind ?t i = ind s i"
      unfolding baddr_def u(1) using j i old False by (auto simp: nth_list_update)
    then show ?thesis using False j(1) by (intro disjI1 exI [of _ j]) simp
  qed
  have w: "\<And>n. unat n < fssize s \<Longrightarrow> used ?t n = (used s n \<or> n = b)" "blk ?t 1 b = replicate BSIZE 0" using t(8,9) u(2,3) by auto
  have "file_ok ?t i" and "\<And>k. k < MAXFILE * BSIZE \<Longrightarrow> fbyte ?t i k = fbyte s i k"
    by (rule new_block [OF s(1,2) t(2) fr v _ w _ new]; use i bl in \<open>simp add: u(1)\<close>)+
  moreover have "set (logged ?t) \<subseteq> set (logged s) \<union> {b} \<union> {bmb s} \<union> ({ind ?t i} - {0})" unfolding u(6) t(11) by (auto simp: absorb_def)
  moreover have "\<forall>m < MAXFILE. baddr s i m \<noteq> 0 \<longrightarrow> baddr ?t i m = baddr s i m" using new by auto
  moreover have "\<forall>m < MAXFILE. baddr ?t i m = baddr s i m \<or> baddr ?t i m \<in> {b}" using new by auto
  moreover have "(ind s i \<noteq> 0 \<longrightarrow> ind ?t i = ind s i) \<and> (ind s i = 0 \<longrightarrow> ind ?t i = 0 \<or> ind ?t i \<in> {b})" using new by auto
  moreover have "isize (ino i ?t) = isize (ino i s)" using u(1) by simp
  ultimately have "grows i s ?t {b}" using fr v t(2) w(1) bl unfolding grows_def by blast
  moreover have a: "addrs (ino i ?t) ! j = b" using i j(1) by (simp add: u(1))
  moreover have "ind ?t i \<noteq> ind s i" if "j = NDIRECT" using a j(2) t(3) that by simp
  then have "j = NDIRECT \<longrightarrow> (\<forall>m < MAXFILE. baddr ?t i m = baddr s i m)" using new by blast
  ultimately show ?thesis using t(1,3) by (auto simp: Let_def)
qed

section \<open>The block map\<close>

text \<open>The part of \<open>bmap\<close> that looks at the indirect block at address \<open>a\<close>.\<close>

definition indirect :: "u32 \<Rightarrow> nat \<Rightarrow> ('z istate_scheme, u32) km" where
  "indirect a k = bindK (bread 1 a) (\<lambda>bp. bindK (getK (\<lambda>s. bdata (bufs s ! bp))) (\<lambda>d.
     bindK (let addr = get32 d (4 * k) in
        if addr = 0 then bindK (balloc 1) (\<lambda>addr.
          thenK (bset bp (\<lambda>d. put32 d (4 * k) addr)) (thenK (log_write bp) (retK addr)))
        else retK addr) (\<lambda>addr.
     thenK (brelse bp) (retK addr))))"

lemma thenK_bindK: "bindK (thenK m n) f = thenK m (bindK n f)"
  by (simp add: thenK_def bindK_def fun_eq_iff split: res.split)

lemma bmap_cases:
  assumes "bn < MAXFILE" "i_dev (ino i s) = 1"
  shows "bmap i (of_nat bn) s =
    (if bn < NDIRECT then
       (if addrs (ino i s) ! bn = 0 then bindK (balloc 1) (\<lambda>a.
          thenK (modK (upd_ino i (\<lambda>ip. ip\<lparr>addrs := (addrs ip)[bn := a]\<rparr>))) (retK a)) s
        else Ret (addrs (ino i s) ! bn) s)
     else if ind s i = 0 then bindK (balloc 1) (\<lambda>a.
          thenK (modK (upd_ino i (\<lambda>ip. ip\<lparr>addrs := (addrs ip)[NDIRECT := a]\<rparr>))) (indirect a (bn - NDIRECT))) s
     else indirect (ind s i) (bn - NDIRECT) s)"
proof -
  have u: "unat (of_nat bn :: u32) = bn" using assms(1) by (simp add: unat_of_nat)
  have lt: "(of_nat bn :: u32) < 12 \<longleftrightarrow> bn < 12" by (simp add: word_less_nat_alt u)
  show ?thesis
  proof (cases "bn < 12")
    case True
    then show ?thesis using assms(2) lt by (simp add: bmap_def km_simps u Let_def retK_def)
  next
    case False
    then have w: "(of_nat bn :: u32) - 12 = of_nat (bn - 12)" by simp
    have v: "unat (of_nat (bn - 12) :: u32) = bn - 12" using assms(1) by (simp add: unat_of_nat)
    have l: "(of_nat (bn - 12) :: u32) < 128" using assms(1) by (simp add: word_less_nat_alt v)
    have g: "bindK (getK f) h s = h (f s) s" for f :: "'a istate_scheme \<Rightarrow> inode" and h by (simp add: bindK_def getK_def)
    show ?thesis
      unfolding bmap_def g indirect_def using False lt l assms(2)
      by (simp add: Let_def w v bindK_assoc thenK_bindK cong: if_cong del: of_nat_diff)
  qed
qed

definition lset :: "'z istate_scheme \<Rightarrow> nat \<Rightarrow> u32 set" where
  "lset s i = insert (bmb s) (set (logged s) \<union> ({ind s i} - {0}))"

lemma finite_lset [simp]: "finite (lset s i)"
  by (simp add: lset_def)

lemma length_absorb_card: "distinct L \<Longrightarrow> length (absorb b L) = card (insert b (set L))"
  by (simp add: absorb_def distinct_card card_insert_if)

lemma distinct_logged: "txn s H \<Longrightarrow> distinct (logged s)"
  by (simp add: txn_def lhdr_def)

lemma room_lset:
  assumes "txn s H" "fssize s \<le> BPB" "card (lset s i) \<le> 28" "length H \<le> 1"
  shows "room s H" "length (logged s) < 29"
proof -
  have "length (absorb (bmb s) (logged s)) \<le> card (lset s i)"
    unfolding length_absorb_card [OF distinct_logged [OF assms(1)]] by (rule card_mono) (auto simp: lset_def)
  then have l: "length (absorb (bmb s) (logged s)) \<le> 28" using assms(3) by simp
  then show "room s H" using assms(4) bitmap_one [OF assms(2)] by (auto simp: room_def)
  show "length (logged s) < 29" using l length_absorb(1) [of "logged s" "bmb s"] by linarith
qed

lemma indirect_hit:
  assumes s: "vol s" "file_ok s i" and bn: "NDIRECT \<le> bn" "ind s i \<noteq> 0" "baddr s i bn \<noteq> 0" and n: "card (lset s i) \<le> 28"
  shows "\<exists>t. indirect (ind s i) (bn - NDIRECT) s = Ret (baddr s i bn) t \<and> same_view s t \<and> txn t []"
proof -
  note o = owns_neq [OF s(1) file_okD(4) [OF s(2) bn(2)]]
  have r: "length (logged s) + length ([] :: nat list) < 30" using room_lset(2) [OF volD(1,3) [OF s(1)] n] by simp
  obtain j u t where t: "bread 1 (ind s i) s = Ret j u" "bdata (bufs u ! j) = blk s 1 (ind s i)" "brelse j u = Ret () t"
    "txn t []" "same_view s t"
    using look_step [OF volD(1) [OF s(1)] r geoD(1) [OF volD(2) [OF s(1)]], of "ind s i"] o by auto
  moreover have "get32 (blk s 1 (ind s i)) (4 * (bn - NDIRECT)) = baddr s i bn" using bn by (simp add: baddr_def)
  ultimately show ?thesis using bn(3) by (simp add: indirect_def km_simps Let_def)
qed

lemma indirect_steps:
  assumes s: "vol s" "owns s x" and e: "get32 (blk s 1 x) (4 * k) = 0" and n: "card (lset s i) \<le> 27" "x \<in> lset s i"
    and fr: "free_blocks s \<noteq> {}"
  shows "\<exists>b t. indirect x k s = Ret b t \<and> b \<in> free_blocks s \<and> b \<noteq> 0 \<and> txn t [] \<and> lframe s t \<and>
    (\<forall>n. unat n < fssize s \<longrightarrow> used t n = (used s n \<or> n = b)) \<and> blk t 1 b = replicate BSIZE 0 \<and>
    blk t 1 x = put32 (blk s 1 x) (4 * k) b \<and> (\<forall>n. n \<noteq> b \<and> n \<noteq> bmb s \<and> n \<noteq> x \<longrightarrow> blk t 1 n = blk s 1 n) \<and>
    set (logged t) \<subseteq> insert b (insert x (insert (bmb s) (set (logged s)))) \<and> written (idev t) = written (idev s) \<and>
    (\<forall>n. unat n < fssize s \<and> \<not> in_log s n \<longrightarrow> length (blk t 1 n) = BSIZE)"
proof -
  note o = owns_neq [OF s]
  have r: "nat (lh_n s) + length ([] :: nat list) < 30"
    using room_lset(2) [OF volD(1,3) [OF s(1)], of i] n(1) lh_n_txn [OF volD(1) [OF s(1)]] by simp
  obtain j u where u: "bread 1 x s = Ret j u" "txn u [j]" "same_view s u" "bdev (bufs u ! j) = 1"
    "blockno (bufs u ! j) = x" "bdata (bufs u ! j) = blk s 1 x"
    using visit_ok [OF volD(1) [OF s(1)] r geoD(1) [OF volD(2) [OF s(1)]], of x] o by auto
  note v = same_view_fs [OF u(3)]
  have sx: "sb u = sb s" "used u = used s" "free_blocks u = free_blocks s" using v by (simp_all add: free_blocks_def)
  have ru: "room u [j]" using room_lset(1) [of u "[j]" i] u(2) v volD(3) [OF s(1)] n(1) by (simp add: lset_def)
  have ap: "apart u [j]" using u(5) o bitmap_one [OF volD(3) [OF s(1)]] v by (auto simp: apart_def has_key_def)
  obtain b w where w: "balloc 1 u = Ret b w" "b \<in> free_blocks u" "b \<noteq> 0" "txn w [j]" "lframe u w"
    "\<forall>n. unat n < fssize u \<longrightarrow> used w n = (used u n \<or> n = b)" "blk w 1 b = replicate BSIZE 0"
    "\<forall>n. n \<noteq> b \<and> n \<noteq> bmb u \<longrightarrow> blk w 1 n = blk u 1 n" "logged w = absorb b (absorb (bmb u) (logged u))"
    "written (idev w) = written (idev u)" "bufs w ! j = bufs u ! j" "geo w"
    using balloc_free [of u "[j]", OF _ _ u(2) ru ap] volD(2,3) [OF s(1)] v sx fr by auto
  have bx: "b \<noteq> x" using w(2) o sx by (auto simp: free_blocks_def)
  have "length (logged w) \<le> card (insert b (lset s i))"
  proof -
    have "length (logged w) = card (set (logged w))" using distinct_logged [OF w(4)] by (simp add: distinct_card)
    also have "\<dots> \<le> card (insert b (lset s i))" unfolding w(9) by (rule card_mono) (auto simp: lset_def absorb_def v)
    finally show ?thesis .
  qed
  then have lw: "length (logged w) < 29" using n(1) card_insert_le_m1 [of 28 "lset s i" b] by simp
  have kw: "\<not> in_log w x" "key_ok w 1 x"
    using o geoD(1) [OF volD(2) [OF s(1)]] lframe_fields(7,8) [OF w(5)] u(3) log_bframe(3) [of s u] key_ok_bframe [of s u]
    by (auto simp: same_view_def)
  obtain y z where z: "bset j (\<lambda>d. put32 d (4 * k) b) w = Ret () y" "log_write j y = Ret () z" "txn z [j]"
    "tstep w z (put_blk (blk w) 1 x (put32 (bdata (bufs w ! j)) (4 * k) b)) (absorb x (logged w))" "at_rest z j"
    using change_ok [OF w(4) lw _ _ kw, of "\<lambda>d. put32 d (4 * k) b"] w(11) u(4,5) by auto
  obtain t where t: "brelse j z = Ret () t" "txn t []" "same_view z t" using leave_ok [OF z(3,5)] by auto
  have f: "lframe s t" "written (idev t) = written (idev s)" "blk t = put_blk (blk w) 1 x (put32 (blk s 1 x) (4 * k) b)"
    "logged t = absorb x (logged w)"
    using tstep_trans [OF same_view_tstep [OF u(3)], of w "blk w" "logged w"] tstep_trans [OF z(4) same_view_tstep [OF t(3)]]
      w(5,10,11) z(4) u(6) lframe_trans by (auto simp: tstep_def)
  have "used t n = (used s n \<or> n = b)" if m: "unat n < fssize s" for n
  proof -
    have "BBLOCK n (sb s) \<noteq> x" using BBLOCK_one [OF volD(3) [OF s(1)] m] o by metis
    then have "used t n = used w n"
      unfolding used_def lframe_istate(1) [OF f(1)] lframe_istate(1) [OF w(5)] sx(1) f(3) by simp
    then show ?thesis using w(6) m sx by simp
  qed
  moreover have "indirect x k s = Ret b t"
    using u(1,6) w(1) z(1,2) t(1) e by (simp add: indirect_def km_simps Let_def)
  moreover have "set (logged t) \<subseteq> insert b (insert x (insert (bmb s) (set (logged s))))"
    unfolding f(4) w(9) by (auto simp: absorb_def v)
  moreover have "in_log w = in_log s" using lframe_fields(7) [OF w(5)] u(3) log_bframe(3) [of s u] by (simp add: same_view_def)
  then have "length (blk t 1 n) = BSIZE" if "unat n < fssize s" "\<not> in_log s n" for n
    using geoD(2) [OF w(12), of n] geoD(2) [OF volD(2) [OF s(1)], of x] that o lframe_istate(1) [OF w(5)] sx(1) f(3) by simp
  ultimately show ?thesis using f(1-3) w(2,3,7,8) t(2) bx sx v(6) by (intro exI [of _ b] exI [of _ t]) simp
qed

lemma get32_entry: "NDIRECT \<le> m \<Longrightarrow> NDIRECT \<le> n \<Longrightarrow> m \<noteq> n \<Longrightarrow>
    get32 (put32 d (4 * (n - NDIRECT)) v) (4 * (m - NDIRECT)) = get32 d (4 * (m - NDIRECT))"
  by (rule get32_put32_other) arith

lemma indirect_miss:
  assumes s: "vol s" "file_ok s i" and bn: "NDIRECT \<le> bn" "bn < MAXFILE" "ind s i \<noteq> 0" "baddr s i bn = 0"
    and n: "card (lset s i) \<le> 27" and fr: "free_blocks s \<noteq> {}"
  shows "\<exists>b t. indirect (ind s i) (bn - NDIRECT) s = Ret b t \<and> grows i s t {b} \<and> b = baddr t i bn \<and> b \<noteq> 0"
proof -
  have own: "owns s (ind s i)" by (rule file_okD(4) [OF s(2) bn(3)])
  have e: "get32 (blk s 1 (ind s i)) (4 * (bn - NDIRECT)) = 0" using bn by (simp add: baddr_def)
  have il: "ind s i \<in> lset s i" using bn(3) by (simp add: lset_def)
  obtain b t where t: "indirect (ind s i) (bn - NDIRECT) s = Ret b t" "b \<in> free_blocks s" "b \<noteq> 0" "txn t []" "lframe s t"
    "\<And>n. unat n < fssize s \<Longrightarrow> used t n = (used s n \<or> n = b)" "blk t 1 b = replicate BSIZE 0"
    "blk t 1 (ind s i) = put32 (blk s 1 (ind s i)) (4 * (bn - NDIRECT)) b"
    "\<And>n. n \<noteq> b \<Longrightarrow> n \<noteq> bmb s \<Longrightarrow> n \<noteq> ind s i \<Longrightarrow> blk t 1 n = blk s 1 n"
    "set (logged t) \<subseteq> insert b (insert (ind s i) (insert (bmb s) (set (logged s))))" "written (idev t) = written (idev s)"
    "\<And>n. unat n < fssize s \<Longrightarrow> \<not> in_log s n \<Longrightarrow> length (blk t 1 n) = BSIZE"
    using indirect_steps [OF s(1) own e n il fr] by blast
  note l = lframe_istate [OF t(5)]
  have len: "length (blk s 1 n) = BSIZE" if "unat n < fssize s" "\<not> in_log s n" for n using geoD(2) [OF volD(2) [OF s(1)] that] .
  have ba: "baddr t i m = (if m = bn then b else baddr s i m)" if m: "m < MAXFILE" for m
    using m bn len [of "ind s i"] owns_neq [OF s(1) own] t(8) by (auto simp: baddr_def l get32_entry)
  have bl: "used s n \<Longrightarrow> unat n < fssize s \<Longrightarrow> n \<noteq> bmb s \<Longrightarrow> n \<noteq> ind s i \<Longrightarrow> blk t 1 n = blk s 1 n" for n
    by (rule t(9)) (use t(2) in \<open>auto simp: free_blocks_def\<close>)
  have "geo t"
  proof (rule lframe_geo [OF t(5) volD(2) [OF s(1)]])
    show "data_block s n" if "unat n < fssize s" "\<not> used t n" for n using geoD(8) [OF volD(2) [OF s(1)] that(1)] t(6) that by blast
    show "length (blk t 1 n) = BSIZE" if "unat n < fssize s" "\<not> in_log s n" for n using that by (rule t(12))
  qed
  then have v: "vol t" using t(4) volD(3) [OF s(1)] l by (simp add: vol_def)
  have fr: "fframe i s t" using tstep_fframe [of s t "blk t" "logged t"] t(5,11) by (simp add: tstep_def)
  have la: "length (addrs (ino i t)) = NDIRECT + 1" using file_okD(3) [OF s(2)] l by simp
  have new: "\<exists>bn < MAXFILE. baddr s i bn = 0 \<and> (\<forall>m < MAXFILE. baddr t i m = (if m = bn then b else baddr s i m)) \<and> ind t i = ind s i"
    using bn ba l by auto
  note nb = new_block [OF s t(2) fr v la t(6,7) bl disjI1 [OF new]]
  have "grows i s t {b}"
    unfolding grows_def using fr v nb t(2,6) bl ba l bn(3,4) t(10) by auto
  then show ?thesis using t(1,3) ba [OF bn(2)] by auto
qed

text \<open>What the log may still grow by before the indirect block of the file is counted.\<close>

definition lcost :: "'z istate_scheme \<Rightarrow> nat \<Rightarrow> nat" where
  "lcost s i = card (lset s i) + (if ind s i = 0 then 1 else 0)"

definition fcost :: "'z istate_scheme \<Rightarrow> nat \<Rightarrow> nat" where
  "fcost s i = (if ind s i = 0 then 1 else 0)"

lemma bmap_hit:
  assumes s: "vol s" "file_ok s i" and bn: "bn < MAXFILE" "baddr s i bn \<noteq> 0" and n: "card (lset s i) \<le> 28"
  shows "\<exists>t. bmap i (of_nat bn) s = Ret (baddr s i bn) t \<and> same_view s t \<and> txn t []"
proof (cases "bn < NDIRECT")
  case True
  then have "bmap i (of_nat bn) s = Ret (baddr s i bn) s"
    using bmap_cases [OF bn(1) file_okD(2) [OF s(2)]] bn(2) by (simp add: baddr_def)
  then show ?thesis using volD(1) [OF s(1)] by (intro exI [of _ s]) (simp add: same_view_def)
next
  case False
  then have "ind s i \<noteq> 0" using bn(2) by (auto simp: baddr_def)
  then show ?thesis using bmap_cases [OF bn(1) file_okD(2) [OF s(2)]] indirect_hit [OF s _ _ bn(2) n] False by simp
qed

lemma bmap_miss:
  assumes s: "vol s" "file_ok s i" and bn: "bn < MAXFILE" "baddr s i bn = 0" and n: "lcost s i \<le> 27"
    and fr: "fcost s i < card (free_blocks s)"
  shows "\<exists>a t N. bmap i (of_nat bn) s = Ret a t \<and> grows i s t N \<and> a = baddr t i bn \<and> a \<noteq> 0 \<and> N \<subseteq> {a, ind t i}"
proof -
  have c: "card (lset s i) \<le> 27" using n by (simp add: lcost_def)
  have f: "free_blocks s \<noteq> {}" using fr by auto
  have r: "room s []" using room_lset(1) [OF volD(1,3) [OF s(1)], of i] c by simp
  note bc = bmap_cases [OF bn(1) file_okD(2) [OF s(2)]]
  show ?thesis
  proof (cases "bn < NDIRECT")
    case True
    then have z: "addrs (ino i s) ! bn = 0" using bn(2) by (simp add: baddr_def)
    obtain b t where t: "balloc 1 s = Ret b t" "b \<noteq> 0" and
      g: "grows i s (upd_ino i (\<lambda>ip. ip\<lparr>addrs := (addrs ip)[bn := b]\<rparr>) t) {b}"
        "addrs (ino i (upd_ino i (\<lambda>ip. ip\<lparr>addrs := (addrs ip)[bn := b]\<rparr>) t)) ! bn = b"
      using balloc_slot [OF s r f _ z] True by (auto simp: Let_def)
    show ?thesis
      using bc True z t g by (intro exI [of _ b] exI [of _ "upd_ino i (\<lambda>ip. ip\<lparr>addrs := (addrs ip)[bn := b]\<rparr>) t"] exI [of _ "{b}"])
        (simp add: km_simps baddr_def)
  next
    case False
    show ?thesis
    proof (cases "ind s i = 0")
      case True
      obtain b t where t: "balloc 1 s = Ret b t" "b \<noteq> 0" and
        g: "grows i s (upd_ino i (\<lambda>ip. ip\<lparr>addrs := (addrs ip)[NDIRECT := b]\<rparr>) t) {b}"
          "ind (upd_ino i (\<lambda>ip. ip\<lparr>addrs := (addrs ip)[NDIRECT := b]\<rparr>) t) i = b"
          "\<forall>m < MAXFILE. baddr (upd_ino i (\<lambda>ip. ip\<lparr>addrs := (addrs ip)[NDIRECT := b]\<rparr>) t) i m = baddr s i m"
        using balloc_slot [OF s r f _ True] by (auto simp: Let_def)
      define u where "u = upd_ino i (\<lambda>ip. ip\<lparr>addrs := (addrs ip)[NDIRECT := b]\<rparr>) t"
      have u: "grows i s u {b}" "ind u i = b" using g by (simp_all add: u_def)
      have v: "vol u" "file_ok u i" "sb u = sb s" "set (logged u) \<subseteq> set (logged s) \<union> {b} \<union> {bmb s}" "\<And>n. unat n < fssize s \<Longrightarrow> used u n = (used s n \<or> n = b)"
        using u(1,2) fframe_fields(1) [of i s u] by (auto simp: grows_def)
      have "lset u i \<subseteq> insert b (lset s i)" using v(3,4) u(2) by (auto simp: lset_def)
      then have "card (lset u i) \<le> card (insert b (lset s i))" by (intro card_mono) simp_all
      also have "\<dots> \<le> 27" using n True by (simp add: lcost_def card_insert_if)
      finally have c': "card (lset u i) \<le> 27" .
      have "free_blocks u = free_blocks s - {b}" using v(3,5) by (auto simp: free_blocks_def)
      then have f': "free_blocks u \<noteq> {}" using fr True by (auto simp: fcost_def dest: subset_singletonD)
      have z: "baddr u i bn = 0" using g(3) bn by (simp add: u_def)
      obtain a w where w: "indirect (ind u i) (bn - NDIRECT) u = Ret a w" "grows i u w {a}" "a = baddr w i bn" "a \<noteq> 0"
        using indirect_miss [OF v(1,2) _ bn(1) _ z c' f'] False u(2) t(2) by auto
      have "grows i s w ({b} \<union> {a})" by (rule grows_trans [OF u(1) w(2)])
      moreover have "ind w i = b" using w(2) u(2) t(2) by (simp add: grows_def)
      moreover have "bmap i (of_nat bn) s = Ret a w" using bc False True t(1) w(1) u(2) by (simp add: km_simps u_def)
      ultimately show ?thesis using w(3,4) by (intro exI [of _ a] exI [of _ w] exI [of _ "{b} \<union> {a}"]) simp
    next
      case nz: False
      obtain b t where "indirect (ind s i) (bn - NDIRECT) s = Ret b t" "grows i s t {b}" "b = baddr t i bn" "b \<noteq> 0"
        using indirect_miss [OF s _ bn(1) nz bn(2) c f] False by auto
      then show ?thesis using bc False nz by (intro exI [of _ b] exI [of _ t] exI [of _ "{b}"]) simp
    qed
  qed
qed

section \<open>Reading\<close>

lemma same_view_file:
  assumes "same_view s t"
  shows "baddr t i = baddr s i" "fbyte t i = fbyte s i" "lset t i = lset s i" "inodes t = inodes s"
proof -
  note v = same_view_fs [OF assms]
  show "inodes t = inodes s" by (rule v(2))
  show b: "baddr t i = baddr s i" by (simp add: baddr_def v fun_eq_iff)
  show "fbyte t i = fbyte s i" by (simp add: fbyte_def b v fun_eq_iff)
  show "lset t i = lset s i" by (simp add: lset_def v)
qed

lemma same_view_trans: "same_view s t \<Longrightarrow> same_view t u \<Longrightarrow> same_view s u"
  by (auto simp: same_view_def intro: bframe_trans)

lemma block_of: "k mod BSIZE + j < BSIZE \<Longrightarrow> (k + j) div BSIZE = k div BSIZE \<and> (k + j) mod BSIZE = k mod BSIZE + j"
proof -
  assume a: "k mod BSIZE + j < BSIZE"
  have "k + j = k div BSIZE * BSIZE + (k mod BSIZE + j)" by simp
  then show ?thesis using a by (metis add.commute div_mult_self1 div_less mod_less mod_mult_self1 add_0 zero_neq_numeral)
qed

lemma chunk_bytes:
  assumes "baddr s i (k div BSIZE) = a" "a \<noteq> 0" "length (blk s 1 a) = BSIZE" "k mod BSIZE + m \<le> BSIZE"
  shows "take m (drop (k mod BSIZE) (blk s 1 a)) = map (fbyte s i) [k..<k + m]"
proof (rule nth_equalityI)
  show "length (take m (drop (k mod BSIZE) (blk s 1 a))) = length (map (fbyte s i) [k..<k + m])" using assms(3,4) by simp
  fix j assume "j < length (take m (drop (k mod BSIZE) (blk s 1 a)))"
  then have j: "j < m" by simp
  have q: "(k + j) div BSIZE = k div BSIZE" "(k + j) mod BSIZE = k mod BSIZE + j"
    using block_of [of k j] j assms(4) by linarith+
  show "take m (drop (k mod BSIZE) (blk s 1 a)) ! j = map (fbyte s i) [k..<k + m] ! j"
    using assms(1-3) j by (simp add: fbyte_def q)
qed

lemma chunk_bounds: "unat off mod BSIZE + chunk off r \<le> BSIZE" "chunk off r \<le> r"
  using mod_less_divisor [of BSIZE "unat off"] by (auto simp: chunk_def min_def)

lemma off_block: "off div 512 = (of_nat (unat off div BSIZE) :: u32)"
proof -
  have "unat off div BSIZE < 4294967296" using unat_u32_less [of off] by (rule order_le_less_trans [OF div_le_dividend])
  then show ?thesis by (simp add: word_unat_eq_iff unat_div unat_of_nat)
qed

lemma off_plus: "unat off + m < 4294967296 \<Longrightarrow> unat (off + of_nat m :: u32) = unat off + m"
  by (subst unat_add_u32) (simp_all add: unat_of_nat)

lemma readi_loop_ok:
  assumes "vol s" "file_ok s i" "card (lset s i) \<le> 28" "unat off + r \<le> MAXFILE * BSIZE"
    and "\<And>k. unat off \<le> k \<Longrightarrow> k < unat off + r \<Longrightarrow> baddr s i (k div BSIZE) \<noteq> 0"
  shows "\<exists>t. readi_loop i off r s = Ret (map (fbyte s i) [unat off..<unat off + r]) t \<and> same_view s t \<and> txn t []"
  using assms
proof (induction r arbitrary: off s rule: less_induct)
  case (less r)
  show ?case
  proof (cases "r = 0")
    case True
    then show ?thesis using volD(1) [OF less.prems(1)]
      by (intro exI [of _ s]) (simp add: readi_loop.simps retK_def same_view_def)
  next
    case False
    let ?bn = "unat off div BSIZE" and ?m = "chunk off r"
    have m: "0 < ?m" "?m \<le> r" "unat off mod BSIZE + ?m \<le> BSIZE" using chunk_bounds chunk_pos [of r off] False by auto
    have bn: "?bn < MAXFILE" using less.prems(4) False by (simp add: less_mult_imp_div_less)
    have a: "baddr s i ?bn \<noteq> 0" using less.prems(5) [of "unat off"] False by simp
    obtain t where t: "bmap i (of_nat ?bn) s = Ret (baddr s i ?bn) t" "same_view s t" "txn t []"
      using bmap_hit [OF less.prems(1,2) bn a less.prems(3)] by blast
    note g = growsD [OF grows_view [OF t(2) less.prems(1,2) t(3)]]
    note f = same_view_file [OF t(2)] and fs = same_view_fs [OF t(2)]
    note o = owns_neq [OF g(2) file_okD(5) [OF g(3) bn]]
    have lt: "length (logged t) < 29" using room_lset(2) [OF t(3), of i] less.prems(3) f volD(3) [OF g(2)] by simp
    obtain j u w where w: "bread 1 (baddr s i ?bn) t = Ret j u" "bdata (bufs u ! j) = blk t 1 (baddr s i ?bn)"
      "brelse j u = Ret () w" "txn w []" "same_view t w"
      using look_step [OF t(3) _ geoD(1) [OF volD(2) [OF g(2)]], of "baddr s i ?bn"] o a f lt by auto
    note sw = same_view_trans [OF t(2) w(5)]
    note gw = growsD [OF grows_view [OF sw less.prems(1,2) w(4)]] and fw = same_view_file [OF sw]
    have u: "unat (off + of_nat ?m) = unat off + ?m" using less.prems(4) m by (intro off_plus) simp
    have d: "take ?m (drop (unat off mod BSIZE) (bdata (bufs u ! j))) = map (fbyte s i) [unat off..<unat off + ?m]"
      unfolding w(2) fs(6) using geoD(2) [OF volD(2) [OF less.prems(1)]] owns_neq [OF less.prems(1) file_okD(5) [OF less.prems(2) bn a]] a m
      by (intro chunk_bytes) simp_all
    obtain x where x: "readi_loop i (off + of_nat ?m) (r - ?m) w =
        Ret (map (fbyte w i) [unat off + ?m..<unat off + ?m + (r - ?m)]) x" "same_view w x" "txn x []"
      using less.IH [of "r - ?m" w "off + of_nat ?m"] gw(2,3) fw less.prems(3-5) u m by auto
    have "map (fbyte s i) [unat off..<unat off + ?m] @ map (fbyte s i) [unat off + ?m..<unat off + r] =
        map (fbyte s i) [unat off..<unat off + r]" using m(2) by (metis le_add1 le_add_diff_inverse map_append upt_add_eq_append add.assoc)
    moreover have "i_dev (ino i t) = 1" using file_okD(2) [OF g(3)] .
    ultimately have "readi_loop i off r s = Ret (map (fbyte s i) [unat off..<unat off + r]) x"
      using t(1) w(1,3) d x(1) fw m(2) False by (subst readi_loop.simps) (simp add: km_simps Let_def off_block)
    then show ?thesis using same_view_trans [OF sw x(2)] x(3) by blast
  qed
qed

section \<open>Writing\<close>

definition owned :: "'z istate_scheme \<Rightarrow> nat \<Rightarrow> u32 set" where
  "owned s i = {a. a \<noteq> 0 \<and> (a = ind s i \<or> (\<exists>m < MAXFILE. a = baddr s i m))}"

text \<open>A block of another file: in use, not the bitmap, not reached from inode \<open>i\<close>.\<close>

definition foreign :: "'z istate_scheme \<Rightarrow> nat \<Rightarrow> u32 \<Rightarrow> bool" where
  "foreign s i n \<longleftrightarrow> n \<noteq> 0 \<and> used s n \<and> unat n < fssize s \<and> n \<noteq> bmb s \<and> n \<notin> owned s i"

text \<open>A step on the contents of inode \<open>i\<close> that touches no block of another file.\<close>

definition fstep :: "nat \<Rightarrow> 'z istate_scheme \<Rightarrow> 'z istate_scheme \<Rightarrow> bool" where
  "fstep i s t \<longleftrightarrow> fframe i s t \<and> vol t \<and> file_ok t i \<and> isize (ino i t) = isize (ino i s) \<and>
     (\<forall>n. unat n < fssize s \<longrightarrow> used s n \<longrightarrow> used t n) \<and> (\<forall>n. foreign s i n \<longrightarrow> blk t 1 n = blk s 1 n) \<and>
     owned t i \<subseteq> owned s i \<union> free_blocks s \<and> (\<forall>m < MAXFILE. baddr s i m \<noteq> 0 \<longrightarrow> baddr t i m = baddr s i m)"

lemma fstepD:
  assumes "fstep i s t"
  shows "fframe i s t" "vol t" "file_ok t i" "isize (ino i t) = isize (ino i s)" "unat n < fssize s \<Longrightarrow> used s n \<Longrightarrow> used t n"
    "foreign s i n \<Longrightarrow> blk t 1 n = blk s 1 n" "owned t i \<subseteq> owned s i \<union> free_blocks s"
    "m < MAXFILE \<Longrightarrow> baddr s i m \<noteq> 0 \<Longrightarrow> baddr t i m = baddr s i m" "sb t = sb s"
  using assms fframe_fields(1) [of i s t] by (simp_all add: fstep_def)

lemma foreign_step: "fstep i s t \<Longrightarrow> foreign s i n \<Longrightarrow> foreign t i n"
  using fstepD(5,7,9) [of i s t] by (auto simp: foreign_def free_blocks_def)

lemma fstep_trans:
  assumes a: "fstep i s t" and b: "fstep i t u"
  shows "fstep i s u"
proof -
  note A = fstepD [OF a] and B = fstepD [OF b]
  have "free_blocks t \<subseteq> free_blocks s" using A(5,9) by (auto simp: free_blocks_def)
  then have "owned u i \<subseteq> owned s i \<union> free_blocks s" using A(7) B(7) by blast
  moreover have "foreign s i n \<longrightarrow> blk u 1 n = blk s 1 n" for n using A(6) B(6) foreign_step [OF a] by simp
  moreover have "fframe i s u" using A(1) B(1) fframe_trans by blast
  ultimately show ?thesis using A(4,5,8,9) B(2-5,8) by (simp add: fstep_def)
qed

lemma grows_fstep:
  assumes "grows i s t N"
  shows "fstep i s t"
proof -
  note A = growsD [OF assms]
  have "owned t i \<subseteq> owned s i \<union> free_blocks s"
  proof
    fix a assume "a \<in> owned t i"
    then have a: "a \<noteq> 0" "a = ind t i \<or> (\<exists>m < MAXFILE. a = baddr t i m)" by (auto simp: owned_def)
    have "a \<in> owned s i \<or> a \<in> N"
      using a(2)
    proof (elim disjE exE conjE)
      assume "a = ind t i"
      then show ?thesis using A(11,12) a(1) by (cases "ind s i = 0") (auto simp: owned_def)
    next
      fix m assume "m < MAXFILE" "a = baddr t i m"
      then show ?thesis using A(10) [of m] a(1) by (auto simp: owned_def)
    qed
    then show "a \<in> owned s i \<union> free_blocks s" using A(5) by auto
  qed
  moreover have "blk t 1 n = blk s 1 n" if n: "foreign s i n" for n
    using n by (intro A(8)) (auto simp: foreign_def owned_def)
  ultimately show ?thesis using A by (simp add: fstep_def)
qed

text \<open>The blocks that \<open>len\<close> bytes from offset \<open>off\<close> lie in.\<close>

definition nblk :: "nat \<Rightarrow> nat \<Rightarrow> nat" where
  "nblk off len = (if len = 0 then 0 else (off mod BSIZE + len + 511) div BSIZE)"

lemma nblk_step:
  assumes "0 < len" "m = min len (BSIZE - off mod BSIZE)"
  shows "nblk off len = Suc (nblk (off + m) (len - m))"
proof (cases "len \<le> BSIZE - off mod BSIZE")
  case True
  then have "len - m = 0" "off mod BSIZE + len \<le> BSIZE" using assms(2) mod_less_divisor [of BSIZE off] by auto
  moreover have "(off mod BSIZE + len + 511) div BSIZE = 1" using assms(1) calculation(2) by (simp add: div_nat_eqI)
  ultimately show ?thesis using assms(1) by (simp add: nblk_def)
next
  case False
  then have m: "m = BSIZE - off mod BSIZE" "m < len" using assms(2) by auto
  have l: "off mod BSIZE < BSIZE" by simp
  then have "off + m = off div BSIZE * BSIZE + BSIZE" unfolding m(1) using div_mult_mod_eq [of off BSIZE] by arith
  then have "(off + m) mod BSIZE = 0" by (simp only: mod_add_self2 mod_mult_self2_is_0)
  moreover have "off mod BSIZE + len + 511 = (len - m + 511) + BSIZE" using m l by simp
  ultimately show ?thesis using m(2) by (simp add: nblk_def)
qed

definition splice :: "nat \<Rightarrow> u8 list \<Rightarrow> u8 list \<Rightarrow> u8 list" where
  "splice p d b = take p b @ d @ drop (p + length d) b"

lemma length_splice: "p + length d \<le> length b \<Longrightarrow> length (splice p d b) = length b"
  by (simp add: splice_def)

lemma nth_splice: "p + length d \<le> length b \<Longrightarrow> j < length b \<Longrightarrow>
    splice p d b ! j = (if p \<le> j \<and> j < p + length d then d ! (j - p) else b ! j)"
  by (auto simp: splice_def nth_append)

text \<open>Changing one block of the file.\<close>

lemma put_data:
  assumes s: "vol s" "file_ok s i" and bn: "bn < MAXFILE" "baddr s i bn \<noteq> 0" and n: "card (lset s i) \<le> 28"
    and pd: "p + length d \<le> BSIZE"
  shows "\<exists>j u v w t. bread 1 (baddr s i bn) s = Ret j u \<and> bset j (splice p d) u = Ret () v \<and> log_write j v = Ret () w \<and>
    brelse j w = Ret () t \<and> fstep i s t \<and> inodes t = inodes s \<and> free_blocks t = free_blocks s \<and> baddr t i = baddr s i \<and>
    set (logged t) = insert (baddr s i bn) (set (logged s)) \<and>
    (\<forall>k < MAXFILE * BSIZE. fbyte t i k = (if bn * BSIZE + p \<le> k \<and> k < bn * BSIZE + p + length d then d ! (k - (bn * BSIZE + p)) else fbyte s i k))"
proof -
  let ?a = "baddr s i bn"
  note o = owns_neq [OF s(1) file_okD(5) [OF s(2) bn]]
  have l: "length (logged s) < 29" using room_lset(2) [OF volD(1,3) [OF s(1)] n] by simp
  obtain j u v w t where t: "bread 1 ?a s = Ret j u" "bset j (splice p d) u = Ret () v" "log_write j v = Ret () w" "brelse j w = Ret () t"
    "txn t []" "tstep s t (put_blk (blk s) 1 ?a (splice p d (blk s 1 ?a))) (absorb ?a (logged s))"
    using update_step [OF volD(1) [OF s(1)] l _ _ geoD(1) [OF volD(2) [OF s(1)]], where b = ?a and f = "splice p d"] o l by auto
  have f: "lframe s t" "logged t = absorb ?a (logged s)" "blk t = put_blk (blk s) 1 ?a (splice p d (blk s 1 ?a))"
    using t(6) by (simp_all add: tstep_def)
  note li = lframe_istate [OF f(1)]
  have len: "length (blk s 1 ?a) = BSIZE" using geoD(2) [OF volD(2) [OF s(1)]] o by blast
  have us: "used t x = used s x" if x: "unat x < fssize s" for x
  proof -
    have "BBLOCK x (sb s) \<noteq> ?a" using BBLOCK_one [OF volD(3) [OF s(1)] x] o by metis
    then show ?thesis by (simp add: used_def li f(3))
  qed
  have fb: "free_blocks t = free_blocks s" using us by (auto simp: free_blocks_def li)
  have bt: "blk t 1 x = blk s 1 x" if "x \<noteq> ?a" for x using that by (simp add: f(3))
  have ne: "ind s i \<noteq> ?a" using file_okD(6) [OF s(2) bn] by metis
  have ba: "baddr t i = baddr s i" by (simp add: baddr_def li bt [OF ne] fun_eq_iff)
  have g: "geo t"
  proof (rule lframe_geo [OF f(1) volD(2) [OF s(1)]])
    show "data_block s x" if "unat x < fssize s" "\<not> used t x" for x using geoD(8) [OF volD(2) [OF s(1)]] us that by blast
    show "length (blk t 1 x) = BSIZE" if "unat x < fssize s" "\<not> in_log s x" for x
      using geoD(2) [OF volD(2) [OF s(1)] that] len pd by (simp add: f(3) length_splice)
  qed
  have ow: "owns s x \<Longrightarrow> owns t x" for x using owns_neq [OF s(1)] us by (simp add: owns_def li)
  have v: "vol t" using t(5) g volD(3) [OF s(1)] by (simp add: vol_def li)
  have fo: "file_ok t i" using s(2) ow unfolding file_ok_def ba li(2) by blast
  have od: "owned t i = owned s i" by (simp add: owned_def ba li)
  have "fstep i s t"
    unfolding fstep_def od ba using tstep_fframe [OF t(6)] v fo us bt bn by (auto simp: li foreign_def owned_def)
  moreover have "fbyte t i k = (if bn * BSIZE + p \<le> k \<and> k < bn * BSIZE + p + length d then d ! (k - (bn * BSIZE + p)) else fbyte s i k)"
    if k: "k < MAXFILE * BSIZE" for k
  proof (cases "k div BSIZE = bn")
    case True
    then have e: "k = bn * BSIZE + k mod BSIZE" by (metis div_mult_mod_eq)
    have "fbyte t i k = splice p d (blk s 1 ?a) ! (k mod BSIZE)" using True bn(2) by (simp add: fbyte_def ba f(3))
    also have "\<dots> = (if p \<le> k mod BSIZE \<and> k mod BSIZE < p + length d then d ! (k mod BSIZE - p) else blk s 1 ?a ! (k mod BSIZE))"
      using pd len by (intro nth_splice) simp_all
    also have "blk s 1 ?a ! (k mod BSIZE) = fbyte s i k" using True bn(2) by (simp add: fbyte_def)
    finally have "fbyte t i k = (if p \<le> k mod BSIZE \<and> k mod BSIZE < p + length d then d ! (k mod BSIZE - p) else fbyte s i k)" .
    moreover have "p \<le> k mod BSIZE \<longleftrightarrow> bn * BSIZE + p \<le> k" "k mod BSIZE < p + length d \<longleftrightarrow> k < bn * BSIZE + p + length d"
      "k mod BSIZE - p = k - (bn * BSIZE + p)" using e by linarith+
    ultimately show ?thesis by simp
  next
    case False
    have m: "k div BSIZE < MAXFILE" using k by (simp add: less_mult_imp_div_less)
    have "baddr s i (k div BSIZE) \<noteq> ?a \<or> baddr s i (k div BSIZE) = 0" using file_okD(7) [OF s(2) m bn(1)] False by metis
    then have "fbyte t i k = fbyte s i k" using bt by (auto simp: fbyte_def ba)
    moreover have "\<not> (bn * BSIZE + p \<le> k \<and> k < bn * BSIZE + p + length d)"
    proof
      assume "bn * BSIZE + p \<le> k \<and> k < bn * BSIZE + p + length d"
      then have "bn * BSIZE \<le> k" "k < Suc bn * BSIZE" using pd by auto
      then have "k div BSIZE = bn" by (intro div_nat_eqI) simp_all
      then show False using False by simp
    qed
    ultimately show ?thesis by auto
  qed
  moreover have "set (logged t) = insert ?a (set (logged s))" by (auto simp: f(2) absorb_def)
  ultimately show ?thesis using t(1-4) li(2) fb ba by blast
qed

lemma grows_cost:
  assumes s: "vol s" "file_ok s i" and g: "grows i s t N" and N: "N \<subseteq> {a, ind t i}"
    and u: "inodes u = inodes t" "sb u = sb t" "set (logged u) \<subseteq> insert a (set (logged t))" "free_blocks u = free_blocks t"
  shows "lcost u i \<le> Suc (lcost s i)" "fcost s i + Suc k \<le> card (free_blocks s) \<Longrightarrow> fcost u i + k \<le> card (free_blocks u)"
proof -
  note A = growsD [OF g]
  have n0: "0 \<notin> N" using A(5) geoD(8) [OF volD(2) [OF s(1)]] by (auto simp: free_blocks_def data_block_def)
  have ni: "ind s i \<notin> N" using A(5) owns_neq [OF s(1) file_okD(4) [OF s(2)]] n0 by (cases "ind s i = 0") (auto simp: free_blocks_def)
  have l: "lset u i \<subseteq> insert a (lset s i \<union> ({ind t i} - {0}))" using A(13,14) N u(1-3) n0 by (auto simp: lset_def)
  have f: "finite (free_blocks s)" by (simp add: free_blocks_def)
  have fu: "free_blocks u = free_blocks s - N" using A(15) u(4) by simp
  show "lcost u i \<le> Suc (lcost s i)"
  proof (cases "ind s i = 0 \<and> ind t i \<noteq> 0")
    case True
    have "card (lset u i) \<le> card (insert a (insert (ind t i) (lset s i)))" using l by (intro card_mono) auto
    also have "\<dots> \<le> Suc (Suc (card (lset s i)))" by (simp add: card_insert_if)
    finally show ?thesis using True u(1) by (simp add: lcost_def)
  next
    case False
    then have "lset u i \<subseteq> insert a (lset s i)" using l A(11) by (cases "ind s i = 0") (auto simp: lset_def)
    then have "card (lset u i) \<le> card (insert a (lset s i))" by (intro card_mono) auto
    also have "\<dots> \<le> Suc (card (lset s i))" by (simp add: card_insert_if)
    finally show ?thesis using False A(11) u(1) by (cases "ind s i = 0") (simp_all add: lcost_def)
  qed
  show "fcost u i + k \<le> card (free_blocks u)" if c: "fcost s i + Suc k \<le> card (free_blocks s)"
  proof (cases "ind s i = 0 \<and> ind t i \<noteq> 0")
    case True
    have "card (free_blocks s) - card {a, ind t i} \<le> card (free_blocks s - {a, ind t i})" by (rule diff_card_le_card_Diff) simp
    also have "\<dots> \<le> card (free_blocks u)" unfolding fu using N f by (intro card_mono) auto
    finally have "card (free_blocks s) \<le> card (free_blocks u) + 2" by (simp add: card_insert_if split: if_splits)
    then show ?thesis using c True u(1) by (simp add: fcost_def)
  next
    case False
    then have "ind t i \<notin> N" using n0 ni A(11) by (cases "ind s i = 0") auto
    then have "N \<subseteq> {a}" using N by auto
    have "card (free_blocks s) - card {a} \<le> card (free_blocks s - {a})" by (rule diff_card_le_card_Diff) simp
    also have "\<dots> \<le> card (free_blocks u)" unfolding fu using \<open>N \<subseteq> {a}\<close> f by (intro card_mono) auto
    finally show ?thesis using c False A(11) u(1) by (cases "ind s i = 0") (simp_all add: fcost_def)
  qed
qed

lemma bmap_ok:
  assumes s: "vol s" "file_ok s i" and bn: "bn < MAXFILE" and n: "lcost s i \<le> 27" and fr: "fcost s i < card (free_blocks s)"
  shows "\<exists>a t N. bmap i (of_nat bn) s = Ret a t \<and> grows i s t N \<and> a = baddr t i bn \<and> a \<noteq> 0 \<and> N \<subseteq> {a, ind t i} \<and>
    (baddr s i bn \<noteq> 0 \<longrightarrow> inodes t = inodes s)"
proof (cases "baddr s i bn = 0")
  case True
  then show ?thesis using bmap_miss [OF s bn _ n fr] by blast
next
  case False
  have "card (lset s i) \<le> 28" using n by (simp add: lcost_def)
  then obtain t where t: "bmap i (of_nat bn) s = Ret (baddr s i bn) t" "same_view s t" "txn t []"
    using bmap_hit [OF s bn False] by blast
  have "grows i s t {}" by (rule grows_view [OF t(2) s t(3)])
  moreover have "baddr t i = baddr s i" by (rule same_view_file(1) [OF t(2)])
  ultimately show ?thesis using t(1) False same_view_fs(2) [OF t(2)]
    by (intro exI [of _ "baddr s i bn"] exI [of _ t] exI [of _ "{}"]) simp
qed

lemma write_block:
  assumes s: "vol s" "file_ok s i" and bn: "bn < MAXFILE" and n: "lcost s i \<le> 27" and fr: "fcost s i < card (free_blocks s)"
    and pd: "p + length d \<le> BSIZE"
  shows "\<exists>a t j u v w x. bmap i (of_nat bn) s = Ret a t \<and> i_dev (ino i t) = 1 \<and> bread 1 a t = Ret j u \<and>
    bset j (splice p d) u = Ret () v \<and> log_write j v = Ret () w \<and> brelse j w = Ret () x \<and> fstep i s x \<and> baddr x i bn \<noteq> 0 \<and>
    (baddr s i bn \<noteq> 0 \<longrightarrow> inodes x = inodes s) \<and> lcost x i \<le> Suc (lcost s i) \<and> (\<forall>k. fcost s i + Suc k \<le> card (free_blocks s) \<longrightarrow> fcost x i + k \<le> card (free_blocks x)) \<and>
    (\<forall>k < MAXFILE * BSIZE. fbyte x i k = (if bn * BSIZE + p \<le> k \<and> k < bn * BSIZE + p + length d then d ! (k - (bn * BSIZE + p)) else fbyte s i k))"
proof -
  obtain a t N where t: "bmap i (of_nat bn) s = Ret a t" "grows i s t N" "a = baddr t i bn" "a \<noteq> 0" "N \<subseteq> {a, ind t i}"
    "baddr s i bn \<noteq> 0 \<longrightarrow> inodes t = inodes s"
    using bmap_ok [OF s bn n fr] by blast
  note A = growsD [OF t(2)]
  have "lcost t i \<le> Suc (lcost s i)" by (rule grows_cost(1) [OF s t(2,5)]) auto
  then have l: "card (lset t i) \<le> 28" using n by (simp add: lcost_def split: if_splits)
  obtain j u v w x where x: "bread 1 a t = Ret j u" "bset j (splice p d) u = Ret () v" "log_write j v = Ret () w"
    "brelse j w = Ret () x" "fstep i t x" "inodes x = inodes t" "free_blocks x = free_blocks t" "baddr x i = baddr t i"
    "set (logged x) = insert a (set (logged t))"
    "\<forall>k < MAXFILE * BSIZE. fbyte x i k = (if bn * BSIZE + p \<le> k \<and> k < bn * BSIZE + p + length d then d ! (k - (bn * BSIZE + p)) else fbyte t i k)"
    using put_data [OF A(2,3) bn _ l pd] t(3,4) by blast
  have sb: "sb x = sb t" by (rule fstepD(9) [OF x(5)])
  have "lcost x i \<le> Suc (lcost s i)" "\<forall>k. fcost s i + Suc k \<le> card (free_blocks s) \<longrightarrow> fcost x i + k \<le> card (free_blocks x)"
    using grows_cost [OF s t(2,5) x(6) sb _ x(7)] x(9) by auto
  moreover have "fstep i s x" using fstep_trans [OF grows_fstep [OF t(2)] x(5)] .
  moreover have "\<forall>k < MAXFILE * BSIZE. fbyte x i k = (if bn * BSIZE + p \<le> k \<and> k < bn * BSIZE + p + length d then d ! (k - (bn * BSIZE + p)) else fbyte s i k)"
    using x(10) A(6) by simp
  moreover have "baddr x i bn \<noteq> 0" using x(8) t(3,4) by simp
  ultimately show ?thesis using t(1,6) x(1-4,6) file_okD(2) [OF A(3)] by metis
qed

lemma writei_loop_ok:
  assumes "vol s" "file_ok s i" "unat off + length src \<le> MAXFILE * BSIZE" "lcost s i + nblk (unat off) (length src) \<le> 28"
    and "fcost s i + nblk (unat off) (length src) \<le> card (free_blocks s)"
  shows "\<exists>t. writei_loop i src off s = Ret (off + of_nat (length src)) t \<and> fstep i s t \<and>
    lcost t i \<le> lcost s i + nblk (unat off) (length src) \<and>
    (\<forall>k. fcost s i + nblk (unat off) (length src) + k \<le> card (free_blocks s) \<longrightarrow> fcost t i + k \<le> card (free_blocks t)) \<and>
    (\<forall>k < MAXFILE * BSIZE. fbyte t i k = (if unat off \<le> k \<and> k < unat off + length src then src ! (k - unat off) else fbyte s i k)) \<and>
    (\<forall>k. unat off \<le> k \<and> k < unat off + length src \<longrightarrow> baddr t i (k div BSIZE) \<noteq> 0) \<and>
    ((\<forall>k. unat off \<le> k \<and> k < unat off + length src \<longrightarrow> baddr s i (k div BSIZE) \<noteq> 0) \<longrightarrow> inodes t = inodes s)"
  using assms
proof (induction "length src" arbitrary: src off s rule: less_induct)
  case less
  show ?case
  proof (cases "src = []")
    case True
    have "same_view s s" by (simp add: same_view_def)
    then have "fstep i s s" using grows_fstep [OF grows_view] less.prems(1,2) volD(1) by blast
    then show ?thesis using True by (intro exI [of _ s]) (auto simp: writei_loop.simps retK_def)
  next
    case False
    let ?bn = "unat off div BSIZE" and ?p = "unat off mod BSIZE" and ?m = "chunk off (length src)"
    let ?d = "take ?m src" and ?src = "drop ?m src" and ?off = "off + of_nat ?m"
    have m: "0 < ?m" "?m \<le> length src" "?p + ?m \<le> BSIZE" using chunk_bounds chunk_pos [of "length src" off] False by auto
    have "unat off < MAXFILE * BSIZE" using less.prems(3) m by linarith
    then have bn: "?bn < MAXFILE" by (rule less_mult_imp_div_less)
    have nb: "nblk (unat off) (length src) = Suc (nblk (unat off + ?m) (length ?src))"
      using nblk_step [of "length src" ?m "unat off"] False by (simp add: chunk_def)
    have o: "?bn * BSIZE + ?p = unat off" by simp
    have ld: "length ?d = ?m" using m(2) by simp
    have pre: "lcost s i \<le> 27" "fcost s i < card (free_blocks s)" "?p + length ?d \<le> BSIZE"
      using less.prems(4,5) nb m(3) ld by simp_all
    obtain a t j u v w x where x: "bmap i (of_nat ?bn) s = Ret a t" "i_dev (ino i t) = 1" "bread 1 a t = Ret j u"
      "bset j (splice ?p ?d) u = Ret () v" "log_write j v = Ret () w" "brelse j w = Ret () x" "fstep i s x" "baddr x i ?bn \<noteq> 0"
      "lcost x i \<le> Suc (lcost s i)" "\<forall>k. fcost s i + Suc k \<le> card (free_blocks s) \<longrightarrow> fcost x i + k \<le> card (free_blocks x)"
      "\<forall>k < MAXFILE * BSIZE. fbyte x i k = (if unat off \<le> k \<and> k < unat off + ?m then ?d ! (k - unat off) else fbyte s i k)"
      "baddr s i ?bn \<noteq> 0 \<longrightarrow> inodes x = inodes s"
      using write_block [OF less.prems(1,2) bn pre] unfolding o ld by blast
    have uo: "unat ?off = unat off + ?m" using less.prems(3) m by (intro off_plus) simp
    have le: "unat ?off + length ?src = unat off + length src" using uo m(2) by simp
    have h1: "length ?src < length src" using m by simp
    have h2: "unat ?off + length ?src \<le> MAXFILE * BSIZE" "lcost x i + nblk (unat ?off) (length ?src) \<le> 28"
      "fcost x i + nblk (unat ?off) (length ?src) \<le> card (free_blocks x)"
      using less.prems(3-5) x(9,10) nb unfolding le unfolding uo by simp_all
    obtain y where y: "writei_loop i ?src ?off x = Ret (?off + of_nat (length ?src)) y" "fstep i x y"
      "lcost y i \<le> lcost x i + nblk (unat ?off) (length ?src)"
      "\<forall>k. fcost x i + nblk (unat ?off) (length ?src) + k \<le> card (free_blocks x) \<longrightarrow> fcost y i + k \<le> card (free_blocks y)"
      "\<forall>k < MAXFILE * BSIZE. fbyte y i k = (if unat ?off \<le> k \<and> k < unat ?off + length ?src then ?src ! (k - unat ?off) else fbyte x i k)"
      "\<forall>k. unat ?off \<le> k \<and> k < unat ?off + length ?src \<longrightarrow> baddr y i (k div BSIZE) \<noteq> 0"
      "(\<forall>k. unat ?off \<le> k \<and> k < unat ?off + length ?src \<longrightarrow> baddr x i (k div BSIZE) \<noteq> 0) \<longrightarrow> inodes y = inodes x"
      using less.hyps [OF h1 fstepD(2,3) [OF x(7)] h2] by blast
    have se: "splice ?p ?d = (\<lambda>b. take ?p b @ ?d @ drop (?p + ?m) b)" using ld by (simp add: splice_def fun_eq_iff)
    have "of_nat (length src) = (of_nat (?m + length ?src) :: u32)" using m(2) by simp
    then have oe: "?off + of_nat (length ?src) = off + of_nat (length src)" by (simp only: of_nat_add add.assoc)
    have "writei_loop i src off s = Ret (off + of_nat (length src)) y"
      using x(1-3) x(4) [unfolded se] x(5,6) y(1) False unfolding oe
      by (subst writei_loop.simps) (simp add: km_simps Let_def off_block del: of_nat_diff)
    moreover have "fbyte y i k = (if unat off \<le> k \<and> k < unat off + length src then src ! (k - unat off) else fbyte s i k)"
      if k: "k < MAXFILE * BSIZE" for k
    proof (cases "unat ?off \<le> k \<and> k < unat off + length src")
      case True
      have "fbyte y i k = ?src ! (k - unat ?off)" using y(5) k True unfolding le by simp
      also have "\<dots> = src ! (?m + (k - unat ?off))" using m(2) by simp
      also have "?m + (k - unat ?off) = k - unat off" using True uo by simp
      finally show ?thesis using True uo by simp
    next
      case no: False
      have "fbyte y i k = fbyte x i k" using y(5) k no unfolding le by auto
      also have "\<dots> = (if unat off \<le> k \<and> k < unat off + ?m then ?d ! (k - unat off) else fbyte s i k)" using x(11) k by blast
      also have "\<dots> = (if unat off \<le> k \<and> k < unat off + length src then src ! (k - unat off) else fbyte s i k)"
        using no uo m(2) by auto
      finally show ?thesis .
    qed
    moreover have "baddr y i (k div BSIZE) \<noteq> 0" if k: "unat off \<le> k" "k < unat off + length src" for k
    proof (cases "unat ?off \<le> k")
      case True
      then show ?thesis using y(6) k unfolding le by blast
    next
      case no: False
      then have "?p + (k - unat off) < BSIZE" using uo m(3) k(1) by simp
      then have "k div BSIZE = ?bn" using block_of [of "unat off" "k - unat off"] k(1) by simp
      then show ?thesis using fstepD(8) [OF y(2) bn x(8)] x(8) by simp
    qed
    moreover have "lcost y i \<le> lcost s i + nblk (unat off) (length src)" using y(3) x(9) nb uo by simp
    moreover have "fcost y i + k \<le> card (free_blocks y)" if "fcost s i + nblk (unat off) (length src) + k \<le> card (free_blocks s)" for k
      using y(4) x(10) [rule_format, of "nblk (unat ?off) (length ?src) + k"] that nb uo by simp
    moreover have "inodes y = inodes s" if all: "\<forall>k. unat off \<le> k \<and> k < unat off + length src \<longrightarrow> baddr s i (k div BSIZE) \<noteq> 0"
    proof -
      have "baddr x i (k div BSIZE) \<noteq> 0" if "unat ?off \<le> k" "k < unat ?off + length ?src" for k
      proof -
        have k: "baddr s i (k div BSIZE) \<noteq> 0" using all that unfolding le uo by simp
        have "k < MAXFILE * BSIZE" using that h2(1) by linarith
        then have "k div BSIZE < MAXFILE" by (rule less_mult_imp_div_less)
        then show ?thesis using fstepD(8) [OF x(7)] k by simp
      qed
      moreover have "inodes x = inodes s" using x(12) all [rule_format, of "unat off"] False by simp
      ultimately show ?thesis using y(7) by simp
    qed
    ultimately show ?thesis using fstep_trans [OF x(7) y(2)] by blast
  qed
qed

section \<open>Inodes on disk\<close>

lemma length_put_addrs [simp]: "length (put_addrs p as d) = length d"
  by (induction p as d rule: put_addrs.induct) simp_all

lemma length_put_dinode [simp]: "length (put_dinode ip p d) = length d"
  by (simp add: put_dinode_def)

lemma iblockI: "unat (inum (ino i s)) < unat (sb_ninodes (sb s)) \<Longrightarrow> is_iblock s (IBLOCK (inum (ino i s)) (sb s))"
  by (auto simp: is_iblock_def)

lemma iupdate_ok:
  assumes s: "vol s" "file_ok s i" "unat (inum (ino i s)) < unat (sb_ninodes (sb s))" and n: "card (lset s i) \<le> 28"
  defines "B \<equiv> IBLOCK (inum (ino i s)) (sb s)"
  shows "\<exists>t. iupdate i s = Ret () t \<and> vol t \<and> file_ok t i \<and> fframe i s t \<and> inodes t = inodes s \<and> baddr t i = baddr s i \<and>
    (\<forall>k < MAXFILE * BSIZE. fbyte t i k = fbyte s i k) \<and> logged t = absorb B (logged s) \<and>
    blk t = put_blk (blk s) 1 B (put_dinode (ino i s) (dinode_off (inum (ino i s))) (blk s 1 B))"
proof -
  let ?f = "put_dinode (ino i s) (dinode_off (inum (ino i s)))"
  have B: "is_iblock s B" unfolding B_def by (rule iblockI [OF s(3)])
  note g = volD(2) [OF s(1)]
  have l: "length (logged s) < 29" using room_lset(2) [OF volD(1,3) [OF s(1)] n] by simp
  obtain j u v w t where t: "bread 1 B s = Ret j u" "bset j ?f u = Ret () v" "log_write j v = Ret () w" "brelse j w = Ret () t"
    "txn t []" "tstep s t (put_blk (blk s) 1 B (?f (blk s 1 B))) (absorb B (logged s))"
    using update_step [OF volD(1) [OF s(1)] l _ geoD(7) [OF g B] geoD(1) [OF g geoD(6) [OF g B]], where f = ?f] l by auto
  have f: "lframe s t" "logged t = absorb B (logged s)" "blk t = put_blk (blk s) 1 B (?f (blk s 1 B))"
    using t(6) by (simp_all add: tstep_def)
  note li = lframe_istate [OF f(1)]
  have ob: "owns s x \<Longrightarrow> x \<noteq> B" for x using B by (auto simp: owns_def data_block_def)
  have us: "used t x = used s x" if x: "unat x < fssize s" for x
  proof -
    have "BBLOCK x (sb s) \<noteq> B" using geoD(5) [OF g bitmapI [OF x]] B by metis
    then show ?thesis by (simp add: used_def li f(3))
  qed
  have "geo t"
  proof (rule lframe_geo [OF f(1) g])
    show "data_block s x" if "unat x < fssize s" "\<not> used t x" for x using geoD(8) [OF g] us that by blast
    show "length (blk t 1 x) = BSIZE" if "unat x < fssize s" "\<not> in_log s x" for x using geoD(2) [OF g] geoD(6,7) [OF g B] that by (simp add: f(3))
  qed
  then have v: "vol t" using t(5) volD(3) [OF s(1)] by (simp add: vol_def li)
  have ba: "baddr t i = baddr s i" using ob [OF file_okD(4) [OF s(2)]] by (auto simp: baddr_def li f(3) fun_eq_iff)
  have ow: "owns s x \<Longrightarrow> owns t x" for x using owns_neq [OF s(1)] us by (simp add: owns_def li)
  have "file_ok t i" using s(2) ow unfolding file_ok_def ba li(2) by blast
  moreover have "fbyte t i k = fbyte s i k" if "k < MAXFILE * BSIZE" for k
    using ob [OF file_okD(5) [OF s(2), of "k div BSIZE"]] that by (auto simp: fbyte_def ba f(3) less_mult_imp_div_less)
  moreover have "fframe i s t" by (rule tstep_fframe [OF t(6)])
  moreover have "iupdate i s = Ret () t" using t(1-4) file_okD(2) [OF s(2)] by (simp add: iupdate_def km_simps B_def)
  ultimately show ?thesis using v ba f li(2) by blast
qed

section \<open>Files\<close>

text \<open>A file at rest: every block up to its size has an address, and it is no larger than a file may be.\<close>

section \<open>The inode on the disk\<close>

text \<open>A \<open>struct dinode\<close> is read back as it was stored, and the other seven of its block stay.\<close>

lemma nth_put_addrs: "j < p \<or> p + 4 * length as \<le> j \<Longrightarrow> put_addrs p as d ! j = d ! j"
  by (induction as arbitrary: p d) (auto simp: nth_put32)

lemma put_addrs_other:
  "k + 4 \<le> p \<or> p + 4 * length as \<le> k \<Longrightarrow> get32 (put_addrs p as d) k = get32 d k"
  "k + 2 \<le> p \<or> p + 4 * length as \<le> k \<Longrightarrow> get16 (put_addrs p as d) k = get16 d k"
  by (auto simp: get32_def get16_def nth_put_addrs)

lemma get_put_addrs: "k < length as \<Longrightarrow> p + 4 * length as \<le> length d \<Longrightarrow> get32 (put_addrs p as d) (p + 4 * k) = as ! k"
proof (induction as arbitrary: p d k)
  case (Cons a as)
  show ?case
  proof (cases k)
    case 0
    then show ?thesis using Cons.prems by (simp add: put_addrs_other)
  next
    case (Suc n)
    then show ?thesis using Cons.IH [of n "p + 4" "put32 d p a"] Cons.prems by (simp add: algebra_simps)
  qed
qed simp

lemma get_put_dinode:
  assumes "length (addrs ip) = NDIRECT + 1" "p + 64 \<le> length d"
  shows "get_dinode (put_dinode ip p d) p ip = ip"
proof -
  have "map (\<lambda>j. get32 (put_dinode ip p d) (p + 12 + 4 * j)) [0..<NDIRECT + 1] = addrs ip"
    using assms by (intro nth_equalityI) (simp_all add: put_dinode_def get_put_addrs del: upt_Suc)
  then show ?thesis using assms by (simp add: get_dinode_def put_dinode_def put_addrs_other del: upt_Suc)
qed

lemma get_put_dinode_other:
  assumes "length (addrs ip) = NDIRECT + 1" "q + 64 \<le> p \<or> p + 64 \<le> q"
  shows "get_dinode (put_dinode ip p d) q x = get_dinode d q x"
proof -
  have n: "put_dinode ip p d ! j = d ! j" if "j < p \<or> p + 64 \<le> j" for j
    using that assms(1) by (auto simp: put_dinode_def nth_put_addrs nth_put32 nth_put16)
  have "get32 (put_dinode ip p d) j = get32 d j" if "q \<le> j" "j + 4 \<le> q + 64" for j
    using that assms(2) by (auto simp: get32_def n)
  moreover have "get16 (put_dinode ip p d) j = get16 d j" if "q \<le> j" "j + 2 \<le> q + 64" for j
    using that assms(2) by (auto simp: get16_def n)
  ultimately show ?thesis by (simp add: get_dinode_def del: upt_Suc)
qed

text \<open>
  A file as the blocks alone have it, without the inode cache: \<open>dnode D x m\<close> is inode \<open>m\<close> as \<open>ilock\<close> would
  load it from blocks \<open>D\<close> with superblock \<open>x\<close>; \<open>daddr\<close>, \<open>dbyte\<close> and \<open>dblocks\<close> are the address of a block of
  the file, a byte of the file, and all its blocks.
\<close>

definition dnode :: "(u32 \<Rightarrow> u8 list) \<Rightarrow> superblock \<Rightarrow> u32 \<Rightarrow> inode" where
  "dnode D x m = get_dinode (D (IBLOCK m x)) (dinode_off m) zero_inode"

definition daddr :: "(u32 \<Rightarrow> u8 list) \<Rightarrow> inode \<Rightarrow> nat \<Rightarrow> u32" where
  "daddr D ip bn = (if bn < NDIRECT then addrs ip ! bn else if addrs ip ! NDIRECT = 0 then 0
     else get32 (D (addrs ip ! NDIRECT)) (4 * (bn - NDIRECT)))"

definition dbyte :: "(u32 \<Rightarrow> u8 list) \<Rightarrow> superblock \<Rightarrow> u32 \<Rightarrow> nat \<Rightarrow> u8" where
  "dbyte D x m k = (let a = daddr D (dnode D x m) (k div BSIZE) in if a = 0 then 0 else D a ! (k mod BSIZE))"

definition dblocks :: "(u32 \<Rightarrow> u8 list) \<Rightarrow> superblock \<Rightarrow> u32 \<Rightarrow> u32 set" where
  "dblocks D x m = {a. a \<noteq> 0 \<and> (a = addrs (dnode D x m) ! NDIRECT \<or> (\<exists>bn < MAXFILE. a = daddr D (dnode D x m) bn))}"

text \<open>Entry \<open>i\<close> of the inode cache agrees with its inode block: loading it again changes nothing.\<close>

definition synced :: "'z istate_scheme \<Rightarrow> nat \<Rightarrow> bool" where
  "synced s i \<longleftrightarrow> (let ip = ino i s in get_dinode (blk s 1 (IBLOCK (inum ip) (sb s))) (dinode_off (inum ip)) ip = ip)"

lemma get_dinode_fields:
  assumes "get_dinode d p ip = ip"
  shows "get_dinode d p x = x\<lparr>itype := itype ip, imajor := imajor ip, iminor := iminor ip, nlink := nlink ip, isize := isize ip, addrs := addrs ip\<rparr>"
proof -
  have "itype (get_dinode d p ip) = itype ip" "imajor (get_dinode d p ip) = imajor ip" "iminor (get_dinode d p ip) = iminor ip"
    "nlink (get_dinode d p ip) = nlink ip" "isize (get_dinode d p ip) = isize ip" "addrs (get_dinode d p ip) = addrs ip"
    using assms by simp_all
  then show ?thesis by (simp add: get_dinode_def del: upt_Suc)
qed

lemma synced_dnode:
  assumes "synced s i"
  defines "N \<equiv> dnode (blk s 1) (sb s) (inum (ino i s))"
  shows "itype N = itype (ino i s)" "imajor N = imajor (ino i s)" "iminor N = iminor (ino i s)" "nlink N = nlink (ino i s)"
    "isize N = isize (ino i s)" "addrs N = addrs (ino i s)"
    "dbyte (blk s 1) (sb s) (inum (ino i s)) k = fbyte s i k"
proof -
  have e: "N = zero_inode\<lparr>itype := itype (ino i s), imajor := imajor (ino i s), iminor := iminor (ino i s),
      nlink := nlink (ino i s), isize := isize (ino i s), addrs := addrs (ino i s)\<rparr>"
    unfolding N_def dnode_def using assms(1) by (intro get_dinode_fields) (simp add: synced_def Let_def)
  show "itype N = itype (ino i s)" "imajor N = imajor (ino i s)" "iminor N = iminor (ino i s)" "nlink N = nlink (ino i s)"
    "isize N = isize (ino i s)" and a: "addrs N = addrs (ino i s)" by (simp_all add: e)
  show "dbyte (blk s 1) (sb s) (inum (ino i s)) k = fbyte s i k"
    using a by (simp add: dbyte_def fbyte_def daddr_def baddr_def N_def [symmetric] Let_def)
qed

lemma dinode_slots:
  assumes "IBLOCK m x = IBLOCK n x" "m \<noteq> n"
  shows "dinode_off m + 64 \<le> dinode_off n \<or> dinode_off n + 64 \<le> dinode_off m"
proof -
  have "m div 8 = n div 8" using assms(1) by (simp add: IBLOCK_def)
  then have "unat (m div 8) = unat (n div 8)" by simp
  then have "unat m div 8 = unat n div 8" by (simp add: unat_div)
  moreover have "unat m \<noteq> unat n" using assms(2) by (simp add: word_unat_eq_iff)
  ultimately have "unat m mod 8 \<noteq> unat n mod 8" by (metis div_mult_mod_eq)
  then show ?thesis by (auto simp: dinode_off_def)
qed

lemma dinode_off_fits: "dinode_off m + 64 \<le> BSIZE"
proof -
  have "unat m mod 8 \<le> 7" using mod_less_divisor [of 8 "unat m"] by simp
  then show ?thesis by (simp add: dinode_off_def)
qed

lemma iblock_foreign:
  assumes s: "vol s" "file_ok s i" and n: "is_iblock s n"
  shows "foreign s i n"
proof -
  note g = volD(2) [OF s(1)]
  have l: "unat n < fssize s" "n \<noteq> 0" using geoD(6,9) [OF g n] by simp_all
  have u: "used s n" using geoD(8) [OF g l(1)] n by (auto simp: data_block_def)
  have "is_bitmap s (bmb s)" using bitmapI [of 0 s] BBLOCK_one [OF volD(3) [OF s(1)], of 0] l(1) by simp
  then have "n \<noteq> bmb s" using geoD(5) [OF g] n by blast
  moreover have "owns s a \<Longrightarrow> a \<noteq> n" for a using n by (auto simp: owns_def data_block_def)
  then have "n \<notin> owned s i" using file_okD(4,5) [OF s(2)] by (auto simp: owned_def)
  ultimately show ?thesis using l u by (simp add: foreign_def)
qed

definition stored :: "'z istate_scheme \<Rightarrow> nat \<Rightarrow> bool" where
  "stored s i \<longleftrightarrow> vol s \<and> file_ok s i \<and> itype (ino i s) \<noteq> T_DEV \<and> unat (inum (ino i s)) < unat (sb_ninodes (sb s)) \<and>
     unat (isize (ino i s)) \<le> MAXFILE * BSIZE \<and> (\<forall>k < unat (isize (ino i s)). baddr s i (k div BSIZE) \<noteq> 0) \<and> synced s i"

lemma storedD:
  assumes "stored s i"
  shows "vol s" "file_ok s i" "itype (ino i s) \<noteq> T_DEV" "unat (inum (ino i s)) < unat (sb_ninodes (sb s))"
    "unat (isize (ino i s)) \<le> MAXFILE * BSIZE" "k < unat (isize (ino i s)) \<Longrightarrow> baddr s i (k div BSIZE) \<noteq> 0" "synced s i"
  using assms by (simp_all add: stored_def)

lemma small_count:
  assumes "n \<le> MAXFILE * BSIZE"
  shows "unat (of_nat n :: u32) = n" "sint (of_nat n :: u32) = int n"
proof -
  show u: "unat (of_nat n :: u32) = n" using assms by (simp add: unat_of_nat)
  have "uint (of_nat n :: u32) = int n" using u by (simp add: uint_nat)
  then show "sint (of_nat n :: u32) = int n" using assms by (simp add: sint_uint signed_take_bit_int_eq_self)
qed

lemma readi_ok:
  assumes s: "stored s i" "card (lset s i) \<le> 28" and n: "unat off + n \<le> unat (isize (ino i s))"
  shows "\<exists>t. readi dv i off (of_nat n) s = Ret (int n, map (fbyte s i) [unat off..<unat off + n]) t \<and> same_view s t"
proof -
  note d = storedD [OF s(1)]
  have le: "n \<le> MAXFILE * BSIZE" "unat off + n \<le> MAXFILE * BSIZE" using d(5) n by linarith+
  note c = small_count [OF le(1)]
  have o: "unat (off + of_nat n) = unat off + n" using le by (intro off_plus) simp
  have w: "\<not> off > isize (ino i s)" "\<not> off + of_nat n < off" "\<not> off + of_nat n > isize (ino i s)"
    using n o by (simp_all add: word_less_nat_alt)
  obtain t where "readi_loop i off n s = Ret (map (fbyte s i) [unat off..<unat off + n]) t" "same_view s t"
    using readi_loop_ok [OF d(1,2) s(2) le(2)] d(6) n by (metis order_less_le_trans)
  then show ?thesis using d(3) w c by (simp add: readi_def km_simps Let_def)
qed

definition grown :: "'z istate_scheme \<Rightarrow> nat \<Rightarrow> nat \<Rightarrow> nat" where
  "grown s i n = max (unat (isize (ino i s))) n"

lemma set_size:
  fixes z :: u32
  assumes "vol s" "file_ok s i"
  defines "t \<equiv> upd_ino i (\<lambda>ip. ip\<lparr>isize := z\<rparr>) s"
  shows "vol t" "file_ok t i" "fframe i s t" "baddr t i = baddr s i" "fbyte t i = fbyte s i" "lset t i = lset s i"
    "isize (ino i t) = z" "sb t = sb s" "blk t = blk s" "inum (ino i t) = inum (ino i s)" "itype (ino i t) = itype (ino i s)"
proof -
  have i: "i < length (inodes s)" by (rule file_okD(1) [OF assms(2)])
  have e: "ino i t = (ino i s)\<lparr>isize := z\<rparr>" "length (inodes t) = length (inodes s)" using i by (simp_all add: t_def upd_ino_def)
  show b: "blk t = blk s" "sb t = sb s" by (simp_all add: t_def upd_ino_def)
  have u: "data_block t = data_block s" "used t = used s" "logged t = logged s" by (simp_all add: t_def upd_ino_def)
  show "isize (ino i t) = z" "inum (ino i t) = inum (ino i s)" "itype (ino i t) = itype (ino i s)" by (simp_all add: e)
  show "vol t" using assms(1) by (simp add: vol_def t_def upd_ino_def)
  show ba: "baddr t i = baddr s i" by (simp add: baddr_def e b fun_eq_iff)
  then show "fbyte t i = fbyte s i" by (simp add: fbyte_def b fun_eq_iff)
  show "lset t i = lset s i" by (simp add: lset_def e u b)
  have a: "addrs (ino i t) = addrs (ino i s)" "i_dev (ino i t) = i_dev (ino i s)" by (simp_all add: e)
  show "file_ok t i" using assms(2) unfolding file_ok_def ba owns_def u e(2) a .
  have "t = upd_ino i (\<lambda>ip. ip\<lparr>addrs := addrs (ino i s), isize := z\<rparr>) s" by (simp add: t_def upd_ino_def)
  then show "fframe i s t" using upd_ino_fframe by simp
qed

lemma writei_ok:
  assumes s: "stored s i" and off: "unat off \<le> unat (isize (ino i s))" "unat off + length src \<le> MAXFILE * BSIZE"
    and n: "lcost s i + nblk (unat off) (length src) \<le> 28" and fr: "fcost s i + nblk (unat off) (length src) \<le> card (free_blocks s)"
  shows "\<exists>t. writei dv i src off s = Ret (int (length src)) t \<and> stored t i \<and> fframe i s t \<and>
    unat (isize (ino i t)) = grown s i (unat off + length src) \<and>
    (\<forall>k < MAXFILE * BSIZE. fbyte t i k = (if unat off \<le> k \<and> k < unat off + length src then src ! (k - unat off) else fbyte s i k)) \<and>
    (\<forall>n. foreign s i n \<and> n \<noteq> IBLOCK (inum (ino i s)) (sb s) \<longrightarrow> blk t 1 n = blk s 1 n) \<and>
    (\<forall>m. unat m < unat (sb_ninodes (sb s)) \<and> m \<noteq> inum (ino i s) \<longrightarrow> dnode (blk t 1) (sb s) m = dnode (blk s 1) (sb s) m) \<and>
    card (lset t i) \<le> Suc (lcost s i + nblk (unat off) (length src)) \<and>
    (\<forall>k. fcost s i + nblk (unat off) (length src) + k \<le> card (free_blocks s) \<longrightarrow> fcost t i + k \<le> card (free_blocks t)) \<and>
    (\<forall>n. foreign s i n \<longrightarrow> foreign t i n)"
proof -
  note d = storedD [OF s]
  let ?n = "of_nat (length src) :: u32" and ?z = "isize (ino i s)"
  have le: "length src \<le> MAXFILE * BSIZE" using off(2) by linarith
  note c = small_count [OF le]
  have o: "unat (off + ?n) = unat off + length src" using off(2) by (intro off_plus) simp
  have w: "\<not> off > ?z" "\<not> off + ?n < off" "\<not> off + ?n > 71680" using off o by (simp_all add: word_less_nat_alt)
  obtain t where t: "writei_loop i src off s = Ret (off + ?n) t" "fstep i s t"
    "lcost t i \<le> lcost s i + nblk (unat off) (length src)"
    "\<forall>k. fcost s i + nblk (unat off) (length src) + k \<le> card (free_blocks s) \<longrightarrow> fcost t i + k \<le> card (free_blocks t)"
    "\<forall>k < MAXFILE * BSIZE. fbyte t i k = (if unat off \<le> k \<and> k < unat off + length src then src ! (k - unat off) else fbyte s i k)"
    "\<forall>k. unat off \<le> k \<and> k < unat off + length src \<longrightarrow> baddr t i (k div BSIZE) \<noteq> 0"
    "(\<forall>k. unat off \<le> k \<and> k < unat off + length src \<longrightarrow> baddr s i (k div BSIZE) \<noteq> 0) \<longrightarrow> inodes t = inodes s"
    using writei_loop_ok [OF d(1,2) off(2) n fr] by blast
  note F = fstepD [OF t(2)] and G = fframe_fields [OF fstepD(1) [OF t(2)]]
  let ?B = "IBLOCK (inum (ino i s)) (sb s)"
  have ib: "blk t 1 (IBLOCK m (sb s)) = blk s 1 (IBLOCK m (sb s))" if "unat m < unat (sb_ninodes (sb s))" for m
    using F(6) [OF iblock_foreign [OF d(1,2)]] that by (auto simp: is_iblock_def)
  have al: "baddr t i (k div BSIZE) \<noteq> 0" if "k < grown s i (unat off + length src)" for k
  proof (cases "k < unat ?z")
    case True
    then have "k div BSIZE < MAXFILE" using d(5) by (simp add: less_mult_imp_div_less)
    then show ?thesis using F(8) d(6) [OF True] by simp
  next
    case False
    then show ?thesis using that t(6) off(1) by (simp add: grown_def)
  qed
  show ?thesis
  proof (cases "?n > 0 \<and> off + ?n > ?z")
    case False
    then have z: "grown s i (unat off + length src) = unat ?z"
      using o c(1) off(1) by (cases "src = []") (auto simp: grown_def word_less_nat_alt)
    have "k < unat ?z" if "k < unat off + length src" "unat off \<le> k" for k
      using that False o c(1) by (cases "src = []") (auto simp: word_less_nat_alt)
    then have it: "inodes t = inodes s" using t(7) d(6) by blast
    have "synced t i" using d(7) ib [OF d(4)] by (simp add: synced_def it G)
    then have "stored t i" using d F(2-4) G al z by (simp add: stored_def)
    moreover have "whenK (?n > 0 \<and> off + ?n > ?z) m t = Ret () t" for m using False by (auto simp: whenK_def)
    then have "writei dv i src off s = Ret (int (length src)) t"
      using t(1) d(3) w c F(4) by (simp add: writei_def km_simps Let_def)
    moreover have "card (lset t i) \<le> Suc (lcost s i + nblk (unat off) (length src))" using t(3) by (simp add: lcost_def)
    moreover have "dnode (blk t 1) (sb s) m = dnode (blk s 1) (sb s) m" if "unat m < unat (sb_ninodes (sb s))" for m
      using ib [OF that] by (simp add: dnode_def)
    ultimately show ?thesis using F(1,4,6) t(4,5) z foreign_step [OF t(2)] by auto
  next
    case True
    define u where "u = upd_ino i (\<lambda>ip. ip\<lparr>isize := off + ?n\<rparr>) t"
    note S = set_size [OF F(2,3), of "off + ?n", folded u_def]
    have z: "grown s i (unat off + length src) = unat off + length src" using True o by (simp add: grown_def word_less_nat_alt)
    have cu: "card (lset u i) \<le> 28" using t(3) n by (simp add: S lcost_def)
    have iu: "unat (inum (ino i u)) < unat (sb_ninodes (sb u))" using d(4) by (simp add: S G)
    obtain v where v: "iupdate i u = Ret () v" "vol v" "file_ok v i" "fframe i u v" "inodes v = inodes u" "baddr v i = baddr u i"
      "\<forall>k < MAXFILE * BSIZE. fbyte v i k = fbyte u i k" "logged v = absorb ?B (logged u)"
      "blk v = put_blk (blk u) 1 ?B (put_dinode (ino i u) (dinode_off (inum (ino i u))) (blk u 1 ?B))"
      using iupdate_ok [OF S(1,2) iu cu] by (auto simp: S G)
    have fv: "fframe i s v" using fframe_trans [OF F(1) fframe_trans [OF S(3) v(4)]] .
    note V = fframe_fields [OF fv]
    have lb: "length (blk u 1 ?B) = BSIZE"
      using geoD(2) [OF volD(2) [OF S(1)]] geoD(6,7) [OF volD(2) [OF S(1)] iblockI [OF iu]] by (simp add: S G)
    have la: "length (addrs (ino i u)) = NDIRECT + 1" by (rule file_okD(3) [OF S(2)])
    have "get_dinode (blk v 1 ?B) (dinode_off (inum (ino i u))) (ino i u) = ino i u"
      using get_put_dinode [OF la] dinode_off_fits lb by (simp add: v(9))
    then have "synced v i" by (simp add: synced_def Let_def v(5) V S G)
    then have "stored v i" using d(3,4) v(2,3,5,6) al z off(2) by (simp add: stored_def V S G o)
    moreover have "writei dv i src off s = Ret (int (length src)) v"
      using t(1) d(3) w c True F(4) v(1) by (simp add: writei_def km_simps Let_def u_def)
    moreover have "blk v 1 n = blk s 1 n" if "foreign s i n" "n \<noteq> ?B" for n using F(6) [OF that(1)] that(2) by (simp add: v(9) S)
    moreover have "dnode (blk v 1) (sb s) m = dnode (blk s 1) (sb s) m"
      if m: "unat m < unat (sb_ninodes (sb s))" "m \<noteq> inum (ino i s)" for m
    proof (cases "IBLOCK m (sb s) = ?B")
      case True
      have "get_dinode (put_dinode (ino i u) (dinode_off (inum (ino i s))) b) (dinode_off m) y = get_dinode b (dinode_off m) y" for b y
        using dinode_slots [OF True m(2)] by (intro get_put_dinode_other [OF la])
      then show ?thesis using ib [OF m(1)] True by (simp add: dnode_def v(9) S G)
    next
      case False
      then show ?thesis using ib [OF m(1)] by (simp add: dnode_def v(9) S)
    qed
    moreover have "lset v i \<subseteq> insert ?B (lset u i)" using v(5,8) fframe_fields(1) [OF v(4)] by (auto simp: lset_def absorb_def)
    then have "card (lset v i) \<le> card (insert ?B (lset u i))" by (intro card_mono) simp_all
    then have cl: "card (lset v i) \<le> Suc (lcost s i + nblk (unat off) (length src))"
      using t(3) by (simp add: S lcost_def card_insert_if split: if_splits)
    have us: "used v n = used t n" if n: "unat n < fssize s" for n
    proof -
      have sb: "sb v = sb s" "sb t = sb s" using V G by simp_all
      have "BBLOCK n (sb s) \<noteq> ?B"
        using geoD(5) [OF volD(2) [OF d(1)] bitmapI [OF n]] iblockI [OF d(4)] by metis
      then show ?thesis by (simp add: used_def sb v(9) S)
    qed
    have iv: "ind v i = ind t i" using v(5) by (simp add: u_def upd_ino_def file_okD(1) [OF F(3)])
    have fg: "foreign v i n" if "foreign s i n" for n
      using foreign_step [OF t(2) that] us by (auto simp: foreign_def owned_def V G v(6) S iv)
    moreover have "free_blocks v = free_blocks t" using us by (auto simp: free_blocks_def V G)
    then have fc: "fcost v i + k \<le> card (free_blocks v)" if "fcost s i + nblk (unat off) (length src) + k \<le> card (free_blocks s)" for k
      using t(4) that iv by (simp add: fcost_def)
    moreover have "unat (isize (ino i v)) = grown s i (unat off + length src)" by (simp add: v(5) S o z)
    ultimately show ?thesis using fv t(5) v(7) fc fg cl by (simp add: S)
  qed
qed

lemma lcost_le: "txn s H \<Longrightarrow> lcost s i \<le> nat (lh_n s) + 2"
proof -
  assume "txn s H"
  then have "card (set (logged s)) \<le> nat (lh_n s)" using lh_n_txn [of s H] by (metis card_length)
  moreover have "card (lset s i) \<le> Suc (card (set (logged s) \<union> ({ind s i} - {0})))" by (simp add: lset_def card_insert_if)
  moreover have "card (set (logged s) \<union> ({ind s i} - {0})) \<le> card (set (logged s)) + card ({ind s i} - {0})" by (rule card_Un_le)
  ultimately show ?thesis by (cases "ind s i = 0") (simp_all add: lcost_def)
qed

lemma lh_n_le: "txn s H \<Longrightarrow> nat (lh_n s) \<le> card (lset s i)"
proof -
  assume a: "txn s H"
  have "nat (lh_n s) = card (set (logged s))" using lh_n_txn [OF a] distinct_logged [OF a] by (simp add: distinct_card)
  also have "\<dots> \<le> card (lset s i)" by (rule card_mono) (auto simp: lset_def)
  finally show ?thesis .
qed

text \<open>
  From blocks \<open>D\<close> to blocks \<open>E\<close> the file of inode \<open>m\<close> has got \<open>src\<close> at \<open>off\<close>: its bytes there are the new ones
  and its others the old ones, it has grown to the end of what was written, and its type and links are
  the same. No other inode has changed.
\<close>

definition rewritten :: "(u32 \<Rightarrow> u8 list) \<Rightarrow> (u32 \<Rightarrow> u8 list) \<Rightarrow> superblock \<Rightarrow> u32 \<Rightarrow> nat \<Rightarrow> u8 list \<Rightarrow> bool" where
  "rewritten D E x m off src \<longleftrightarrow>
     (\<forall>k < MAXFILE * BSIZE. dbyte E x m k = (if off \<le> k \<and> k < off + length src then src ! (k - off) else dbyte D x m k)) \<and>
     unat (isize (dnode E x m)) = max (unat (isize (dnode D x m))) (off + length src) \<and>
     itype (dnode E x m) = itype (dnode D x m) \<and> imajor (dnode E x m) = imajor (dnode D x m) \<and>
     iminor (dnode E x m) = iminor (dnode D x m) \<and> nlink (dnode E x m) = nlink (dnode D x m) \<and>
     (\<forall>n. n \<noteq> m \<and> unat n < unat (sb_ninodes x) \<longrightarrow> dnode E x n = dnode D x n)"

text \<open>Inode \<open>m\<close> is that of another file than entry \<open>i\<close> of the inode cache: its blocks are data blocks in use, none of them of that file.\<close>

definition other_file :: "'z istate_scheme \<Rightarrow> nat \<Rightarrow> u32 \<Rightarrow> bool" where
  "other_file s i m \<longleftrightarrow> m \<noteq> inum (ino i s) \<and> unat m < unat (sb_ninodes (sb s)) \<and>
     dblocks (blk s 1) (sb s) m \<subseteq> {a. owns s a} - owned s i"

lemma other_kept:
  assumes s: "vol s" and o: "other_file s i m" and d: "dnode E (sb s) m = dnode (blk s 1) (sb s) m" and i: "unat (inum (ino i s)) < unat (sb_ninodes (sb s))"
    and e: "\<And>n. foreign s i n \<Longrightarrow> \<not> in_log s n \<Longrightarrow> n \<noteq> IBLOCK (inum (ino i s)) (sb s) \<Longrightarrow> E n = blk s 1 n" and k: "k < MAXFILE * BSIZE"
  shows "dbyte E (sb s) m k = dbyte (blk s 1) (sb s) m k"
proof -
  let ?N = "dnode (blk s 1) (sb s) m"
  have f: "E a = blk s 1 a" if "a \<in> dblocks (blk s 1) (sb s) m" for a
  proof (rule e)
    have a: "owns s a" "a \<notin> owned s i" using o that by (auto simp: other_file_def)
    show "foreign s i a" "\<not> in_log s a" using owns_neq [OF s a(1)] a(2) by (simp_all add: foreign_def)
    show "a \<noteq> IBLOCK (inum (ino i s)) (sb s)" using a(1) iblockI [OF i] by (auto simp: owns_def data_block_def)
  qed
  have "daddr E ?N bn = daddr (blk s 1) ?N bn" for bn
    using f [of "addrs ?N ! NDIRECT"] by (auto simp: daddr_def dblocks_def)
  moreover have "k div BSIZE < MAXFILE" using k by (rule less_mult_imp_div_less)
  then have "daddr (blk s 1) ?N (k div BSIZE) \<noteq> 0 \<Longrightarrow> E (daddr (blk s 1) ?N (k div BSIZE)) = blk s 1 (daddr (blk s 1) ?N (k div BSIZE))"
    by (intro f) (auto simp: dblocks_def)
  ultimately show ?thesis using d by (simp add: dbyte_def Let_def)
qed

lemma stored_rewritten:
  assumes s: "stored s i" and t: "stored t i" "sb t = sb s" "inum (ino i t) = inum (ino i s)" "itype (ino i t) = itype (ino i s)"
    "imajor (ino i t) = imajor (ino i s)" "iminor (ino i t) = iminor (ino i s)" "nlink (ino i t) = nlink (ino i s)"
    and z: "unat (isize (ino i t)) = max (unat (isize (ino i s))) (off + length src)"
    and b: "\<forall>k < MAXFILE * BSIZE. fbyte t i k = (if off \<le> k \<and> k < off + length src then src ! (k - off) else fbyte s i k)"
    and m: "\<forall>m. unat m < unat (sb_ninodes (sb s)) \<and> m \<noteq> inum (ino i s) \<longrightarrow> dnode (blk t 1) (sb s) m = dnode (blk s 1) (sb s) m"
  shows "rewritten (blk s 1) (blk t 1) (sb s) (inum (ino i s)) off src"
proof -
  note S = synced_dnode [OF storedD(7) [OF s]] and T = synced_dnode [OF storedD(7) [OF t(1)], unfolded t(2,3)]
  show ?thesis unfolding rewritten_def S T using t(4-7) z b m by blast
qed

text \<open>
  C3. What is written to a file is read back, and nothing else in the file system changes. A \<open>writei\<close>
  that starts inside the file and ends below the largest size a file may have, with room in the log and
  free blocks on the disk, returns its count, allocates the blocks it needs and grows the size. Read from
  the blocks alone, starting at the inode on the disk, every byte it wrote has the new value, every other
  byte of the file the old one, and the inode has the new size and otherwise what it had; the entry of the
  inode cache still agrees with it. All other inodes are as before, the seven in the same block included,
  and so is every byte of every other file and every block in use that is neither the file's nor its inode
  block nor the bitmap. Nothing reaches the disk before the commit; \<open>readi\<close> at the same offset gives the bytes
  back. The log grows by at most the blocks written and three more.
\<close>

theorem writei_readi:
  assumes s: "stored s i" and off: "unat off \<le> unat (isize (ino i s))" "unat off + length src \<le> MAXFILE * BSIZE"
    and n: "nat (lh_n s) + nblk (unat off) (length src) + 3 \<le> 28"
    and fr: "nblk (unat off) (length src) < card (free_blocks s)"
  shows "\<exists>t u. writei dv i src off s = Ret (int (length src)) t \<and> stored t i \<and> synced t i \<and>
    rewritten (blk s 1) (blk t 1) (sb s) (inum (ino i s)) (unat off) src \<and>
    (\<forall>m. other_file s i m \<longrightarrow> (\<forall>k < MAXFILE * BSIZE. dbyte (blk t 1) (sb s) m k = dbyte (blk s 1) (sb s) m k)) \<and>
    (\<forall>n. foreign s i n \<and> n \<noteq> IBLOCK (inum (ino i s)) (sb s) \<longrightarrow> blk t 1 n = blk s 1 n) \<and> dsk t = dsk s \<and>
    nat (lh_n t) \<le> nat (lh_n s) + nblk (unat off) (length src) + 3 \<and>
    readi dv i off (of_nat (length src)) t = Ret (int (length src), src) u"
proof -
  note d = storedD [OF s]
  have c: "lcost s i \<le> nat (lh_n s) + 2" by (rule lcost_le [OF volD(1) [OF d(1)]])
  have f: "fcost s i + nblk (unat off) (length src) \<le> card (free_blocks s)" using fr by (simp add: fcost_def)
  obtain t where t: "writei dv i src off s = Ret (int (length src)) t" "stored t i" "fframe i s t"
    "unat (isize (ino i t)) = grown s i (unat off + length src)"
    "\<forall>k < MAXFILE * BSIZE. fbyte t i k = (if unat off \<le> k \<and> k < unat off + length src then src ! (k - unat off) else fbyte s i k)"
    "\<forall>n. foreign s i n \<and> n \<noteq> IBLOCK (inum (ino i s)) (sb s) \<longrightarrow> blk t 1 n = blk s 1 n"
    "card (lset t i) \<le> Suc (lcost s i + nblk (unat off) (length src))"
    "\<forall>m. unat m < unat (sb_ninodes (sb s)) \<and> m \<noteq> inum (ino i s) \<longrightarrow> dnode (blk t 1) (sb s) m = dnode (blk s 1) (sb s) m"
    using writei_ok [OF s off _ f, of dv] c n by auto
  have l: "card (lset t i) \<le> nat (lh_n s) + nblk (unat off) (length src) + 3" using t(7) c by simp
  have "card (lset t i) \<le> 28" using l n by linarith
  then obtain u where u: "readi dv i off (of_nat (length src)) t = Ret (int (length src), map (fbyte t i) [unat off..<unat off + length src]) u"
    using readi_ok [OF t(2), of off "length src" dv] t(4) by (auto simp: grown_def)
  have "map (fbyte t i) [unat off..<unat off + length src] = src"
    using t(5) off(2) by (intro nth_equalityI) simp_all
  moreover have "nat (lh_n t) \<le> nat (lh_n s) + nblk (unat off) (length src) + 3"
    using lh_n_le [OF volD(1) [OF storedD(1) [OF t(2)]], of i] l by linarith
  moreover have "rewritten (blk s 1) (blk t 1) (sb s) (inum (ino i s)) (unat off) src"
    by (rule stored_rewritten [OF s t(2)]) (use t(4,5,8) fframe_fields [OF t(3)] in \<open>simp_all add: grown_def\<close>)
  moreover have "dbyte (blk t 1) (sb s) m k = dbyte (blk s 1) (sb s) m k" if "other_file s i m" "k < MAXFILE * BSIZE" for m k
    using that t(6,8) by (intro other_kept [OF d(1) that(1) _ d(4)]) (auto simp: other_file_def)
  ultimately show ?thesis using t(1,2,6) u fframe_fields(13) [OF t(3)] storedD(7) [OF t(2)] by auto
qed

lemma fresh_stored:
  assumes a: "fresh_vol s"
  shows "stored s 0" "1 < card (free_blocks s)" "4 < card (free_blocks s)"
proof -
  note f = fresh_fields [OF a]
  have b: "baddr s 0 m = 0" for m by (simp add: baddr_def f(18) zero_inode_def nth_Cons' del: replicate.simps)
  have v: "vol s" using fresh_txn(1) [OF a] fresh_geo [OF a] f(21) by (simp add: vol_def)
  have "inodes s \<noteq> []" using f(17) by auto
  have "map (\<lambda>j. get32 (replicate 128 0 @ [2, 0, 0, 0, 0, 0, 1, 0] @ replicate 376 0) (128 + 12 + 4 * j)) [0..<13] = replicate 13 0"
    by (intro nth_equalityI) (simp_all add: get32_def nth_append del: replicate.simps)
  then have "synced s 0"
    by (simp add: synced_def Let_def get_dinode_def f(1,18,19) fresh_txn(2) [OF a] IBLOCK_def demo_sb_def dinode_off_def zero_inode_def
        get16_def nth_append del: replicate.simps) (simp add: get32_def nth_append del: replicate.simps)
  then show "stored s 0" using v \<open>inodes s \<noteq> []\<close> by (simp add: stored_def file_ok_def b) (simp add: f(1,18) zero_inode_def demo_sb_def)
  have "n \<in> free_blocks s" if "unat n = 800 \<or> unat n = 801 \<or> unat n = 802 \<or> unat n = 803 \<or> unat n = 804" for n
    unfolding free_blocks_def f(21) using fresh_map(3) [OF a, of n] that by auto
  then have "{800, 801, 802, 803, 804} \<subseteq> free_blocks s" by simp
  moreover have "finite (free_blocks s)" by (simp add: free_blocks_def)
  ultimately have "card {800, 801, 802, 803, 804 :: u32} \<le> card (free_blocks s)" by (intro card_mono)
  then show "1 < card (free_blocks s)" "4 < card (free_blocks s)" by simp_all
qed

theorem writei_readi_witness:
  "\<exists>t u. writei [] 0 [1, 2, 3] 0 demo_vol = Ret 3 t \<and> readi [] 0 0 3 t = Ret (3, [1, 2, 3]) u \<and>
    isize (dnode (blk t 1) demo_sb 2) = 3 \<and> dbyte (blk t 1) demo_sb 2 1 = 2"
proof -
  have s: "stored demo_vol 0" by (rule fresh_stored(1) [OF fresh_demo_vol])
  obtain t u where t: "writei [] 0 [1, 2, 3] 0 demo_vol = Ret 3 t" "rewritten (blk demo_vol 1) (blk t 1) demo_sb 2 0 [1, 2, 3]"
    "readi [] 0 0 3 t = Ret (3, [1, 2, 3]) u"
    using writei_readi [OF s, of 0 "[1, 2, 3]" "[]"] fresh_stored(2) [OF fresh_demo_vol]
    by (auto simp: demo_vol_fields zero_inode_def nblk_def)
  have "isize (dnode (blk demo_vol 1) demo_sb 2) = 0"
    using synced_dnode(5) [OF storedD(7) [OF s]] by (simp add: demo_vol_fields zero_inode_def)
  then have "unat (isize (dnode (blk t 1) demo_sb 2)) = 3" "dbyte (blk t 1) demo_sb 2 1 = 2" using t(2) by (simp_all add: rewritten_def)
  moreover from this have "isize (dnode (blk t 1) demo_sb 2) = 3" by (simp add: word_unat_eq_iff)
  ultimately show ?thesis using t(1,3) by blast
qed

end
