(* ===== verification/Numerals.thy ===== *)
theory Numerals
  imports Prelude
begin

text \<open>
  Printing an integer, the contract the two \<open>printint\<close> of the repository share: \<open>console.c\<close> in the kernel
  and \<open>printf.c\<close> in user programs fill a buffer of 16 characters from its start with the digits of a
  number, lowest first, and print it backwards. The locale \<open>int_printer\<close> states what such a printer does,
  and its lemmas show that the buffer is never overrun and that what is printed is the number written out
  with the highest digit first. Both printers are interpreted on it, in \<open>Console\<close> and \<open>Ulib\<close>.
\<close>

section \<open>A number written out\<close>

function positional :: "(nat \<Rightarrow> u8) \<Rightarrow> nat \<Rightarrow> nat \<Rightarrow> u8 list" where
  "positional d b n = (if b < 2 \<or> n < b then [d n] else positional d b (n div b) @ [d (n mod b)])"
  by pat_completeness auto
termination
  by (relation "measure (\<lambda>(d, b, n). n)") auto

declare positional.simps [simp del]

lemma length_positional: "2 \<le> b \<Longrightarrow> n < b ^ k \<Longrightarrow> length (positional d b n) \<le> max 1 k"
proof (induction d b n arbitrary: k rule: positional.induct)
  case (1 d b n)
  show ?case
  proof (cases "n < b")
    case False
    then obtain j where k: "k = Suc j" "j \<noteq> 0" using 1(2,3) by (cases k; cases "k - 1") auto
    have "n div b < b ^ j" using 1(2,3) k by (simp add: less_mult_imp_div_less mult.commute)
    then have "length (positional d b (n div b)) \<le> max 1 j" using 1 False by simp
    then show ?thesis using False k 1(2) by (subst positional.simps) simp
  qed (simp add: positional.simps)
qed

section \<open>The contract of a printer\<close>

locale int_printer =
  fixes dig :: "u32 \<Rightarrow> u8"
    and digs :: "nat \<Rightarrow> u32 \<Rightarrow> u32 \<Rightarrow> u8 list option"
    and chars :: "u32 \<Rightarrow> u32 \<Rightarrow> bool \<Rightarrow> u8 list option"
  assumes digs_0: "digs 0 x b = None"
    and digs_Suc: "digs (Suc room) x b = (if x div b = 0 then Some [dig (x mod b)]
        else map_option (\<lambda>ds. dig (x mod b) # ds) (digs room (x div b) b))"
    and chars: "chars xx b sg = (let neg = (sg \<and> sint xx < 0); x = (if neg then - xx else xx) in
     case digs 16 x b of None \<Rightarrow> None
     | Some ds \<Rightarrow> if neg then (if length ds < 16 then Some (0x2D # rev ds) else None) else Some (rev ds))"
begin

abbreviation pos :: "u32 \<Rightarrow> nat \<Rightarrow> u8 list" where
  "pos b n \<equiv> positional (\<lambda>d. dig (of_nat d)) (unat b) n"

lemma digs_pos:
  assumes "2 \<le> b" and "length (pos b (unat x)) \<le> room"
  shows "digs room x b = Some (rev (pos b (unat x)))"
  using assms(2)
proof (induction room arbitrary: x)
  case 0
  then show ?case by (simp add: positional.simps split: if_splits)
next
  case (Suc room)
  have b: "2 \<le> unat b" using assms(1) by (simp add: word_le_nat_alt)
  have m: "dig (x mod b) = dig (of_nat (unat x mod unat b))" by (simp add: unat_mod_nat [symmetric])
  show ?case
  proof (cases "unat x < unat b")
    case True
    then have "x div b = 0" "x mod b = x" using b by (simp_all add: word_less_nat_alt mod_word_less div_word_less)
    then show ?thesis using True by (simp add: digs_Suc positional.simps)
  next
    case False
    then have n: "x div b \<noteq> 0" using b by (simp add: unat_eq_0 [symmetric] unat_div div_eq_0_iff)
    have p: "pos b (unat x) = pos b (unat (x div b)) @ [dig (x mod b)]"
      using False b m by (subst positional.simps) (simp add: unat_div)
    have "digs room (x div b) b = Some (rev (pos b (unat (x div b))))"
      using Suc p by simp
    then show ?thesis using n p by (simp add: digs_Suc)
  qed
qed

lemma length_pos:
  fixes x :: u32
  assumes "10 \<le> b"
  shows "length (pos b (unat x)) \<le> 10"
proof -
  have b: "10 \<le> unat b" using assms by (simp add: word_le_nat_alt)
  have "unat x < 10 ^ 10" using less_trans [OF unat_u32_less [of x], of "10 ^ 10"] by simp
  also have "(10 :: nat) ^ 10 \<le> unat b ^ 10" using b by (rule power_mono) simp
  finally show ?thesis using length_positional [of "unat b" "unat x" 10] b by simp
qed

theorem chars_pos:
  assumes "10 \<le> b"
  shows "chars xx b sg = Some (if sg \<and> sint xx < 0 then 0x2D # pos b (nat (- sint xx)) else pos b (unat xx))"
proof -
  have d: "digs 16 x b = Some (rev (pos b (unat x)))" for x :: u32
    using digs_pos [of b x 16] length_pos [OF assms, of x] assms by (simp add: word_le_nat_alt)
  have l: "length (pos b (unat x)) < 16" for x :: u32 using length_pos [OF assms, of x] by simp
  show ?thesis
  proof (cases "sg \<and> sint xx < 0")
    case True
    have "uint (- xx) = - sint xx"
    proof -
      have s: "- (2 ^ 31) \<le> sint xx" using sint_ge [of xx] by simp
      have "uint (- xx) = (- sint xx) mod 2 ^ 32"
        using uint_word_of_int [where 'a = 32, of "- sint xx"] by simp
      then show ?thesis using s True by simp
    qed
    then have "unat (- xx) = nat (- sint xx)" by (simp flip: nat_uint_eq)
    then show ?thesis using True d [of "- xx"] l [of "- xx"] by (simp add: chars Let_def)
  next
    case False
    then show ?thesis using d [of xx] by (auto simp: chars Let_def)
  qed
qed

corollary chars_fit:
  assumes "10 \<le> b"
  shows "\<exists>cs. chars xx b sg = Some cs \<and> length cs \<le> 11"
proof -
  have "- sint xx \<le> 2 ^ 31" using sint_ge [of xx] by simp
  then have "nat (- sint xx) < 4294967296" by simp
  then have u: "unat (of_nat (nat (- sint xx)) :: u32) = nat (- sint xx)" by (simp add: unat_of_nat)
  have "length (pos b (nat (- sint xx))) \<le> 10"
    using length_pos [OF assms, of "of_nat (nat (- sint xx))"] unfolding u .
  then show ?thesis using chars_pos [OF assms, of xx sg] length_pos [OF assms, of xx] by auto
qed

end

end
