(* ===== verification/Ring.thy ===== *)
theory Ring
  imports Prelude
begin

text \<open>
  A ring buffer with free-running 32-bit indices, the contract of the pipe of \<open>pipe.c\<close> and of the input
  buffer of \<open>console.c\<close>. The locale \<open>fifo\<close> says what a client relies on: a bounded queue. The locale
  \<open>ring_buffer\<close> says how the code does it: an array of \<open>N\<close> cells, a read and a write index that only ever
  grow and wrap at \<open>2 ^ 32\<close>, a cell found by the index modulo \<open>N\<close>. Because \<open>N\<close> divides \<open>2 ^ 32\<close> the second
  implements the first. Both buffers are interpreted on it, in \<open>Pipe\<close> and \<open>Console\<close>.
\<close>

section \<open>The contract of a bounded queue\<close>

locale fifo =
  fixes contents :: "'q \<Rightarrow> 'a list"
    and good :: "'q \<Rightarrow> bool"
    and cap :: nat
    and put :: "'a \<Rightarrow> 'q \<Rightarrow> 'q"
    and get :: "'q \<Rightarrow> 'a \<times> 'q"
  assumes bound: "good q \<Longrightarrow> length (contents q) \<le> cap"
    and put: "good q \<Longrightarrow> length (contents q) < cap \<Longrightarrow> contents (put c q) = contents q @ [c] \<and> good (put c q)"
    and get: "good q \<Longrightarrow> contents q \<noteq> [] \<Longrightarrow>
      fst (get q) = hd (contents q) \<and> contents (snd (get q)) = tl (contents q) \<and> good (snd (get q))"
begin

fun take_out :: "nat \<Rightarrow> 'q \<Rightarrow> 'a list \<times> 'q" where
  "take_out 0 q = ([], q)"
| "take_out (Suc n) q = (if contents q = [] then ([], q)
     else case get q of (c, q') \<Rightarrow> case take_out n q' of (cs, q'') \<Rightarrow> (c # cs, q''))"

lemma fold_put:
  "good q \<Longrightarrow> length (contents q) + length cs \<le> cap \<Longrightarrow>
   contents (fold put cs q) = contents q @ cs \<and> good (fold put cs q)"
proof (induction cs arbitrary: q)
  case (Cons c cs)
  then show ?case using put [of q c] by simp
qed simp

lemma take_out:
  "good q \<Longrightarrow> fst (take_out n q) = take n (contents q) \<and> contents (snd (take_out n q)) = drop n (contents q) \<and>
   good (snd (take_out n q))"
proof (induction n arbitrary: q)
  case (Suc n)
  show ?case
  proof (cases "contents q")
    case (Cons c cs)
    obtain d q' where g: "get q = (d, q')" by (cases "get q")
    then have "d = c" "contents q' = cs" "good q'" using get [OF Suc.prems] Cons by simp_all
    then show ?thesis using Suc.IH [of q'] g Cons by (auto split: prod.splits)
  qed (use Suc.prems in simp)
qed simp

end

section \<open>Free-running indices\<close>

lemma unat_mod_ring:
  fixes k :: u32
  assumes "N dvd 2 ^ 32" "0 < N" "N < 2 ^ 32"
  shows "unat ((k + of_nat i) mod of_nat N) = (unat k + i) mod N"
proof -
  have n: "unat (of_nat N :: u32) = N" using assms(3) by (simp add: unat_of_nat)
  have "unat (k + of_nat i) = (unat k + i) mod 2 ^ 32" by (simp add: unat_word_ariths unat_of_nat mod_add_right_eq)
  then show ?thesis using assms(1) by (simp add: unat_mod_nat n mod_mod_cancel)
qed

locale ring_buffer =
  fixes data :: "'q \<Rightarrow> u8 list"
    and rd :: "'q \<Rightarrow> u32"
    and wr :: "'q \<Rightarrow> u32"
    and put :: "u8 \<Rightarrow> 'q \<Rightarrow> 'q"
    and get :: "'q \<Rightarrow> u8 \<times> 'q"
    and N :: nat
  assumes N: "N dvd 2 ^ 32" "0 < N" "N < 2 ^ 32"
    and put_fields: "data (put c q) = (data q)[unat (wr q mod of_nat N) := c]" "rd (put c q) = rd q" "wr (put c q) = wr q + 1"
    and get_value: "fst (get q) = data q ! unat (rd q mod of_nat N)"
    and get_fields: "data (snd (get q)) = data q" "rd (snd (get q)) = rd q + 1" "wr (snd (get q)) = wr q"
begin

definition used :: "'q \<Rightarrow> nat" where
  "used q = unat (wr q - rd q)"

definition contents :: "'q \<Rightarrow> u8 list" where
  "contents q = map (\<lambda>i. data q ! ((unat (rd q) + i) mod N)) [0..<used q]"

definition good :: "'q \<Rightarrow> bool" where
  "good q \<longleftrightarrow> length (data q) = N \<and> used q \<le> N"

lemma length_contents [simp]: "length (contents q) = used q"
  by (simp add: contents_def)

lemma wr_used: "wr q = rd q + of_nat (used q)"
  by (simp add: used_def)

lemma used_Suc: "used q < N \<Longrightarrow> unat (wr q + 1 - rd q) = used q + 1"
proof -
  assume a: "used q < N"
  have "wr q + 1 - rd q = (wr q - rd q) + 1" by simp
  moreover have "unat (wr q - rd q) + 1 < 2 ^ 32" using a N(3) by (simp add: used_def)
  ultimately show ?thesis using unat_add_u32 [of "wr q - rd q" 1] by (simp only: used_def unat_1) simp
qed

lemma full_iff: "good q \<Longrightarrow> wr q = rd q + of_nat N \<longleftrightarrow> used q = N"
proof -
  have "unat (of_nat N :: u32) = N" using N(3) by (simp add: unat_of_nat)
  then show ?thesis unfolding used_def by (metis add_diff_cancel_left' of_nat_unat diff_add_cancel add.commute ucast_id)
qed

lemma empty_iff: "rd q = wr q \<longleftrightarrow> contents q = []"
  by (auto simp: contents_def used_def unat_eq_0)

lemma get_hd:
  assumes "contents q \<noteq> []"
  shows "fst (get q) = hd (contents q)" "contents (snd (get q)) = tl (contents q)" "used (snd (get q)) = used q - 1"
proof -
  have u: "0 < used q" using assms by (simp add: contents_def)
  have r: "unat (rd q mod of_nat N) = unat (rd q) mod N" using unat_mod_ring [OF N, of "rd q" 0] by simp
  show "fst (get q) = hd (contents q)" using u by (simp add: get_value contents_def r hd_map)
  have "wr q - (rd q + 1) = (wr q - rd q) - 1" by simp
  moreover have "unat (wr q - rd q - 1) = unat (wr q - rd q) - 1" using u unfolding used_def by (simp add: unat_minus_one unat_gt_0)
  ultimately show v: "used (snd (get q)) = used q - 1" by (simp only: used_def get_fields)
  have p: "(unat (rd q + 1) + i) mod N = (unat (rd q) + Suc i) mod N" for i
  proof -
    have "(unat (rd q + 1) + i) mod N = (unat (rd q + 1) mod N + i) mod N" by (simp add: mod_add_left_eq)
    also have "unat (rd q + 1) mod N = (unat (rd q) + 1) mod N" using unat_mod_ring [OF N, of "rd q" 1] unat_mod_ring [OF N, of "rd q + 1" 0] by simp
    finally show ?thesis by (simp add: mod_add_left_eq)
  qed
  show "contents (snd (get q)) = tl (contents q)"
  proof (rule nth_equalityI)
    fix i assume "i < length (contents (snd (get q)))"
    then have "Suc i < used q" "i < used q - 1" using v by simp_all
    then show "contents (snd (get q)) ! i = tl (contents q) ! i" by (simp add: contents_def v get_fields nth_tl p)
  qed (simp add: v)
qed

lemma put_snoc:
  assumes "good q" "used q < N"
  shows "contents (put c q) = contents q @ [c]" "used (put c q) = used q + 1"
proof -
  show v: "used (put c q) = used q + 1" using used_Suc [OF assms(2)] by (simp add: used_def put_fields)
  have w: "unat (wr q mod of_nat N) = (unat (rd q) + used q) mod N"
    using unat_mod_ring [OF N, of "rd q" "used q"] wr_used [of q] by simp
  have d: "length (data q) = N" using assms(1) by (simp add: good_def)
  show "contents (put c q) = contents q @ [c]"
  proof (rule nth_equalityI)
    fix i assume "i < length (contents (put c q))"
    then have i: "i \<le> used q" using v by simp
    have ne: "(unat (rd q) + i) mod N \<noteq> (unat (rd q) + used q) mod N" if "i < used q"
    proof
      assume "(unat (rd q) + i) mod N = (unat (rd q) + used q) mod N"
      then have "N dvd (unat (rd q) + used q) - (unat (rd q) + i)" using that by (metis mod_eq_dvd_iff_nat add_le_cancel_left less_imp_le)
      then have "N dvd used q - i" by simp
      then show False using that assms(2) by (auto dest: dvd_imp_le)
    qed
    show "contents (put c q) ! i = (contents q @ [c]) ! i"
      using i v ne d N(2) by (cases "i = used q") (simp_all add: contents_def put_fields w nth_append)
  qed (simp add: v)
qed

lemma unput:
  assumes "contents q \<noteq> []" "data q' = data q" "rd q' = rd q" "wr q' = wr q - 1"
  shows "contents q' = butlast (contents q)" "used q' = used q - 1"
    "last (contents q) = data q ! unat ((wr q - 1) mod of_nat N)"
proof -
  have u: "0 < used q" using assms(1) by (simp add: contents_def)
  have w: "wr q - 1 - rd q = wr q - rd q - 1" by simp
  have m: "unat (wr q - rd q - 1) = unat (wr q - rd q) - 1" using u unfolding used_def by (simp add: unat_minus_one unat_gt_0)
  show v: "used q' = used q - 1" unfolding used_def assms(3,4) w m ..
  show "contents q' = butlast (contents q)"
  proof (rule nth_equalityI)
    fix i assume "i < length (contents q')"
    then have "i < used q - 1" "i < used q" using v by simp_all
    then show "contents q' ! i = butlast (contents q) ! i" by (simp add: v nth_butlast contents_def assms(2,3))
  qed (simp add: v)
  have w1: "wr q - 1 = rd q + of_nat (used q - 1)" 
    using u of_nat_diff [of 1 "used q", where 'a = "32 word"] by (simp add: wr_used [of q] del: of_nat_diff)
  have "unat ((wr q - 1) mod of_nat N) = (unat (rd q) + (used q - 1)) mod N"
    unfolding w1 by (rule unat_mod_ring [OF N])
  then show "last (contents q) = data q ! unat ((wr q - 1) mod of_nat N)"
    using u assms(1) by (simp add: last_conv_nth contents_def del: add_diff_assoc)
qed

end

sublocale ring_buffer \<subseteq> fifo contents good N put get
proof
  show "good q \<Longrightarrow> length (contents q) \<le> N" for q by (simp add: good_def)
  show "good q \<Longrightarrow> length (contents q) < N \<Longrightarrow> contents (put c q) = contents q @ [c] \<and> good (put c q)" for q c
    using put_snoc [of q c] by (simp add: good_def put_fields)
  show "good q \<Longrightarrow> contents q \<noteq> [] \<Longrightarrow>
      fst (get q) = hd (contents q) \<and> contents (snd (get q)) = tl (contents q) \<and> good (snd (get q))" for q
    using get_hd [of q] by (auto simp: good_def get_fields)
qed

end
