(* ===== verification/Console.thy ===== *)
theory Console
  imports Fs Kbd Numerals Ring
begin

text \<open>
  \<open>console.c\<close>, the serial port of \<open>uart.c\<close> and the keyboard of \<open>kbd.c\<close>: formatted output, the screen,
  the line-edited input buffer and the device functions behind the console inode.
\<close>

section \<open>State\<close>

text \<open>
  \<open>crt\<close>: the cells of the screen memory; \<open>crt_pos\<close>: the cursor register of the display controller;
  \<open>serial\<close>: the bytes sent to the serial port; \<open>in_buf\<close>, \<open>in_r\<close>, \<open>in_w\<close>, \<open>in_e\<close>: the struct \<open>input\<close>;
  \<open>kbd_data\<close>, \<open>com_data\<close>: the bytes the two devices have ready, \<open>kbd_shift\<close>: the static of \<open>kbdgetc\<close>.
\<close>

record cstate = istate +
  panicked :: bool
  cons_locking :: bool
  crt :: "nat \<Rightarrow> u16"
  crt_pos :: u16
  uart :: bool
  serial :: "u8 list"
  in_buf :: "u8 list"
  in_r :: u32
  in_w :: u32
  in_e :: u32
  kbd_data :: "u8 list"
  com_data :: "u8 list"
  kbd_shift :: u32

abbreviation (input) BACKSPACE :: int where "BACKSPACE \<equiv> 0x100"
abbreviation (input) INPUT_BUF :: nat where "INPUT_BUF \<equiv> 128"
abbreviation (input) CONSOLE :: nat where "CONSOLE \<equiv> 1"

section \<open>Output\<close>

definition uartputc :: "int \<Rightarrow> ('z cstate_scheme, unit) km" where
  "uartputc c = bindK (getK uart) (\<lambda>u. whenK u (modK (\<lambda>s. s\<lparr>serial := serial s @ [word_of_int c]\<rparr>)))"

text \<open>Scrolling: rows 1 to 23 move up, then the cells from the new position to the end of row 23 are cleared.\<close>

definition scroll :: "nat \<Rightarrow> (nat \<Rightarrow> u16) \<Rightarrow> nat \<Rightarrow> u16" where
  "scroll pos f i = (if pos \<le> i \<and> i < 24 * 80 then 0 else if i < 23 * 80 then f (i + 80) else f i)"

definition cgaputc :: "int \<Rightarrow> ('z cstate_scheme, unit) km" where
  "cgaputc c = bindK (getK (\<lambda>s. unat (crt_pos s))) (\<lambda>pos.
     bindK (if c = 10 then retK (pos + (80 - pos mod 80))
            else if c = BACKSPACE then retK (if pos > 0 then pos - 1 else pos)
            else thenK (modK (\<lambda>s. s\<lparr>crt := (crt s)(pos := (word_of_int c AND 0xff) OR 0x0700)\<rparr>)) (retK (pos + 1)))
      (\<lambda>pos.
     thenK (assertK (\<not> pos > 25 * 80) ''pos under/overflow'')
     (bindK (if pos div 80 \<ge> 24 then
               (let pos = pos - 80 in thenK (modK (\<lambda>s. s\<lparr>crt := scroll pos (crt s)\<rparr>)) (retK pos))
             else retK pos)
       (\<lambda>pos. modK (\<lambda>s. s\<lparr>crt_pos := of_nat pos, crt := (crt s)(pos := 0x0720)\<rparr>)))))"

definition consputc :: "int \<Rightarrow> ('z cstate_scheme, unit) km" where
  "consputc c = bindK (getK panicked) (\<lambda>p. if p then (\<lambda>s. Spin s) else
     thenK (if c = BACKSPACE then thenK (uartputc 8) (thenK (uartputc 32) (uartputc 8)) else uartputc c)
     (cgaputc c))"

fun consputs :: "u8 list \<Rightarrow> ('z cstate_scheme, unit) km" where
  "consputs [] = retK ()"
| "consputs (c # cs) = thenK (consputc (sint c)) (consputs cs)"

text \<open>
  The digit loop of \<open>printint\<close>, lowest digit first, with the room left in \<open>buf\<close>: \<open>None\<close> is a store
  past the end of \<open>buf\<close>.
\<close>

definition digit :: "u32 \<Rightarrow> u8" where
  "digit d = (if d < 10 then 0x30 + ucast d else 0x61 + ucast (d - 10))"

fun print_digits :: "nat \<Rightarrow> u32 \<Rightarrow> u32 \<Rightarrow> u8 list option" where
  "print_digits 0 x base = None"
| "print_digits (Suc room) x base =
     (if x div base = 0 then Some [digit (x mod base)]
      else map_option (\<lambda>ds. digit (x mod base) # ds) (print_digits room (x div base) base))"

definition int_chars :: "u32 \<Rightarrow> u32 \<Rightarrow> bool \<Rightarrow> u8 list option" where
  "int_chars xx base sign = (let neg = (sign \<and> sint xx < 0); x = (if neg then - xx else xx) in
     case print_digits 16 x base of None \<Rightarrow> None
     | Some ds \<Rightarrow> if neg then (if length ds < 16 then Some (0x2D # rev ds) else None) else Some (rev ds))"

interpretation kprint: int_printer digit print_digits int_chars
  by unfold_locales (simp_all add: int_chars_def)

definition printint :: "u32 \<Rightarrow> u32 \<Rightarrow> bool \<Rightarrow> ('z cstate_scheme, unit) km" where
  "printint xx base sign = (case int_chars xx base sign of
     None \<Rightarrow> panicK ''printint: buf overflow'' | Some cs \<Rightarrow> consputs cs)"

text \<open>
  An argument of \<open>cprintf\<close>: a number or a string. A format that asks for an argument that is not
  there, or for one of the other kind, reads the stack; the model stops there.
\<close>

datatype carg = CInt u32 | CStr "u8 list"

fun cprintf_loop :: "u8 list \<Rightarrow> carg list \<Rightarrow> ('z cstate_scheme, unit) km" where
  "cprintf_loop [] args = retK ()"
| "cprintf_loop (c # fmt) args =
     (if c \<noteq> 0x25 then thenK (consputc (uint c)) (cprintf_loop fmt args)
      else case fmt of [] \<Rightarrow> retK ()
      | k # fmt' \<Rightarrow>
        (if k = 0x64 then (case args of CInt w # args' \<Rightarrow> thenK (printint w 10 True) (cprintf_loop fmt' args')
                           | _ \<Rightarrow> panicK ''cprintf: bad argument'')
         else if k = 0x78 \<or> k = 0x70 then (case args of CInt w # args' \<Rightarrow> thenK (printint w 16 False) (cprintf_loop fmt' args')
                           | _ \<Rightarrow> panicK ''cprintf: bad argument'')
         else if k = 0x73 then (case args of CStr cs # args' \<Rightarrow> thenK (consputs cs) (cprintf_loop fmt' args')
                           | CInt w # args' \<Rightarrow> (if w = 0 then thenK (consputs (map of_char ''(null)'')) (cprintf_loop fmt' args')
                                else panicK ''cprintf: bad argument'')
                           | [] \<Rightarrow> panicK ''cprintf: bad argument'')
         else if k = 0x25 then thenK (consputc 0x25) (cprintf_loop fmt' args)
         else thenK (consputc 0x25) (thenK (consputc (uint k)) (cprintf_loop fmt' args))))"

definition cprintf :: "u8 list option \<Rightarrow> carg list \<Rightarrow> ('z cstate_scheme, unit) km" where
  "cprintf fmt args = bindK (getK cons_locking) (\<lambda>locking.
     thenK (whenK locking (lk_acquire LkCons))
     (case fmt of None \<Rightarrow> panicK ''null fmt''
      | Some fmt \<Rightarrow> thenK (cprintf_loop fmt args) (whenK locking (lk_release LkCons))))"

section \<open>Input\<close>

abbreviation (input) in_cell :: "u32 \<Rightarrow> nat" where
  "in_cell k \<equiv> unat (k mod of_nat INPUT_BUF)"

text \<open>Control-U: the loop runs while there is a character of the unfinished line before the edit index.\<close>

fun kill_line :: "nat \<Rightarrow> ('z cstate_scheme, unit) km" where
  "kill_line 0 = (\<lambda>s. Spin s)"
| "kill_line (Suc fuel) = bindK (getK id) (\<lambda>s.
     whenK (in_e s \<noteq> in_w s \<and> in_buf s ! in_cell (in_e s - 1) \<noteq> 10)
       (thenK (modK (\<lambda>s. s\<lparr>in_e := in_e s - 1\<rparr>))
       (thenK (consputc BACKSPACE) (kill_line fuel))))"

definition in_put :: "u8 \<Rightarrow> 'z cstate_scheme \<Rightarrow> 'z cstate_scheme" where
  "in_put c s = s\<lparr>in_buf := (in_buf s)[in_cell (in_e s) := c], in_e := in_e s + 1\<rparr>"

definition console_char :: "int \<Rightarrow> ('z cstate_scheme, unit) km" where
  "console_char c =
     (if c = 0x10 then retK ()
      else if c = 0x15 then kill_line (Suc (INPUT_BUF + 1))
      else if c = 0x08 \<or> c = 0x7F then bindK (getK id) (\<lambda>s.
        whenK (in_e s \<noteq> in_w s)
          (thenK (modK (\<lambda>s. s\<lparr>in_e := in_e s - 1\<rparr>)) (consputc BACKSPACE)))
      else bindK (getK id) (\<lambda>s. whenK (c \<noteq> 0 \<and> in_e s - in_r s < of_nat INPUT_BUF)
        (let c = (if c = 13 then 10 else c) in
         thenK (modK (in_put (word_of_int c)))
        (thenK (consputc c)
        (bindK (getK id) (\<lambda>s. whenK (c = 10 \<or> c = 4 \<or> in_e s = in_r s + of_nat INPUT_BUF)
          (thenK (modK (\<lambda>s. s\<lparr>in_w := in_e s\<rparr>)) (wakeup ChInput))))))))"

text \<open>
  \<open>consoleintr\<close> takes characters until \<open>getc\<close> returns a negative value. The process listing of
  Control-P only prints and is left out.
\<close>

fun console_drain :: "nat \<Rightarrow> ('z cstate_scheme, int) km \<Rightarrow> ('z cstate_scheme, unit) km" where
  "console_drain 0 getc = (\<lambda>s. Spin s)"
| "console_drain (Suc fuel) getc = bindK getc (\<lambda>c.
     if c \<ge> 0 then thenK (console_char c) (console_drain fuel getc) else retK ())"

definition consoleintr :: "nat \<Rightarrow> ('z cstate_scheme, int) km \<Rightarrow> ('z cstate_scheme, unit) km" where
  "consoleintr fuel getc = thenK (lk_acquire LkCons) (thenK (console_drain fuel getc) (lk_release LkCons))"

definition kbdgetc :: "('z cstate_scheme, int) km" where
  "kbdgetc = bindK (getK id) (\<lambda>s. case kbd_data s of
     [] \<Rightarrow> retK (-1)
   | d # ds \<Rightarrow> (case kbd_code (kbd_shift s) d of (sh, c) \<Rightarrow>
       thenK (modK (\<lambda>s. s\<lparr>kbd_data := ds, kbd_shift := sh\<rparr>)) (retK (sint c))))"

definition kbdintr :: "('z cstate_scheme, unit) km" where
  "kbdintr = bindK (getK kbd_data) (\<lambda>ds. consoleintr (Suc (length ds)) kbdgetc)"

definition uartgetc :: "('z cstate_scheme, int) km" where
  "uartgetc = bindK (getK id) (\<lambda>s. if \<not> uart s then retK (-1) else case com_data s of
     [] \<Rightarrow> retK (-1)
   | d # ds \<Rightarrow> thenK (modK (\<lambda>s. s\<lparr>com_data := ds\<rparr>)) (retK (uint d)))"

definition uartintr :: "('z cstate_scheme, unit) km" where
  "uartintr = bindK (getK com_data) (\<lambda>ds. consoleintr (Suc (length ds)) uartgetc)"

definition in_get :: "'z cstate_scheme \<Rightarrow> u8 \<times> 'z cstate_scheme" where
  "in_get s = (in_buf s ! in_cell (in_r s), s\<lparr>in_r := in_r s + 1\<rparr>)"

text \<open>
  The loop of \<open>consoleread\<close>: whether it ended without the process being killed, and the bytes stored.
\<close>

fun consoleread_loop :: "nat \<Rightarrow> nat \<Rightarrow> ('z cstate_scheme, bool \<times> u8 list) km" where
  "consoleread_loop 0 target = retK (True, [])"
| "consoleread_loop (Suc n) target = bindK (getK id) (\<lambda>s.
     if in_r s = in_w s then
       bindK curproc (\<lambda>p. if killed (ptable s ! p) then retK (False, [])
         else thenK (sleep ChInput LkCons) (retK (False, [])))
     else case in_get s of (c, s') \<Rightarrow> thenK (modK (\<lambda>_. s'))
       (if c = 4 then thenK (whenK (Suc n < target) (modK (\<lambda>s. s\<lparr>in_r := in_r s - 1\<rparr>))) (retK (True, []))
        else if c = 10 then retK (True, [c])
        else bindK (consoleread_loop n target) (\<lambda>(ok, cs). retK (ok, c # cs))))"

definition consoleread :: "nat \<Rightarrow> u32 \<Rightarrow> ('z cstate_scheme, int \<times> u8 list) km" where
  "consoleread ip n = thenK (iunlock (Some ip)) (thenK (lk_acquire LkCons)
     (bindK (consoleread_loop (nat (sint n)) (nat (sint n))) (\<lambda>(ok, cs).
      thenK (lk_release LkCons)
     (thenK (ilock (Some ip))
      (retK (if ok then int (length cs) else -1, cs))))))"

fun consolewrite_loop :: "u8 list \<Rightarrow> ('z cstate_scheme, unit) km" where
  "consolewrite_loop [] = retK ()"
| "consolewrite_loop (c # cs) = thenK (consputc (uint c)) (consolewrite_loop cs)"

definition consolewrite :: "nat \<Rightarrow> u8 list \<Rightarrow> ('z cstate_scheme, int) km" where
  "consolewrite ip buf = thenK (iunlock (Some ip)) (thenK (lk_acquire LkCons)
     (thenK (consolewrite_loop buf)
     (thenK (lk_release LkCons)
     (thenK (ilock (Some ip))
      (retK (int (length buf)))))))"

text \<open>The device table after \<open>consoleinit\<close> has set the console's entries.\<close>

definition devsw_table :: "'z cstate_scheme devsw list" where
  "devsw_table = (replicate NDEV \<lparr>dread = None, dwrite = None\<rparr>)
     [CONSOLE := \<lparr>dread = Some consoleread, dwrite = Some consolewrite\<rparr>]"

definition consoleinit :: "('z cstate_scheme, unit) km" where
  "consoleinit = modK (\<lambda>s. s\<lparr>held := held s - {LkCons}, cons_locking := True\<rparr>)"

section \<open>A console at rest\<close>

definition demo_con :: cstate where
  "demo_con = istate.extend demo_fs (cstate.fields False True (\<lambda>_. 0x0720) 0 True [] (replicate INPUT_BUF 0) 0 0 0 [] [] 0)"

section \<open>Output never leaves the screen\<close>

text \<open>
  The cursor of a console at work is in the first 24 rows. \<open>con_out s out t\<close>: from \<open>s\<close> to \<open>t\<close> the bytes
  \<open>out\<close> went to the serial port, if there is one; the cursor is in the first 24 rows and no cell past them
  was written; nothing but the screen and the serial port changed.
\<close>

abbreviation (input) SCREEN :: nat where "SCREEN \<equiv> 24 * 80"

definition con_out :: "'z cstate_scheme \<Rightarrow> u8 list \<Rightarrow> 'z cstate_scheme \<Rightarrow> bool" where
  "con_out s out t \<longleftrightarrow> t = s\<lparr>crt := crt t, crt_pos := crt_pos t, serial := serial s @ (if uart s then out else [])\<rparr> \<and>
     unat (crt_pos t) < SCREEN \<and> (\<forall>i \<ge> SCREEN. crt t i = crt s i)"

lemma con_out_fields:
  assumes "con_out s out t"
  shows "held t = held s" "panicked t = panicked s" "uart t = uart s" "cons_locking t = cons_locking s"
    "ptable t = ptable s" "in_buf t = in_buf s" "in_r t = in_r s" "in_w t = in_w s" "in_e t = in_e s"
    "unat (crt_pos t) < SCREEN" "serial t = serial s @ (if uart s then out else [])" "cur t = cur s"
    "kbd_data t = kbd_data s" "kbd_shift t = kbd_shift s" "com_data t = com_data s"
proof -
  have e: "t = s\<lparr>crt := crt t, crt_pos := crt_pos t, serial := serial s @ (if uart s then out else [])\<rparr>"
    using assms by (simp add: con_out_def)
  show "held t = held s" "panicked t = panicked s" "uart t = uart s" "cons_locking t = cons_locking s"
    "ptable t = ptable s" "in_buf t = in_buf s" "in_r t = in_r s" "in_w t = in_w s" "in_e t = in_e s"
    "serial t = serial s @ (if uart s then out else [])" "cur t = cur s"
    "kbd_data t = kbd_data s" "kbd_shift t = kbd_shift s" "com_data t = com_data s"
    by (subst e, simp)+
  show "unat (crt_pos t) < SCREEN" using assms by (simp add: con_out_def)
qed

lemma con_out_refl: "unat (crt_pos s) < SCREEN \<Longrightarrow> con_out s [] s"
  by (simp add: con_out_def)

lemma con_out_trans:
  assumes "con_out s a t" "con_out t b u"
  shows "con_out s (a @ b) u"
proof -
  have e: "t = s\<lparr>crt := crt t, crt_pos := crt_pos t, serial := serial s @ (if uart s then a else [])\<rparr>"
    using assms(1) by (simp add: con_out_def)
  have f: "u = t\<lparr>crt := crt u, crt_pos := crt_pos u, serial := serial t @ (if uart t then b else [])\<rparr>"
    using assms(2) by (simp add: con_out_def)
  have "u = s\<lparr>crt := crt u, crt_pos := crt_pos u, serial := serial s @ (if uart s then a @ b else [])\<rparr>"
    by (subst f, subst (1 2 3) e) simp
  then show ?thesis using assms by (simp add: con_out_def)
qed

lemma uartputc_eval:
  "uartputc c s = Ret () (s\<lparr>serial := serial s @ (if uart s then [word_of_int c] else [])\<rparr>)"
  by (simp add: uartputc_def km_simps)

lemma cgaputc_eval:
  fixes s :: "'z cstate_scheme"
  assumes "unat (crt_pos s) < SCREEN"
  shows "\<exists>f p. cgaputc c s = Ret () (s\<lparr>crt := f, crt_pos := p\<rparr>) \<and> unat p < SCREEN \<and> (\<forall>i \<ge> SCREEN. f i = crt s i)"
proof -
  let ?p = "unat (crt_pos s)"
  define q where "q = (if c = 10 then ?p + (80 - ?p mod 80) else if c = BACKSPACE then (if ?p > 0 then ?p - 1 else ?p) else ?p + 1)"
  define f where "f = (if c = 10 \<or> c = BACKSPACE then crt s else (crt s)(?p := (word_of_int c AND 0xff) OR 0x0700))"
  define r where "r = (if q div 80 \<ge> 24 then q - 80 else q)"
  define g where "g = (if q div 80 \<ge> 24 then scroll (q - 80) f else f)"
  have q: "q \<le> SCREEN"
  proof (cases "c = 10")
    case True
    have "?p = ?p div 80 * 80 + ?p mod 80" by simp
    moreover have "?p div 80 < 24" using assms by (simp add: div_less_iff_less_mult)
    moreover have "?p mod 80 < 80" by simp
    ultimately have "?p + (80 - ?p mod 80) \<le> SCREEN" by arith
    then show ?thesis using True by (simp only: q_def if_True refl)
  qed (use assms in \<open>auto simp: q_def\<close>)
  then have r: "r < SCREEN" by (auto simp: r_def div_le_mono less_eq_div_iff_mult_less_eq)
  have f: "\<forall>i \<ge> SCREEN. f i = crt s i" using assms by (simp add: f_def)
  have g: "\<forall>i \<ge> SCREEN. g i = crt s i" using f by (simp add: g_def scroll_def)
  define m1 :: "('z cstate_scheme, nat) km" where "m1 = (if c = 10 then retK (?p + (80 - ?p mod 80))
            else if c = BACKSPACE then retK (if ?p > 0 then ?p - 1 else ?p)
            else thenK (modK (\<lambda>s. s\<lparr>crt := (crt s)(?p := (word_of_int c AND 0xff) OR 0x0700)\<rparr>)) (retK (?p + 1)))"
  define m2 :: "nat \<Rightarrow> ('z cstate_scheme, nat) km" where "m2 = (\<lambda>pos. if pos div 80 \<ge> 24 then
      (let pos = pos - 80 in thenK (modK (\<lambda>s. s\<lparr>crt := scroll pos (crt s)\<rparr>)) (retK pos)) else retK pos)"
  have e1: "m1 s = Ret q (s\<lparr>crt := f\<rparr>)"
    unfolding m1_def q_def f_def
    by (cases "c = 10"; cases "c = BACKSPACE") (simp_all only: if_True if_False simp_thms retK_def thenK_def bindK_def modK_def res.case, simp_all)
  have e2: "m2 q (s\<lparr>crt := f\<rparr>) = Ret r (s\<lparr>crt := g\<rparr>)"
    unfolding m2_def r_def g_def by (cases "q div 80 \<ge> 24") (simp_all add: km_simps Let_def)
  have "cgaputc c s = bindK m1 (\<lambda>pos. thenK (assertK (\<not> pos > 25 * 80) ''pos under/overflow'')
     (bindK (m2 pos) (\<lambda>pos. modK (\<lambda>s. s\<lparr>crt_pos := of_nat pos, crt := (crt s)(pos := 0x0720)\<rparr>)))) s"
    unfolding cgaputc_def bindK_cases(1) [OF getK_def] m1_def m2_def ..
  also have "\<dots> = Ret () (s\<lparr>crt := g(r := 0x0720), crt_pos := of_nat r\<rparr>)"
    unfolding bindK_cases(1) [of m1, OF e1] using q e2
    by (simp add: thenK_def bindK_def assertK_def modK_def)
  finally have "cgaputc c s = Ret () (s\<lparr>crt := g(r := 0x0720), crt_pos := of_nat r\<rparr>)" .
  moreover have "unat (of_nat r :: u16) = r" using r by (simp add: unat_of_nat)
  ultimately show ?thesis using r g by (intro exI [of _ "g(r := 0x0720)"] exI [of _ "of_nat r"]) simp
qed

text \<open>The bytes \<open>consputc\<close> sends for a character: a backspace is sent as back, blank, back.\<close>

definition echo :: "int \<Rightarrow> u8 list" where
  "echo c = (if c = BACKSPACE then [8, 32, 8] else [word_of_int c])"

lemma consputc_out:
  assumes "\<not> panicked s" "unat (crt_pos s) < SCREEN"
  shows "\<exists>t. consputc c s = Ret () t \<and> con_out s (echo c) t"
proof -
  let ?s = "s\<lparr>serial := serial s @ (if uart s then echo c else [])\<rparr>"
  obtain f p where g: "cgaputc c ?s = Ret () (?s\<lparr>crt := f, crt_pos := p\<rparr>)" "unat p < SCREEN" "\<forall>i \<ge> SCREEN. f i = crt ?s i"
    using cgaputc_eval [of ?s c] assms(2) by auto
  have "consputc c s = cgaputc c ?s"
    using assms(1) by (simp add: consputc_def km_simps uartputc_eval echo_def)
  moreover have "con_out s (echo c) (?s\<lparr>crt := f, crt_pos := p\<rparr>)" using g by (simp add: con_out_def)
  ultimately show ?thesis using g(1) by auto
qed

lemma consputs_out:
  "\<not> panicked s \<Longrightarrow> unat (crt_pos s) < SCREEN \<Longrightarrow> \<exists>t. consputs cs s = Ret () t \<and> con_out s cs t"
proof (induction cs arbitrary: s)
  case Nil
  then show ?case by (simp add: km_simps con_out_refl)
next
  case (Cons c cs)
  have b: "sint c \<noteq> BACKSPACE" using sint_lt [of c] by simp
  obtain t where t: "consputc (sint c) s = Ret () t" "con_out s [c] t"
    using consputc_out [OF Cons.prems, of "sint c"] b by (auto simp: echo_def)
  obtain u where "consputs cs t = Ret () u" "con_out t cs u"
    using Cons.IH [of t] con_out_fields [OF t(2)] Cons.prems by auto
  then show ?case using t con_out_trans [OF t(2)] by (fastforce simp: km_simps)
qed

section \<open>What a format prints\<close>

text \<open>
  The text of a format with its arguments; \<open>None\<close> when an argument is missing or of the wrong kind.
  Numbers are written out by \<open>positional\<close>, the highest digit first.
\<close>

definition number :: "u32 \<Rightarrow> bool \<Rightarrow> u32 \<Rightarrow> u8 list" where
  "number b sg w = (if sg \<and> sint w < 0 then 0x2D # positional (\<lambda>d. digit (of_nat d)) (unat b) (nat (- sint w))
     else positional (\<lambda>d. digit (of_nat d)) (unat b) (unat w))"

fun render :: "u8 list \<Rightarrow> carg list \<Rightarrow> u8 list option" where
  "render [] args = Some []"
| "render [c] args = Some (if c = 0x25 then [] else [c])"
| "render (c # k # fmt) args =
     (if c \<noteq> 0x25 then map_option ((@) [c]) (render (k # fmt) args)
      else if k = 0x64 then (case args of CInt w # as \<Rightarrow> map_option ((@) (number 10 True w)) (render fmt as) | _ \<Rightarrow> None)
      else if k = 0x78 \<or> k = 0x70 then (case args of CInt w # as \<Rightarrow> map_option ((@) (number 16 False w)) (render fmt as) | _ \<Rightarrow> None)
      else if k = 0x73 then (case args of CStr cs # as \<Rightarrow> map_option ((@) cs) (render fmt as)
        | CInt w # as \<Rightarrow> if w = 0 then map_option ((@) (map of_char ''(null)'')) (render fmt as) else None
        | [] \<Rightarrow> None)
      else if k = 0x25 then map_option ((@) [0x25]) (render fmt args)
      else map_option ((@) [0x25, k]) (render fmt args))"

lemma printint_out:
  assumes "\<not> panicked s" "unat (crt_pos s) < SCREEN" "10 \<le> b"
  shows "\<exists>t. printint w b sg s = Ret () t \<and> con_out s (number b sg w) t"
  using consputs_out [OF assms(1,2), of "number b sg w"] kprint.chars_pos [OF assms(3), of w sg]
  by (simp add: printint_def number_def)

lemma consputc_byte_out:
  fixes c :: u8
  assumes "\<not> panicked s" "unat (crt_pos s) < SCREEN"
  shows "\<exists>t. consputc (uint c) s = Ret () t \<and> con_out s [c] t"
proof -
  have "uint c < 2 ^ LENGTH(8)" by (rule unsigned_less)
  then have "uint c \<noteq> BACKSPACE" by simp
  then show ?thesis using consputc_out [OF assms, of "uint c"] by (simp add: echo_def)
qed

text \<open>\<open>prints m out\<close>: from a good console \<open>m\<close> returns, having written \<open>out\<close>.\<close>

definition prints :: "('z cstate_scheme, unit) km \<Rightarrow> u8 list \<Rightarrow> bool" where
  "prints m out \<longleftrightarrow> (\<forall>s. \<not> panicked s \<longrightarrow> unat (crt_pos s) < SCREEN \<longrightarrow> (\<exists>t. m s = Ret () t \<and> con_out s out t))"

lemma prints_thenK:
  fixes m n :: "('z cstate_scheme, unit) km"
  shows "prints m a \<Longrightarrow> prints n b \<Longrightarrow> prints (thenK m n) (a @ b)"
  unfolding prints_def
proof (intro allI impI)
  fix s :: "'z cstate_scheme"
  assume m: "\<forall>s. \<not> panicked s \<longrightarrow> unat (crt_pos s) < SCREEN \<longrightarrow> (\<exists>t. m s = Ret () t \<and> con_out s a t)"
    and n: "\<forall>s. \<not> panicked s \<longrightarrow> unat (crt_pos s) < SCREEN \<longrightarrow> (\<exists>t. n s = Ret () t \<and> con_out s b t)"
    and s: "\<not> panicked s" "unat (crt_pos s) < SCREEN"
  obtain t where t: "m s = Ret () t" "con_out s a t" using m s by blast
  obtain u where "n t = Ret () u" "con_out t b u" using n con_out_fields(2,10) [OF t(2)] s by auto
  then show "\<exists>u. thenK m n s = Ret () u \<and> con_out s (a @ b) u" using t con_out_trans [OF t(2)] by (auto simp: km_simps)
qed

lemma prints_basic:
  "prints (retK ()) []" "prints (consputs cs) cs" "10 \<le> b \<Longrightarrow> prints (printint w b sg) (number b sg w)"
  "prints (consputc (uint c)) [c]" "prints (consputc 0x25) [0x25]"
  using consputs_out printint_out consputc_byte_out consputc_byte_out [where c = "0x25"]
  by (auto simp: prints_def km_simps con_out_refl)

lemma prints_int: "10 \<le> b \<Longrightarrow> prints n r \<Longrightarrow> prints (thenK (printint w b sg) n) (number b sg w @ r)"
  by (rule prints_thenK [OF prints_basic(3)])

lemma cprintf_pct:
  "cprintf_loop (0x25 # k # fmt) args =
     (if k = 0x64 then (case args of CInt w # as \<Rightarrow> thenK (printint w 10 True) (cprintf_loop fmt as) | _ \<Rightarrow> panicK ''cprintf: bad argument'')
      else if k = 0x78 \<or> k = 0x70 then (case args of CInt w # as \<Rightarrow> thenK (printint w 16 False) (cprintf_loop fmt as) | _ \<Rightarrow> panicK ''cprintf: bad argument'')
      else if k = 0x73 then (case args of CStr cs # as \<Rightarrow> thenK (consputs cs) (cprintf_loop fmt as)
        | CInt w # as \<Rightarrow> (if w = 0 then thenK (consputs (map of_char ''(null)'')) (cprintf_loop fmt as) else panicK ''cprintf: bad argument'')
        | [] \<Rightarrow> panicK ''cprintf: bad argument'')
      else if k = 0x25 then thenK (consputc 0x25) (cprintf_loop fmt args)
      else thenK (consputc 0x25) (thenK (consputc (uint k)) (cprintf_loop fmt args)))"
  by (subst cprintf_loop.simps(2)) (simp only: simp_thms if_True if_False list.case refl not_True_eq_False)

lemma cprintf_char: "c \<noteq> 0x25 \<Longrightarrow> cprintf_loop (c # fmt) args = thenK (consputc (uint c)) (cprintf_loop fmt args)"
  by (subst cprintf_loop.simps(2)) (simp only: if_True simp_thms)

lemma cprintf_last: "cprintf_loop [0x25] args = retK ()"
  by (subst cprintf_loop.simps(2)) simp

declare cprintf_loop.simps(2) [simp del]

lemma cprintf_loop_prints: "render fmt args = Some out \<Longrightarrow> prints (cprintf_loop fmt args :: ('z cstate_scheme, unit) km) out"
proof (induction fmt args arbitrary: out rule: render.induct)
  case (2 c args)
  then have out: "out = (if c = 0x25 then [] else [c])" by simp
  show ?case unfolding out using prints_thenK [OF prints_basic(4) [of c] prints_basic(1)] prints_basic(1)
    by (cases "c = 0x25") (simp_all add: cprintf_char cprintf_last)
next
  case (3 c k fmt args)
  note th = prints_thenK [OF prints_basic(2)] prints_thenK [OF prints_basic(3)] prints_thenK [OF prints_basic(4)]
    prints_thenK [OF prints_basic(5)] prints_thenK [OF prints_basic(5) prints_thenK [OF prints_basic(4)]]
  show ?case
  proof (cases "c = 0x25")
    case False
    then obtain r where r: "render (k # fmt) args = Some r" "out = [c] @ r" using "3.prems" by auto
    then show ?thesis using th(3) [OF "3.IH"(1) [OF False r(1)], of c] by (simp add: cprintf_char [OF False])
  next
    case c: True
    then have cc: "\<not> c \<noteq> 0x25" by simp
    consider "k = 0x64" | "k \<noteq> 0x64" "k = 0x78 \<or> k = 0x70" | "k = 0x73" | "k = 0x25"
      | "k \<noteq> 0x64" "\<not> (k = 0x78 \<or> k = 0x70)" "k \<noteq> 0x73" "k \<noteq> 0x25" by blast
    then show ?thesis
    proof cases
      case 1
      then obtain w as r where a: "args = CInt w # as" "render fmt as = Some r" "out = number 10 True w @ r"
        using "3.prems" c by (auto split: list.splits carg.splits)
      then show ?thesis using prints_int [OF _ "3.IH"(2) [OF cc 1 a(1) refl a(2)], of 10 w True] c 1 by (simp add: cprintf_pct)
    next
      case 2
      then obtain w as r where a: "args = CInt w # as" "render fmt as = Some r" "out = number 16 False w @ r"
        using "3.prems" c by (auto split: list.splits carg.splits)
      then show ?thesis using prints_int [OF _ "3.IH"(3) [OF cc 2 a(1) refl a(2)], of 16 w False] c 2 by (auto simp: cprintf_pct)
    next
      case 3
      show ?thesis
      proof (cases args)
        case (Cons a as)
        show ?thesis
        proof (cases a)
          case (CInt w)
          then obtain r where r: "w = 0" "render fmt as = Some r" "out = map of_char ''(null)'' @ r"
            using "3.prems" c 3 Cons by (auto split: if_splits)
          have "prints (cprintf_loop fmt as :: ('z cstate_scheme, unit) km) r" using "3.IH"(4) [OF cc _ _ 3 Cons CInt r(1,2)] 3 by simp
          from th(1) [OF this, of "map of_char ''(null)''"] show ?thesis using c 3 Cons CInt r by (simp add: cprintf_pct)
        next
          case (CStr cs)
          then obtain r where r: "render fmt as = Some r" "out = cs @ r"
            using "3.prems" c 3 Cons by auto
          have "prints (cprintf_loop fmt as :: ('z cstate_scheme, unit) km) r" using "3.IH"(5) [OF cc _ _ 3 Cons CStr r(1)] 3 by simp
          from th(1) [OF this, of cs] show ?thesis using c 3 Cons CStr r by (simp add: cprintf_pct)
        qed
      qed (use "3.prems" c 3 in simp)
    next
      case 4
      then obtain r where r: "render fmt args = Some r" "out = [0x25] @ r" using "3.prems" c by auto
      have "prints (cprintf_loop fmt args :: ('z cstate_scheme, unit) km) r" using "3.IH"(6) [OF cc _ _ _ 4 r(1)] 4 by simp
      from th(4) [OF this] show ?thesis using c 4 r by (simp add: cprintf_pct)
    next
      case 5
      then obtain r where r: "render fmt args = Some r" "out = [0x25, k] @ r" using "3.prems" c by auto
      have "prints (cprintf_loop fmt args :: ('z cstate_scheme, unit) km) r" using "3.IH"(7) [OF cc 5 r(1)] by simp
      from th(5) [OF this, of k] show ?thesis using c 5 r by (auto simp: cprintf_pct)
    qed
  qed
qed (simp add: prints_basic)

text \<open>
  C23. \<open>cprintf\<close> with arguments that fit its format always returns: it never panics, never runs over the
  buffer of \<open>printint\<close> and never writes outside the first 24 rows of the screen, and what it sends is the
  text of the format, numbers written out in full.
\<close>

theorem cprintf_prints:
  assumes r: "render fmt args = Some out" and s: "\<not> panicked s" "unat (crt_pos s) < SCREEN" "LkCons \<notin> held s"
  shows "\<exists>t. cprintf (Some fmt) args s = Ret () t \<and> con_out s out t"
proof (cases "cons_locking s")
  case True
  let ?s = "s\<lparr>held := insert LkCons (held s)\<rparr>"
  obtain t where t: "cprintf_loop fmt args ?s = Ret () t" "con_out ?s out t"
    using cprintf_loop_prints [OF r] s unfolding prints_def by (auto dest!: spec [of _ ?s])
  have e: "t = ?s\<lparr>crt := crt t, crt_pos := crt_pos t, serial := serial s @ (if uart s then out else [])\<rparr>"
    using t(2) by (simp add: con_out_def)
  let ?t = "t\<lparr>held := held s\<rparr>"
  have "cprintf (Some fmt) args s = Ret () ?t"
    using True s t con_out_fields(1) [OF t(2)] by (simp add: cprintf_def km_simps)
  moreover have "?t = s\<lparr>crt := crt t, crt_pos := crt_pos t, serial := serial s @ (if uart s then out else [])\<rparr>"
    by (subst e) simp
  then have "con_out s out ?t" using t(2) by (simp add: con_out_def)
  ultimately show ?thesis by blast
next
  case False
  obtain t where t: "cprintf_loop fmt args s = Ret () t" "con_out s out t"
    using cprintf_loop_prints [OF r] s unfolding prints_def by blast
  have "cprintf (Some fmt) args s = Ret () t" using False t(1) by (simp add: cprintf_def km_simps)
  then show ?thesis using t(2) by blast
qed

section \<open>Line editing\<close>

interpretation cring: ring_buffer in_buf in_r in_e in_put in_get INPUT_BUF
  by unfold_locales (simp_all add: in_put_def in_get_def dvd_eq_mod_eq_0)

text \<open>
  The input as a user sees it: the characters of finished lines that no process has read yet, and the
  line being edited.
\<close>

definition lines_in :: "'z cstate_scheme \<Rightarrow> u8 list" where
  "lines_in s = take (unat (in_w s - in_r s)) (cring.contents s)"

definition editing :: "'z cstate_scheme \<Rightarrow> u8 list" where
  "editing s = drop (unat (in_w s - in_r s)) (cring.contents s)"

definition in_ok :: "'z cstate_scheme \<Rightarrow> bool" where
  "in_ok s \<longleftrightarrow> cring.good s \<and> unat (in_w s - in_r s) \<le> cring.used s \<and> 10 \<notin> set (editing s)"

lemma in_cong:
  fixes s t :: "'z cstate_scheme"
  assumes "in_buf t = in_buf s" "in_r t = in_r s" "in_w t = in_w s" "in_e t = in_e s"
  shows "lines_in t = lines_in s" "editing t = editing s" "in_ok t = in_ok s" "cring.used t = cring.used s"
  using assms by (simp_all add: lines_in_def editing_def in_ok_def cring.contents_def cring.good_def cring.used_def)

lemma input_split: "lines_in s @ editing s = cring.contents s"
  by (simp add: lines_in_def editing_def)

lemma editing_nil: "in_ok s \<Longrightarrow> editing s = [] \<longleftrightarrow> in_e s = in_w s"
proof -
  assume "in_ok s"
  then have "editing s = [] \<longleftrightarrow> unat (in_e s - in_r s) = unat (in_w s - in_r s)"
    by (auto simp: editing_def in_ok_def cring.used_def)
  also have "\<dots> \<longleftrightarrow> in_e s = in_w s" by (simp add: word_unat_eq_iff [symmetric])
  finally show ?thesis .
qed

lemma unput_editing:
  fixes s t :: "'z cstate_scheme"
  assumes ok: "in_ok s" and ne: "editing s \<noteq> []"
    and t: "in_buf t = in_buf s" "in_r t = in_r s" "in_w t = in_w s" "in_e t = in_e s - 1"
  shows "lines_in t = lines_in s" "editing t = butlast (editing s)" "in_ok t"
    "in_buf s ! in_cell (in_e s - 1) = last (editing s)"
proof -
  let ?k = "unat (in_w s - in_r s)"
  have k: "?k < cring.used s" using ne by (simp add: editing_def)
  then have "0 < length (cring.contents s)" by simp
  then have c: "cring.contents s \<noteq> []" by (rule length_greater_0_conv [THEN iffD1])
  note u = cring.unput [OF c t(1,2,4)]
  show l: "lines_in t = lines_in s"
  proof -
    have "?k \<le> cring.used s - 1" using k by linarith
    then show ?thesis by (simp add: lines_in_def t u(1) butlast_conv_take min_absorb1)
  qed
  show e: "editing t = butlast (editing s)" by (simp add: editing_def t u(1) drop_butlast)
  show "in_ok t" using ok k u(2) e in_set_butlastD [of 10 "editing s"] by (auto simp: in_ok_def cring.good_def t)
  show "in_buf s ! in_cell (in_e s - 1) = last (editing s)" using u(3) k by (simp add: editing_def)
qed

text \<open>The edited line of an abstract console: finished lines and the line being typed.\<close>

definition edit :: "int \<Rightarrow> u8 list \<times> u8 list \<Rightarrow> u8 list \<times> u8 list" where
  "edit c = (\<lambda>(ls, ed).
     if c = 0x10 then (ls, ed)
     else if c = 0x15 then (ls, [])
     else if c = 0x08 \<or> c = 0x7F then (ls, butlast ed)
     else if c \<noteq> 0 \<and> length ls + length ed < INPUT_BUF then
       (let c = (if c = 13 then 10 else c); ed = ed @ [word_of_int c] in
        if c = 10 \<or> c = 4 \<or> length ls + length ed = INPUT_BUF then (ls @ ed, []) else (ls, ed))
     else (ls, ed))"

abbreviation (input) con_ok :: "'z cstate_scheme \<Rightarrow> bool" where
  "con_ok s \<equiv> in_ok s \<and> \<not> panicked s \<and> unat (crt_pos s) < SCREEN \<and> LkPtable \<notin> held s"

text \<open>What typing a character leaves alone: the devices and the locks.\<close>

definition con_keep :: "'z cstate_scheme \<Rightarrow> 'z cstate_scheme \<Rightarrow> bool" where
  "con_keep s t \<longleftrightarrow> kbd_data t = kbd_data s \<and> kbd_shift t = kbd_shift s \<and> com_data t = com_data s \<and> uart t = uart s \<and>
     held t = held s"

lemma con_keep_trans: "con_keep s t \<Longrightarrow> con_keep t u \<Longrightarrow> con_keep s u"
  by (simp add: con_keep_def)

lemma out_in:
  assumes "con_out s out t"
  shows "lines_in t = lines_in s" "editing t = editing s" "in_ok t = in_ok s"
  using con_out_fields [OF assms] in_cong [of t s] by simp_all

lemma rub_out:
  assumes ok: "con_ok s" and ne: "editing s \<noteq> []"
  shows "\<exists>t. thenK (modK (\<lambda>s. s\<lparr>in_e := in_e s - 1\<rparr>)) (consputc BACKSPACE) s = Ret () t \<and> con_ok t \<and> con_keep s t \<and>
    lines_in t = lines_in s \<and> editing t = butlast (editing s)"
proof -
  let ?s = "s\<lparr>in_e := in_e s - 1\<rparr>"
  have u: "lines_in ?s = lines_in s" "editing ?s = butlast (editing s)" "in_ok ?s"
    using unput_editing [of s ?s] ok ne by simp_all
  obtain t where t: "consputc BACKSPACE ?s = Ret () t" "con_out ?s (echo BACKSPACE) t"
    using consputc_out [of ?s BACKSPACE] ok by auto
  then show ?thesis using u out_in [OF t(2)] con_out_fields [OF t(2)] ok
    by (intro exI [of _ t]) (simp add: km_simps con_keep_def)
qed

lemma kill_line_ok:
  "con_ok s \<Longrightarrow> length (editing s) < fuel \<Longrightarrow>
   \<exists>t. kill_line fuel s = Ret () t \<and> con_ok t \<and> con_keep s t \<and> lines_in t = lines_in s \<and> editing t = []"
proof (induction fuel arbitrary: s)
  case (Suc fuel)
  show ?case
  proof (cases "editing s = []")
    case True
    then show ?thesis using Suc.prems editing_nil [of s] by (intro exI [of _ s]) (simp add: km_simps con_keep_def)
  next
    case False
    obtain t where t: "thenK (modK (\<lambda>s. s\<lparr>in_e := in_e s - 1\<rparr>)) (consputc BACKSPACE) s = Ret () t" "con_ok t"
      "lines_in t = lines_in s" "editing t = butlast (editing s)" "con_keep s t"
      using rub_out [OF Suc.prems(1) False] by blast
    have "in_buf s ! in_cell (in_e s - 1) = last (editing s)"
      using unput_editing(4) [of s "s\<lparr>in_e := in_e s - 1\<rparr>"] Suc.prems False by simp
    moreover have "last (editing s) \<noteq> 10" using last_in_set [OF False] Suc.prems(1) unfolding in_ok_def by metis
    ultimately have "kill_line (Suc fuel) s = kill_line fuel t"
      using t(1) False editing_nil [of s] Suc.prems(1) by (simp add: bindK_def getK_def whenK_def thenK_def modK_def split: res.splits)
    moreover have "length (editing t) < fuel"
    proof -
      have "0 < length (editing s)" using False by simp
      then show ?thesis using t(4) Suc.prems(2) by (simp only: length_butlast)
    qed
    ultimately show ?thesis using Suc.IH [OF t(2)] t(3) con_keep_trans [OF t(5)] by auto
  qed
qed simp

lemma type_char:
  assumes ok: "in_ok s" and room: "length (lines_in s) + length (editing s) < INPUT_BUF"
  shows "cring.contents (in_put b s) = lines_in s @ editing s @ [b]" "cring.good (in_put b s)"
    "lines_in (in_put b s) = lines_in s" "editing (in_put b s) = editing s @ [b]"
proof -
  have g: "cring.good s" "length (cring.contents s) < INPUT_BUF" and k: "unat (in_w s - in_r s) \<le> length (cring.contents s)"
    using ok room arg_cong [OF input_split [of s], of length] by (simp_all add: in_ok_def)
  have p: "cring.contents (in_put b s) = cring.contents s @ [b]" "cring.good (in_put b s)" using cring.put [OF g] by simp_all
  have w: "in_w (in_put b s) = in_w s" "in_r (in_put b s) = in_r s" by (simp_all add: in_put_def)
  show "cring.contents (in_put b s) = lines_in s @ editing s @ [b]" "cring.good (in_put b s)"
    using p input_split [of s] by simp_all
  show "lines_in (in_put b s) = lines_in s" "editing (in_put b s) = editing s @ [b]"
    unfolding lines_in_def editing_def w p using k by simp_all
qed

lemma finish_line:
  fixes s t :: "'z cstate_scheme"
  assumes "in_ok s \<or> cring.good s" "in_buf t = in_buf s" "in_r t = in_r s" "in_w t = in_e s" "in_e t = in_e s"
  shows "lines_in t = cring.contents s" "editing t = []" "in_ok t"
proof -
  have c: "cring.contents t = cring.contents s" "cring.good t = cring.good s" "cring.used t = cring.used s"
    using assms(2,3,5) by (simp_all add: cring.contents_def cring.good_def cring.used_def)
  have k: "unat (in_w t - in_r t) = cring.used s" using assms by (simp add: cring.used_def)
  show "lines_in t = cring.contents s" "editing t = []" by (simp_all add: lines_in_def editing_def c k)
  then show "in_ok t" using assms(1) c k by (auto simp: in_ok_def)
qed

lemma char_typed:
  assumes ok: "con_ok s" and fits: "length (lines_in s) + length (editing s) < INPUT_BUF" and c: "0 \<le> c" "c < 256"
  shows "\<exists>t. thenK (modK (in_put (word_of_int c))) (thenK (consputc c)
      (bindK (getK id) (\<lambda>s. whenK (c = 10 \<or> c = 4 \<or> in_e s = in_r s + of_nat INPUT_BUF)
          (thenK (modK (\<lambda>s. s\<lparr>in_w := in_e s\<rparr>)) (wakeup ChInput))))) s = Ret () t \<and> con_ok t \<and> con_keep s t \<and>
    (lines_in t, editing t) =
      (let ed = editing s @ [word_of_int c] in
       if c = 10 \<or> c = 4 \<or> length (lines_in s) + length ed = INPUT_BUF then (lines_in s @ ed, []) else (lines_in s, ed))"
proof -
  let ?b = "word_of_int c :: u8" and ?s = "in_put (word_of_int c) s"
  note ty = type_char [OF conjunct1 [OF ok] fits, of ?b]
  obtain t where t: "consputc c ?s = Ret () t" "con_out ?s (echo c) t"
    using consputc_out [of ?s c] ok by (auto simp: in_put_def)
  note f = con_out_fields [OF t(2)] and v = out_in [OF t(2)]
  have full: "in_e t = in_r t + of_nat INPUT_BUF \<longleftrightarrow> length (lines_in s) + length (editing s) + 1 = INPUT_BUF"
    using cring.full_iff [OF ty(2)] arg_cong [OF ty(1), of length] f(7,9) by simp
  have g: "cring.good t" "cring.contents t = lines_in s @ editing s @ [?b]"
    using ty(1,2) f by (simp_all add: cring.good_def cring.contents_def cring.used_def)
  have h: "LkPtable \<notin> held t" "\<not> panicked t" "unat (crt_pos t) < SCREEN" "con_keep s t"
    using f ok by (simp_all add: in_put_def con_keep_def)
  define D where "D \<longleftrightarrow> c = 10 \<or> c = 4 \<or> in_e t = in_r t + of_nat INPUT_BUF"
  let ?r = "thenK (modK (in_put ?b)) (thenK (consputc c)
      (bindK (getK id) (\<lambda>s. whenK (c = 10 \<or> c = 4 \<or> in_e s = in_r s + of_nat INPUT_BUF)
          (thenK (modK (\<lambda>s. s\<lparr>in_w := in_e s\<rparr>)) (wakeup ChInput))))) s"
  have r: "?r = whenK D (thenK (modK (\<lambda>s. s\<lparr>in_w := in_e s\<rparr>)) (wakeup ChInput)) t"
    using t(1) by (simp add: thenK_def bindK_def modK_def getK_def D_def)
  show ?thesis
  proof (cases D)
    case True
    let ?t = "t\<lparr>in_w := in_e t, ptable := map (wakeup_proc ChInput) (ptable t)\<rparr>"
    have "?r = Ret () ?t" unfolding r using True h(1) by (simp add: km_simps)
    moreover have "lines_in ?t = cring.contents t" "editing ?t = []" "in_ok ?t"
      using finish_line [of t ?t] g(1) by simp_all
    ultimately show ?thesis using True g(2) full h unfolding D_def con_keep_def by (intro exI [of _ ?t]) (simp add: Let_def)
  next
    case False
    then have r': "?r = Ret () t" unfolding r by (simp add: km_simps)
    have "uint ?b = c" using c by (simp add: uint_word_of_int)
    then have "?b \<noteq> 10" using False by (auto simp: D_def)
    moreover have "unat (in_w t - in_r t) \<le> cring.used t"
      using arg_cong [OF g(2), of length] arg_cong [OF input_split [of s], of length] ok f(7,8)
      by (simp add: in_ok_def in_put_def)
    ultimately have "in_ok t" using ok v(2) ty(4) g(1) by (simp add: in_ok_def)
    then show ?thesis using r' False v ty full h unfolding D_def by (intro exI [of _ t]) (simp add: Let_def)
  qed
qed

lemma console_edits:
  assumes c: "0 \<le> c" "c < 256"
    and ok': "con_ok s"
  shows "\<exists>t. console_char c s = Ret () t \<and> con_ok t \<and> con_keep s t \<and> (lines_in t, editing t) = edit c (lines_in s, editing s)"
proof -
  have ok: "in_ok s" using ok' by blast
  have len: "length (lines_in s) + length (editing s) = unat (in_e s - in_r s)"
    using arg_cong [OF input_split [of s], of length] by (simp add: cring.used_def)
  have room: "in_e s - in_r s < of_nat INPUT_BUF \<longleftrightarrow> length (lines_in s) + length (editing s) < INPUT_BUF"
    unfolding len by (simp add: word_less_nat_alt)
  consider "c = 0x10" | "c = 0x15" | "c = 0x08 \<or> c = 0x7F" | "c \<notin> {0x10, 0x15, 0x08, 0x7F}" by blast
  then show ?thesis
  proof cases
    case 1
    then show ?thesis using ok' by (simp add: console_char_def edit_def km_simps con_keep_def)
  next
    case 2
    have "length (editing s) < Suc (INPUT_BUF + 1)"
      using cring.bound [of s] ok arg_cong [OF input_split [of s], of length] by (simp add: in_ok_def)
    from kill_line_ok [OF ok' this] show ?thesis using 2 by (auto simp: console_char_def edit_def simp del: kill_line.simps)
  next
    case 3
    then show ?thesis using rub_out [OF ok'] editing_nil [OF ok] ok'
      by (cases "editing s = []") (auto simp: console_char_def edit_def con_keep_def bindK_def getK_def whenK_def split: res.splits)
  next
    case 4
    show ?thesis
    proof (cases "c \<noteq> 0 \<and> in_e s - in_r s < of_nat INPUT_BUF")
      case False
      then show ?thesis using 4 room ok' by (auto simp: console_char_def edit_def km_simps con_keep_def)
    next
      case True
      let ?c = "if c = 13 then 10 else c"
      have "0 \<le> ?c" "?c < 256" using c by simp_all
      moreover have "length (lines_in s) + length (editing s) < INPUT_BUF" using True room by simp
      ultimately show ?thesis using char_typed [OF ok', of ?c] 4 True
        by (simp add: console_char_def edit_def Let_def bindK_def getK_def whenK_def)
    qed
  qed
qed

section \<open>A keyboard interrupt\<close>

text \<open>The characters the keyboard driver makes of a sequence of scan codes.\<close>

fun decode :: "u32 \<Rightarrow> u8 list \<Rightarrow> int list" where
  "decode sh [] = []"
| "decode sh (d # ds) = (case kbd_code sh d of (sh', c) \<Rightarrow> sint c # decode sh' ds)"

lemma kbd_char_range: "unat (snd (kbd_code sh d)) < 256"
proof -
  have small: "unat (ucast (b :: u8) :: u32) < 256" for b
  proof -
    have "unat b < 2 ^ LENGTH(8)" by (rule unsigned_less)
    moreover have "unat (ucast b :: u32) \<le> unat b" unfolding unsigned_ucast_eq by (rule take_bit_nat_less_eq_self)
    ultimately show ?thesis by simp
  qed
  have caps: "unat (if b then (if 0x61 \<le> c \<and> c \<le> 0x7A then c + (0x41 - 0x61)
                     else if 0x41 \<le> c \<and> c \<le> 0x5A then c + (0x61 - 0x41) else c) else c) < 256"
    if "unat c < 256" for b and c :: u32
  proof -
    have "unat (c + (0x41 - 0x61)) < 256" if "0x61 \<le> c" "c \<le> 0x7A"
    proof -
      have "c + (0x41 - 0x61) = c - 32" by simp
      then show ?thesis using that unat_sub [of 32 c] by (simp add: word_le_nat_alt)
    qed
    moreover have "unat (c + (0x61 - 0x41)) < 256" if "c \<le> 0x5A"
      using that unat_add_u32 [of c 32] by (simp add: word_le_nat_alt)
    ultimately show ?thesis using \<open>unat c < 256\<close> by simp
  qed
  show ?thesis unfolding kbd_code_def Let_def
    by (simp add: caps [OF small] del: unsigned_ucast_eq split: prod.splits)
qed

lemma drain_kbd:
  "con_ok s \<Longrightarrow> length (kbd_data s) < fuel \<Longrightarrow>
   \<exists>t. console_drain fuel kbdgetc s = Ret () t \<and> con_ok t \<and> kbd_data t = [] \<and> held t = held s \<and>
     (lines_in t, editing t) = fold edit (decode (kbd_shift s) (kbd_data s)) (lines_in s, editing s)"
proof (induction fuel arbitrary: s)
  case (Suc fuel)
  show ?case
  proof (cases "kbd_data s")
    case Nil
    then show ?thesis using Suc.prems by (intro exI [of _ s]) (simp add: bindK_def getK_def retK_def kbdgetc_def)
  next
    case (Cons d ds)
    obtain sh c where k: "kbd_code (kbd_shift s) d = (sh, c)" by (cases "kbd_code (kbd_shift s) d")
    have c: "unat c < 256" using kbd_char_range [of "kbd_shift s" d] k by simp
    have si: "sint c = int (unat c)"
    proof -
      have "uint c = int (unat c)" by simp
      then have "0 \<le> uint c" "uint c < 256" using c by linarith+
      moreover have "- (2 ^ 31) \<le> (0 :: int)" "(256 :: int) < 2 ^ 31" by simp_all
      ultimately have "- (2 ^ 31) \<le> uint c" "uint c < 2 ^ 31" by (metis order_trans, metis less_trans)
      then have "signed_take_bit 31 (uint c) = uint c" by (rule signed_take_bit_int_eq_self)
      then have "sint c = uint c" by (simp add: sint_uint)
      then show ?thesis by simp
    qed
    let ?s = "s\<lparr>kbd_data := ds, kbd_shift := sh\<rparr>"
    have g: "kbdgetc s = Ret (sint c) ?s" using Cons k by (simp add: kbdgetc_def km_simps)
    have ok: "con_ok ?s" "lines_in ?s = lines_in s" "editing ?s = editing s" using Suc.prems(1) in_cong [of ?s s] by simp_all
    have r: "0 \<le> sint c" "sint c < 256" using si c by linarith+
    obtain t where t: "console_char (sint c) ?s = Ret () t" "con_ok t" "con_keep ?s t"
      "(lines_in t, editing t) = edit (sint c) (lines_in s, editing s)"
      using console_edits [OF r ok(1)] unfolding ok(2,3) by blast
    have "console_drain (Suc fuel) kbdgetc s = console_drain fuel kbdgetc t"
      using g t(1) r(1) by (simp add: bindK_def thenK_def)
    then show ?thesis using Suc.IH [OF t(2)] t(3,4) Suc.prems(2) Cons k by (simp add: con_keep_def)
  qed
qed simp

text \<open>
  C22. A keyboard interrupt ends, whatever keys were hit: \<open>kbdintr\<close> returns without a panic once it has
  taken every pending scan code, and it takes the input from one state of a line editor to the next for
  each character in turn. A character is appended to the edited line, a backspace takes the last one off,
  Control-U the whole line, and a newline, Control-D or a full buffer turns it into input for readers; a
  finished line is never edited again.
\<close>

theorem kbdintr_edits:
  assumes "in_ok s" "\<not> panicked s" "unat (crt_pos s) < SCREEN" "held s = {}"
  shows "\<exists>t. kbdintr s = Ret () t \<and> kbd_data t = [] \<and> held t = {} \<and> in_ok t \<and>
    (lines_in t, editing t) = fold edit (decode (kbd_shift s) (kbd_data s)) (lines_in s, editing s)"
proof -
  let ?s = "s\<lparr>held := {LkCons}\<rparr>"
  have "con_ok ?s" "lines_in ?s = lines_in s" "editing ?s = editing s" using assms in_cong [of ?s s] by simp_all
  then obtain t where t: "console_drain (Suc (length (kbd_data s))) kbdgetc ?s = Ret () t" "con_ok t" "kbd_data t = []"
    "held t = {LkCons}" "(lines_in t, editing t) = fold edit (decode (kbd_shift s) (kbd_data s)) (lines_in s, editing s)"
    using drain_kbd [of ?s "Suc (length (kbd_data s))"] by auto
  let ?t = "t\<lparr>held := {}\<rparr>"
  have "kbdintr s = Ret () ?t"
    using assms t(1,4) by (simp add: kbdintr_def consoleintr_def km_simps del: console_drain.simps)
  moreover have "in_ok ?t" "lines_in ?t = lines_in t" "editing ?t = editing t" using t(2) in_cong [of ?t t] by simp_all
  ultimately show ?thesis using t by (intro exI [of _ ?t]) simp
qed

section \<open>Witnesses\<close>

lemma demo_con_ok:
  "in_ok demo_con" "\<not> panicked demo_con" "unat (crt_pos demo_con) < SCREEN" "held demo_con = {}" "uart demo_con"
  "lines_in demo_con = []" "editing demo_con = []" "kbd_shift demo_con = 0"
  by (simp_all add: demo_con_def demo_fs_def demo_log_def demo_ready_def demo_cache_def demo_bstate_def
      bstate.defs lstate.defs istate.defs cstate.defs in_ok_def lines_in_def editing_def cring.good_def cring.used_def
      cring.contents_def)

theorem cprintf_prints_witness:
  "\<exists>t. cprintf (Some [0x63, 0x70, 0x75, 0x25, 0x64, 10]) [CInt 3] demo_con = Ret () t \<and>
     serial t = serial demo_con @ [0x63, 0x70, 0x75, 0x33, 10]"
proof -
  have "render [0x63, 0x70, 0x75, 0x25, 0x64, 10] [CInt 3] = Some [0x63, 0x70, 0x75, 0x33, 10]"
    by (simp add: number_def positional.simps digit_def)
  from cprintf_prints [OF this demo_con_ok(2,3)] demo_con_ok(4,5) con_out_fields(11) show ?thesis by fastforce
qed

lemma demo_decode: "decode 0 [0x1E, 0x1C] = [0x61, 10]"
  by code_simp

theorem kbdintr_edits_witness:
  "\<exists>t. kbdintr (demo_con\<lparr>kbd_data := [0x1E, 0x1C]\<rparr>) = Ret () t \<and> kbd_data t = [] \<and> lines_in t = [0x61, 10]"
proof -
  let ?s = "demo_con\<lparr>kbd_data := [0x1E, 0x1C]\<rparr>"
  have i: "in_ok ?s" "lines_in ?s = []" "editing ?s = []" using demo_con_ok in_cong [of ?s demo_con] by simp_all
  have f: "fold edit (decode (kbd_shift ?s) (kbd_data ?s)) (lines_in ?s, editing ?s) = ([0x61, 10], [])"
    unfolding i by (simp add: demo_con_ok demo_decode edit_def del: decode.simps)
  show ?thesis using kbdintr_edits [OF i(1)] demo_con_ok(2-4) unfolding f by auto
qed

end
