(* ===== verification/Pipe.thy ===== *)
theory Pipe
  imports Console
begin

text \<open>
  \<open>pipe.c\<close>: the ring buffer, closing an end, writing and reading.
\<close>

section \<open>State\<close>

text \<open>
  \<open>struct pipe\<close> without its spin lock, which is \<open>LkPipe p\<close> for the pipe in the page at \<open>p\<close>;
  \<open>&p->nread\<close> and \<open>&p->nwrite\<close> are the channels \<open>ChPipeRead p\<close> and \<open>ChPipeWrite p\<close>.
\<close>

record pipe =
  pdata :: "u8 list"
  nread :: u32
  nwrite :: u32
  readopen :: bool
  writeopen :: bool

record pipestate = cstate +
  pipes :: "u32 \<Rightarrow> pipe"

abbreviation (input) PIPESIZE :: nat where "PIPESIZE \<equiv> 512"

abbreviation (input) pcell :: "u32 \<Rightarrow> nat" where
  "pcell k \<equiv> unat (k mod of_nat PIPESIZE)"

definition upd_pipe :: "u32 \<Rightarrow> (pipe \<Rightarrow> pipe) \<Rightarrow> 'z pipestate_scheme \<Rightarrow> 'z pipestate_scheme" where
  "upd_pipe p f s = s\<lparr>pipes := (pipes s)(p := f (pipes s p))\<rparr>"

section \<open>Operations\<close>

definition pipe_full :: "pipe \<Rightarrow> bool" where
  "pipe_full q \<longleftrightarrow> nwrite q = nread q + of_nat PIPESIZE"

definition pipe_empty :: "pipe \<Rightarrow> bool" where
  "pipe_empty q \<longleftrightarrow> nread q = nwrite q"

definition pipe_put :: "u8 \<Rightarrow> pipe \<Rightarrow> pipe" where
  "pipe_put c q = q\<lparr>pdata := (pdata q)[pcell (nwrite q) := c], nwrite := nwrite q + 1\<rparr>"

definition pipe_get :: "pipe \<Rightarrow> u8 \<times> pipe" where
  "pipe_get q = (pdata q ! pcell (nread q), q\<lparr>nread := nread q + 1\<rparr>)"

definition pipeclose :: "u32 \<Rightarrow> bool \<Rightarrow> ('z pipestate_scheme, unit) km" where
  "pipeclose p writable = thenK (lk_acquire (LkPipe p))
    (thenK (if writable then thenK (modK (upd_pipe p (\<lambda>q. q\<lparr>writeopen := False\<rparr>))) (wakeup (ChPipeRead p))
            else thenK (modK (upd_pipe p (\<lambda>q. q\<lparr>readopen := False\<rparr>))) (wakeup (ChPipeWrite p)))
    (bindK (getK (\<lambda>s. pipes s p)) (\<lambda>q.
     if \<not> readopen q \<and> \<not> writeopen q then thenK (lk_release (LkPipe p)) (kfree p)
     else lk_release (LkPipe p))))"

text \<open>
  The loop of \<open>pipewrite\<close>: \<open>False\<close> is the early return of -1. A writer that finds the pipe full wakes the
  readers and is suspended; when it runs again it continues with the bytes not yet written.
\<close>

fun pipewrite_loop :: "u32 \<Rightarrow> u8 list \<Rightarrow> ('z pipestate_scheme, bool) km" where
  "pipewrite_loop p [] = retK True"
| "pipewrite_loop p (c # cs) = bindK (getK id) (\<lambda>s.
     if pipe_full (pipes s p) then
       bindK curproc (\<lambda>i. if \<not> readopen (pipes s p) \<or> killed (ptable s ! i)
         then thenK (lk_release (LkPipe p)) (retK False)
         else thenK (wakeup (ChPipeRead p)) (thenK (sleep (ChPipeWrite p) (LkPipe p)) (retK False)))
     else thenK (modK (upd_pipe p (pipe_put c))) (pipewrite_loop p cs))"

definition pipewrite :: "u32 \<Rightarrow> u8 list \<Rightarrow> ('z pipestate_scheme, int) km" where
  "pipewrite p cs = thenK (lk_acquire (LkPipe p)) (bindK (pipewrite_loop p cs) (\<lambda>ok.
     if \<not> ok then retK (-1)
     else thenK (wakeup (ChPipeRead p)) (thenK (lk_release (LkPipe p)) (retK (int (length cs))))))"

fun piperead_loop :: "u32 \<Rightarrow> nat \<Rightarrow> ('z pipestate_scheme, u8 list) km" where
  "piperead_loop p 0 = retK []"
| "piperead_loop p (Suc n) = bindK (getK (\<lambda>s. pipes s p)) (\<lambda>q.
     if pipe_empty q then retK []
     else case pipe_get q of (c, q') \<Rightarrow> thenK (modK (upd_pipe p (\<lambda>_. q')))
       (bindK (piperead_loop p n) (\<lambda>cs. retK (c # cs))))"

text \<open>\<open>piperead\<close>: the count and the bytes it stores.\<close>

definition piperead :: "u32 \<Rightarrow> int \<Rightarrow> ('z pipestate_scheme, int \<times> u8 list) km" where
  "piperead p n = thenK (lk_acquire (LkPipe p)) (bindK (getK id) (\<lambda>s.
     if pipe_empty (pipes s p) \<and> writeopen (pipes s p) then
       bindK curproc (\<lambda>i. if killed (ptable s ! i)
         then thenK (lk_release (LkPipe p)) (retK (-1, []))
         else thenK (sleep (ChPipeRead p) (LkPipe p)) (retK (-1, [])))
     else bindK (piperead_loop p (nat n)) (\<lambda>cs.
       thenK (wakeup (ChPipeWrite p))
      (thenK (lk_release (LkPipe p))
       (retK (int (length cs), cs))))))"

section \<open>The ring buffer is a bounded queue\<close>

interpretation pring: ring_buffer pdata nread nwrite pipe_put pipe_get PIPESIZE
  by unfold_locales (simp_all add: pipe_put_def pipe_get_def dvd_eq_mod_eq_0)

lemma pipe_full_iff: "pring.good q \<Longrightarrow> pipe_full q \<longleftrightarrow> length (pring.contents q) = PIPESIZE"
  using pring.full_iff [of q] by (simp add: pipe_full_def)

lemma pipe_empty_iff: "pipe_empty q \<longleftrightarrow> pring.contents q = []"
  using pring.empty_iff [of q] by (simp add: pipe_empty_def)

lemma pring_cong:
  "pdata q = pdata q' \<Longrightarrow> nread q = nread q' \<Longrightarrow> nwrite q = nwrite q' \<Longrightarrow>
   pring.contents q = pring.contents q' \<and> pring.good q = pring.good q'"
  by (simp add: pring.contents_def pring.good_def pring.used_def)

lemma upd_pipe_fields [simp]:
  "held (upd_pipe p f s) = held s" "cur (upd_pipe p f s) = cur s" "ptable (upd_pipe p f s) = ptable s"
  "pipes (upd_pipe p f s) = (pipes s)(p := f (pipes s p))"
  by (simp_all add: upd_pipe_def)

lemma upd_pipe_comp: "upd_pipe p f (upd_pipe p g s) = upd_pipe p (f \<circ> g) s"
  by (simp add: upd_pipe_def)

lemma upd_pipe_id: "upd_pipe p id s = s"
  by (simp add: upd_pipe_def)

lemma fold_put_open [simp]:
  "readopen (fold pipe_put cs q) = readopen q" "writeopen (fold pipe_put cs q) = writeopen q"
  by (induction cs arbitrary: q) (simp_all add: pipe_put_def)

section \<open>Writing\<close>

lemma pipewrite_loop_advance:
  "pring.good (pipes s p) \<Longrightarrow> length (pring.contents (pipes s p)) + k \<le> PIPESIZE \<Longrightarrow> k \<le> length cs \<Longrightarrow>
   pipewrite_loop p cs s = pipewrite_loop p (drop k cs) (upd_pipe p (fold pipe_put (take k cs)) s)"
proof (induction k arbitrary: cs s)
  case 0
  then show ?case by (simp add: upd_pipe_id [unfolded id_def])
next
  case (Suc k)
  then obtain c cs' where cs: "cs = c # cs'" by (cases cs) auto
  let ?q = "pipes s p" and ?t = "upd_pipe p (pipe_put c) s"
  have "\<not> pipe_full ?q" using Suc.prems pipe_full_iff [of ?q] by simp
  then have "pipewrite_loop p cs s = pipewrite_loop p cs' ?t" unfolding cs by (simp add: km_simps)
  also have "\<dots> = pipewrite_loop p (drop k cs') (upd_pipe p (fold pipe_put (take k cs')) ?t)"
    using Suc pring.put [of ?q c] cs by (intro Suc.IH) simp_all
  finally show ?case by (simp add: cs upd_pipe_comp comp_def)
qed

lemma pipewrite_loop_fits:
  assumes "pring.good (pipes s p)" "length (pring.contents (pipes s p)) + length cs \<le> PIPESIZE"
  shows "pipewrite_loop p cs s = Ret True (upd_pipe p (fold pipe_put cs) s)"
  using pipewrite_loop_advance [OF assms] by (simp add: km_simps)

lemma pipewrite_loop_full:
  assumes g: "pring.good (pipes s p)" and l: "PIPESIZE < length (pring.contents (pipes s p)) + length cs"
  defines "k \<equiv> PIPESIZE - length (pring.contents (pipes s p))"
  defines "t \<equiv> upd_pipe p (fold pipe_put (take k cs)) s"
  shows "pipewrite_loop p cs s = pipewrite_loop p (drop k cs) t" "drop k cs \<noteq> []" "pipe_full (pipes t p)"
    "pring.contents (pipes t p) = take PIPESIZE (pring.contents (pipes s p) @ cs)" "pring.good (pipes t p)"
proof -
  have b: "length (pring.contents (pipes s p)) \<le> PIPESIZE" by (rule pring.bound [OF g])
  have k: "k < length cs" using l b by (simp add: k_def)
  show "pipewrite_loop p cs s = pipewrite_loop p (drop k cs) t" unfolding t_def
    by (rule pipewrite_loop_advance [OF g]) (use b k in \<open>simp_all add: k_def\<close>)
  show "drop k cs \<noteq> []" using k by simp
  have f: "pring.contents (fold pipe_put (take k cs) (pipes s p)) = pring.contents (pipes s p) @ take k cs"
    "pring.good (fold pipe_put (take k cs) (pipes s p))"
    using pring.fold_put [OF g, of "take k cs"] b k by (simp_all add: k_def)
  then show "pring.good (pipes t p)" by (simp add: t_def)
  show "pring.contents (pipes t p) = take PIPESIZE (pring.contents (pipes s p) @ cs)"
    using f b by (simp add: t_def k_def)
  show "pipe_full (pipes t p)" using f b k pipe_full_iff [of "pipes t p"] by (simp add: t_def k_def)
qed

text \<open>
  C20. \<open>pipewrite\<close> on every branch. When the bytes fit, they are appended to the queue, the readers are
  woken and the count is returned. When they do not fit, the queue is filled to its 512 bytes; then a
  writer whose reader is gone, or that was killed, returns -1, and any other wakes the readers and sleeps
  on the write channel without the lock of the pipe. No other pipe changes.
\<close>

theorem pipewrite_cases:
  assumes g: "pring.good (pipes s p)" and h: "held s = {}" and c: "cur s = Some i" "i < length (ptable s)"
  defines "old \<equiv> pring.contents (pipes s p)"
  shows "if length old + length cs \<le> PIPESIZE
    then \<exists>t. pipewrite p cs s = Ret (int (length cs)) t \<and> pring.contents (pipes t p) = old @ cs \<and>
       ptable t = map (wakeup_proc (ChPipeRead p)) (ptable s) \<and> held t = {} \<and> (\<forall>q. q \<noteq> p \<longrightarrow> pipes t q = pipes s q)
    else \<exists>t. pring.contents (pipes t p) = take PIPESIZE (old @ cs) \<and> (\<forall>q. q \<noteq> p \<longrightarrow> pipes t q = pipes s q) \<and>
      (if \<not> readopen (pipes s p) \<or> killed (ptable s ! i)
       then pipewrite p cs s = Ret (-1) t \<and> ptable t = ptable s \<and> held t = {}
       else pipewrite p cs s = Sleep (ChPipeWrite p) t \<and> held t = {LkPtable} \<and>
         ptable t = (map (wakeup_proc (ChPipeRead p)) (ptable s))
           [i := (wakeup_proc (ChPipeRead p) (ptable s ! i))\<lparr>pchan := Some (ChPipeWrite p), pstate := SLEEPING\<rparr>])"
proof -
  define s1 where "s1 = s\<lparr>held := {LkPipe p}\<rparr>"
  have s1: "lk_acquire (LkPipe p) s = Ret () s1" "pipes s1 = pipes s" "cur s1 = Some i" "ptable s1 = ptable s"
    "held s1 = {LkPipe p}" using h c by (simp_all add: s1_def)
  have g1: "pring.good (pipes s1 p)" using g s1 by simp
  show ?thesis
  proof (cases "length old + length cs \<le> PIPESIZE")
    case True
    have l: "pipewrite_loop p cs s1 = Ret True (upd_pipe p (fold pipe_put cs) s1)"
      by (rule pipewrite_loop_fits [OF g1]) (use True s1 old_def in simp)
    have "pring.contents (fold pipe_put cs (pipes s p)) = old @ cs"
      using pring.fold_put [OF g, of cs] True old_def by simp
    then show ?thesis using True l s1 by (simp add: pipewrite_def km_simps)
  next
    case False
    let ?k = "PIPESIZE - length old"
    define t where "t = upd_pipe p (fold pipe_put (take ?k cs)) s1"
    have l: "PIPESIZE < length (pring.contents (pipes s1 p)) + length cs" using False s1 old_def by simp
    note w = pipewrite_loop_full [OF g1 l, unfolded s1(2), folded old_def, folded t_def]
    obtain d ds where d: "drop ?k cs = d # ds" using w(2) by (cases "drop ?k cs") auto
    have t: "held t = {LkPipe p}" "cur t = Some i" "ptable t = ptable s" "\<And>q. q \<noteq> p \<Longrightarrow> pipes t q = pipes s q"
      "readopen (pipes t p) = readopen (pipes s p)" using s1 by (simp_all add: t_def)
    show ?thesis
    proof (cases "\<not> readopen (pipes s p) \<or> killed (ptable s ! i)")
      case True
      then have "pipewrite_loop p cs s1 = Ret False (t\<lparr>held := {}\<rparr>)" using w(1,3) d t by (simp add: km_simps)
      then have "pipewrite p cs s = Ret (-1) (t\<lparr>held := {}\<rparr>)"
        using s1(1) by (simp add: pipewrite_def thenK_def bindK_def retK_def)
      then show ?thesis using False True w(4) t by simp
    next
      case blocked: False
      let ?t = "t\<lparr>held := {LkPtable}, ptable := (map (wakeup_proc (ChPipeRead p)) (ptable s))
           [i := (wakeup_proc (ChPipeRead p) (ptable s ! i))\<lparr>pchan := Some (ChPipeWrite p), pstate := SLEEPING\<rparr>]\<rparr>"
      have "pipewrite_loop p cs s1 = Sleep (ChPipeWrite p) ?t"
        using w(1,3) d t blocked c by (simp add: km_simps sleep_eval)
      then have "pipewrite p cs s = Sleep (ChPipeWrite p) ?t" using s1(1) by (simp add: pipewrite_def km_simps)
      then show ?thesis using False blocked w(4) t by simp
    qed
  qed
qed

section \<open>Reading\<close>

lemma piperead_loop_take:
  "pring.good (pipes s p) \<Longrightarrow>
   piperead_loop p n s = Ret (take n (pring.contents (pipes s p))) (upd_pipe p (\<lambda>q. snd (pring.take_out n q)) s)"
proof (induction n arbitrary: s)
  case 0
  then show ?case by (simp add: km_simps upd_pipe_id [unfolded id_def])
next
  case (Suc n)
  let ?q = "pipes s p"
  show ?case
  proof (cases "pring.contents ?q")
    case Nil
    then show ?thesis by (simp add: km_simps pipe_empty_iff upd_pipe_def)
  next
    case (Cons c cs)
    obtain q' where g: "pipe_get ?q = (c, q')" "pring.contents q' = cs" "pring.good q'"
      using pring.get [OF Suc.prems] Cons by (cases "pipe_get ?q") auto
    let ?t = "upd_pipe p (\<lambda>_. q') s"
    have "piperead_loop p n ?t = Ret (take n cs) (upd_pipe p (\<lambda>q. snd (pring.take_out n q)) ?t)"
      using Suc.IH [of ?t] g by simp
    then show ?thesis using Cons g
      by (simp add: km_simps pipe_empty_iff upd_pipe_comp comp_def) (simp add: upd_pipe_def split: prod.splits)
  qed
qed

text \<open>
  C21. \<open>piperead\<close> on every branch. If there are bytes, or no writer is left, it returns the oldest bytes, at
  most as many as asked for (none at the end of the stream), takes them out of the queue and wakes the
  writers. If the pipe is empty and may still be written, a killed reader returns -1 and any other sleeps
  on the read channel without the lock of the pipe.
\<close>

theorem piperead_cases:
  assumes g: "pring.good (pipes s p)" and h: "held s = {}" and c: "cur s = Some i" "i < length (ptable s)"
  defines "old \<equiv> pring.contents (pipes s p)"
  shows "if old = [] \<and> writeopen (pipes s p)
    then (if killed (ptable s ! i) then piperead p n s = Ret (-1, []) s
      else piperead p n s = Sleep (ChPipeRead p) (s\<lparr>held := {LkPtable},
        ptable := (ptable s)[i := (ptable s ! i)\<lparr>pchan := Some (ChPipeRead p), pstate := SLEEPING\<rparr>]\<rparr>))
    else \<exists>t. piperead p n s = Ret (int (length (take (nat n) old)), take (nat n) old) t \<and>
      pring.contents (pipes t p) = drop (nat n) old \<and> ptable t = map (wakeup_proc (ChPipeWrite p)) (ptable s) \<and>
      held t = {} \<and> (\<forall>q. q \<noteq> p \<longrightarrow> pipes t q = pipes s q)"
proof -
  define s1 where "s1 = s\<lparr>held := {LkPipe p}\<rparr>"
  have s1: "lk_acquire (LkPipe p) s = Ret () s1" "pipes s1 = pipes s" "cur s1 = Some i" "ptable s1 = ptable s"
    "held s1 = {LkPipe p}" using h c by (simp_all add: s1_def)
  have e: "pipe_empty (pipes s1 p) \<longleftrightarrow> old = []" by (simp add: pipe_empty_iff s1 old_def)
  have same: "s1\<lparr>held := {}\<rparr> = s" using h by (simp add: s1_def)
  show ?thesis
  proof (cases "old = [] \<and> writeopen (pipes s p)")
    case True
    show ?thesis
    proof (cases "killed (ptable s ! i)")
      case True
      then show ?thesis using \<open>old = [] \<and> _\<close> e s1 same by (simp add: piperead_def km_simps)
    next
      case False
      then show ?thesis using \<open>old = [] \<and> _\<close> e s1 c by (simp add: piperead_def km_simps sleep_eval s1_def)
    qed
  next
    case False
    have "piperead_loop p (nat n) s1 = Ret (take (nat n) old) (upd_pipe p (\<lambda>q. snd (pring.take_out (nat n) q)) s1)"
      using piperead_loop_take [of s1 p "nat n"] g s1 old_def by simp
    moreover have "pring.contents (snd (pring.take_out (nat n) (pipes s p))) = drop (nat n) old"
      using pring.take_out [OF g, of "nat n"] old_def by simp
    ultimately show ?thesis using False e s1 by (auto simp add: piperead_def km_simps)
  qed
qed

section \<open>The stream\<close>

text \<open>
  Any interleaving of readers, writers and other code on the pipe at \<open>p\<close>. \<open>W\<close> collects the bytes the
  writers have stored, in the order they stored them; \<open>R\<close> the bytes the readers were given. A writer runs
  until it has stored all its bytes or sleeps; the number of bytes it stored is how far the write index
  moved. Other code leaves the ring buffer alone (it may close an end).
\<close>

inductive pipe_run :: "u32 \<Rightarrow> 'z pipestate_scheme \<Rightarrow> u8 list \<Rightarrow> u8 list \<Rightarrow> 'z pipestate_scheme \<Rightarrow> bool" for p s where
  start: "pipe_run p s [] [] s"
| writer: "pipe_run p s W R t \<Longrightarrow> pipewrite_loop p cs t = Ret b u \<or> pipewrite_loop p cs t = Sleep c u \<Longrightarrow>
    pipe_run p s (W @ take (unat (nwrite (pipes u p) - nwrite (pipes t p))) cs) R u"
| reader: "pipe_run p s W R t \<Longrightarrow> piperead_loop p n t = Ret cs u \<Longrightarrow> pipe_run p s W (R @ cs) u"
| other: "pipe_run p s W R t \<Longrightarrow> pdata (pipes u p) = pdata (pipes t p) \<Longrightarrow> nread (pipes u p) = nread (pipes t p) \<Longrightarrow>
    nwrite (pipes u p) = nwrite (pipes t p) \<Longrightarrow> pipe_run p s W R u"

lemma sched_Sleep: "sched c s = Sleep d t \<Longrightarrow> t = s"
  by (cases "cur s") (auto simp: sched_def thenK_def bindK_def getK_def assertK_def curproc_def myproc_def panicK_def retK_def
      split: if_splits)

lemma sleep_keeps_pipes:
  assumes "sleep c lk s = Sleep d t"
  shows "pipes t = pipes s"
proof -
  obtain i where i: "cur s = Some i" using assms by (cases "cur s") (simp_all add: sleep_def myproc_def km_simps)
  define r where "r = (if lk \<noteq> LkPtable then thenK (lk_acquire LkPtable) (lk_release lk) else retK ()) s"
  have *: "sleep c lk s = (case r of Ret a u \<Rightarrow> sched c (upd_proc i (\<lambda>q. q\<lparr>pchan := Some c, pstate := SLEEPING\<rparr>) u)
      | Panic e \<Rightarrow> Panic e | Sleep d u \<Rightarrow> Sleep d u | Spin u \<Rightarrow> Spin u)"
    unfolding sleep_def myproc_def r_def using i by (simp add: thenK_def bindK_def getK_def modK_def split: res.splits)
  have n: "\<not> (\<exists>d u. r = Sleep d u)" and p: "r = Ret a u \<Longrightarrow> pipes u = pipes s" for a u
    unfolding r_def by (auto simp: thenK_def bindK_def lk_defs getK_def assertK_def modK_def retK_def split: if_splits)
  show ?thesis
  proof (cases r)
    case (Ret a u)
    then have "t = upd_proc i (\<lambda>q. q\<lparr>pchan := Some c, pstate := SLEEPING\<rparr>) u"
      using assms unfolding * by (auto dest: sched_Sleep)
    then show ?thesis using p [OF Ret] by (simp add: upd_proc_def)
  qed (use assms n in \<open>auto simp: *\<close>)
qed

lemma fold_put_nwrite: "nwrite (fold pipe_put cs q) = nwrite q + of_nat (length cs)"
  by (induction cs arbitrary: q) (simp_all add: pipe_put_def)

lemma full_writer_keeps:
  assumes f: "pipe_full (pipes s p)" and r: "pipewrite_loop p (d # ds) s = Ret b u \<or> pipewrite_loop p (d # ds) s = Sleep c u"
  shows "pipes u = pipes s"
proof -
  obtain i where i: "cur s = Some i"
    using r f by (cases "cur s") (simp_all add: bindK_def getK_def curproc_def myproc_def panicK_def)
  define g where "g \<longleftrightarrow> \<not> readopen (pipes s p) \<or> killed (ptable s ! i)"
  have *: "pipewrite_loop p (d # ds) s = (if g then thenK (lk_release (LkPipe p)) (retK False) s
      else thenK (wakeup (ChPipeRead p)) (thenK (sleep (ChPipeWrite p) (LkPipe p)) (retK False)) s)"
    using f i by (simp add: bindK_def getK_def g_def)
  show ?thesis
  proof (cases g)
    case True
    then show ?thesis using r unfolding *
      by (auto simp: thenK_def bindK_def lk_defs getK_def assertK_def modK_def retK_def split: if_splits)
  next
    case False
    show ?thesis
    proof (cases "LkPtable \<in> held s")
      case True
      then show ?thesis using r False unfolding * by (simp add: wakeup_def lk_acquire_held km_simps)
    next
      case free: False
      let ?v = "s\<lparr>ptable := map (wakeup_proc (ChPipeRead p)) (ptable s)\<rparr>"
      have "sleep (ChPipeWrite p) (LkPipe p) ?v = Sleep c u"
        using r False free unfolding * by (auto simp: thenK_def bindK_def ret_iff split: res.splits)
      then show ?thesis by (auto dest: sleep_keeps_pipes)
    qed
  qed
qed

lemma writer_stores:
  assumes g: "pring.good (pipes s p)" and r: "pipewrite_loop p cs s = Ret b u \<or> pipewrite_loop p cs s = Sleep c u"
  shows "\<exists>k. k \<le> length cs \<and> pipes u p = fold pipe_put (take k cs) (pipes s p) \<and>
    length (pring.contents (pipes s p)) + k \<le> PIPESIZE"
proof (cases "length (pring.contents (pipes s p)) + length cs \<le> PIPESIZE")
  case True
  then show ?thesis using pipewrite_loop_fits [OF g True] r by (intro exI [of _ "length cs"]) auto
next
  case False
  then have l: "PIPESIZE < length (pring.contents (pipes s p)) + length cs" by simp
  let ?k = "PIPESIZE - length (pring.contents (pipes s p))"
  note w = pipewrite_loop_full [OF g l]
  obtain d ds where d: "drop ?k cs = d # ds" using w(2) by (cases "drop ?k cs") auto
  have "pipes u = pipes (upd_pipe p (fold pipe_put (take ?k cs)) s)"
    by (rule full_writer_keeps [OF w(3)]) (use r w(1) d in simp)
  then show ?thesis using pring.bound [OF g] l by (intro exI [of _ ?k]) simp
qed

text \<open>
  C19. A pipe is a stream: in every interleaving of writers and readers, what was in the pipe at the
  start followed by what was stored is what was read followed by what is still in the pipe. No byte is
  lost, duplicated or reordered, also when the 32-bit indices wrap, and the pipe never holds more than
  512 bytes.
\<close>

theorem pipe_stream:
  assumes "pipe_run p s W R t" and "pring.good (pipes s p)"
  shows "pring.contents (pipes s p) @ W = R @ pring.contents (pipes t p) \<and> length (pring.contents (pipes t p)) \<le> PIPESIZE"
proof -
  from assms have "pring.good (pipes t p) \<and> pring.contents (pipes s p) @ W = R @ pring.contents (pipes t p)"
  proof (induction)
    case (writer W R t cs b u c)
    let ?q = "pipes t p"
    from writer have g: "pring.good ?q" by blast
    obtain k where k: "k \<le> length cs" "pipes u p = fold pipe_put (take k cs) ?q" "length (pring.contents ?q) + k \<le> PIPESIZE"
      using writer_stores [OF g writer.hyps(2)] by blast
    have "unat (nwrite (pipes u p) - nwrite ?q) = k"
      using k by (simp add: fold_put_nwrite unat_of_nat)
    moreover have "pring.contents (pipes u p) = pring.contents ?q @ take k cs" "pring.good (pipes u p)"
      using pring.fold_put [OF g, of "take k cs"] k by simp_all
    ultimately show ?case using writer by simp
  next
    case (reader W R t n cs u)
    let ?q = "pipes t p"
    from reader have g: "pring.good ?q" by blast
    have "cs = take n (pring.contents ?q)" "pipes u p = snd (pring.take_out n ?q)"
      using piperead_loop_take [OF g, of n] reader.hyps(2) by auto
    then show ?case using reader pring.take_out [OF g, of n] by simp
  next
    case (other W R t u)
    then show ?case using pring_cong [of "pipes u p" "pipes t p"] by simp
  qed simp
  then show ?thesis using pring.bound by blast
qed

section \<open>Witnesses\<close>

definition demo_pipe :: pipestate where
  "demo_pipe = cstate.extend demo_con (pipestate.fields (\<lambda>_. \<lparr>pdata = replicate PIPESIZE 0, nread = 0xFFFFFFFF,
     nwrite = 0xFFFFFFFF, readopen = True, writeopen = True\<rparr>))"

lemma demo_pipe_ok:
  "held demo_pipe = {}" "cur demo_pipe = Some 0" "ptable demo_pipe = [demo_proc]"
  "pring.good (pipes demo_pipe p)" "pring.contents (pipes demo_pipe p) = []" "readopen (pipes demo_pipe p)" "writeopen (pipes demo_pipe p)"
  by (simp_all add: demo_pipe_def demo_con_def demo_fs_def demo_log_def demo_ready_def demo_cache_def demo_bstate_def
      bstate.defs lstate.defs istate.defs cstate.defs pipestate.defs pring.good_def pring.used_def pring.contents_def)

theorem pipewrite_cases_witness:
  "\<exists>t. pipewrite 7 [1, 2, 3] demo_pipe = Ret 3 t \<and> pring.contents (pipes t 7) = [1, 2, 3]"
  using pipewrite_cases [where s = demo_pipe and p = 7 and i = 0 and cs = "[1, 2, 3]"] demo_pipe_ok by auto

theorem piperead_cases_witness:
  "\<exists>t. piperead 7 5 demo_pipe = Sleep (ChPipeRead 7) t"
  using piperead_cases [where s = demo_pipe and p = 7 and i = 0 and n = 5] demo_pipe_ok by (auto simp: demo_proc_def)

theorem pipe_stream_witness:
  "\<exists>t. pipe_run 7 demo_pipe [1, 2, 3] [1, 2] (t :: pipestate) \<and> pring.contents (pipes t 7) = [3]"
proof -
  have "pipewrite_loop 7 [1, 2, 3] demo_pipe = Ret True (upd_pipe 7 (fold pipe_put [1, 2, 3]) demo_pipe)"
    (is "_ = Ret _ ?u") by (rule pipewrite_loop_fits) (simp_all only: demo_pipe_ok, simp)
  moreover have "unat (nwrite (pipes ?u 7) - nwrite (pipes demo_pipe 7)) = 3" by (simp add: pipe_put_def)
  ultimately have w: "pipe_run 7 demo_pipe [1, 2, 3] [] ?u"
    using pipe_run.writer [OF pipe_run.start [of 7 demo_pipe], where cs = "[1, 2, 3]" and b = True and u = ?u] by simp
  have c: "pring.contents (pipes ?u 7) = [1, 2, 3]" "pring.good (pipes ?u 7)"
    using pring.fold_put [OF demo_pipe_ok(4) [of 7], of "[1, 2, 3]"] demo_pipe_ok by simp_all
  obtain t where "piperead_loop 7 2 ?u = Ret [1, 2] t" using piperead_loop_take [OF c(2), of 2] c(1) by auto
  then have r: "pipe_run 7 demo_pipe [1, 2, 3] [1, 2] t" using pipe_run.reader [OF w] by fastforce
  then show ?thesis using pipe_stream [OF r demo_pipe_ok(4)] demo_pipe_ok by auto
qed

end
