(* ===== verification/File.thy ===== *)
theory File
  imports Pipe
begin

text \<open>
  \<open>file.c\<close> and \<open>pipealloc\<close> of \<open>pipe.c\<close>: the table of open files, their reference counts, and
  reading and writing through a file.
\<close>

section \<open>State\<close>

datatype ftype = FD_NONE | FD_PIPE | FD_INODE

record file_t =
  ftype :: ftype
  fref :: int
  freadable :: bool
  fwritable :: bool
  fpipe :: u32
  fip :: "nat option"
  foff :: u32

record fstate = pipestate +
  ftable :: "file_t list"

definition upd_file :: "nat \<Rightarrow> (file_t \<Rightarrow> file_t) \<Rightarrow> 'z fstate_scheme \<Rightarrow> 'z fstate_scheme" where
  "upd_file i f s = s\<lparr>ftable := (ftable s)[i := f (ftable s ! i)]\<rparr>"

section \<open>Operations\<close>

definition fileinit :: "('z fstate_scheme, unit) km" where
  "fileinit = modK (\<lambda>s. s\<lparr>held := held s - {LkFtable}\<rparr>)"

definition filealloc :: "('z fstate_scheme, nat option) km" where
  "filealloc = thenK (lk_acquire LkFtable) (bindK (getK ftable) (\<lambda>fs.
     case find (\<lambda>i. fref (fs ! i) = 0) [0..<NFILE] of
       Some i \<Rightarrow> thenK (modK (upd_file i (\<lambda>f. f\<lparr>fref := 1\<rparr>)))
        (thenK (lk_release LkFtable) (retK (Some i)))
     | None \<Rightarrow> thenK (lk_release LkFtable) (retK None)))"

definition filedup :: "nat \<Rightarrow> ('z fstate_scheme, nat) km" where
  "filedup i = thenK (lk_acquire LkFtable) (bindK (getK (\<lambda>s. ftable s ! i)) (\<lambda>f.
     thenK (assertK (\<not> fref f < 1) ''filedup'')
    (thenK (modK (upd_file i (\<lambda>f. f\<lparr>fref := fref f + 1\<rparr>)))
    (thenK (lk_release LkFtable) (retK i)))))"

definition fileclose :: "nat \<Rightarrow> ('z fstate_scheme, unit) km" where
  "fileclose i = thenK (lk_acquire LkFtable) (bindK (getK (\<lambda>s. ftable s ! i)) (\<lambda>f.
     thenK (assertK (\<not> fref f < 1) ''fileclose'')
    (thenK (modK (upd_file i (\<lambda>f. f\<lparr>fref := fref f - 1\<rparr>)))
    (bindK (getK (\<lambda>s. ftable s ! i)) (\<lambda>ff.
     if fref ff > 0 then lk_release LkFtable
     else thenK (modK (upd_file i (\<lambda>f. f\<lparr>fref := 0, ftype := FD_NONE\<rparr>)))
       (thenK (lk_release LkFtable)
       (if ftype ff = FD_PIPE then pipeclose (fpipe ff) (fwritable ff)
        else if ftype ff = FD_INODE then
          thenK begin_op (thenK (case fip ff of None \<Rightarrow> panicK ''trap'' | Some ip \<Rightarrow> iput ip) end_op)
        else retK ())))))))"

definition filestat :: "nat \<Rightarrow> ('z fstate_scheme, int \<times> stat option) km" where
  "filestat i = bindK (getK (\<lambda>s. ftable s ! i)) (\<lambda>f.
     if ftype f = FD_INODE then
       thenK (ilock (fip f))
      (bindK (stati (the (fip f))) (\<lambda>st.
       thenK (iunlock (fip f)) (retK (0, Some st))))
     else retK (-1, None))"

text \<open>\<open>fileread\<close>: the count and the bytes it stores at \<open>addr\<close>.\<close>

definition fileread :: "nat \<Rightarrow> int \<Rightarrow> ('z fstate_scheme, int \<times> u8 list) km" where
  "fileread i n = bindK (getK (\<lambda>s. ftable s ! i)) (\<lambda>f.
     if \<not> freadable f then retK (-1, [])
     else if ftype f = FD_PIPE then piperead (fpipe f) n
     else if ftype f = FD_INODE then
       thenK (ilock (fip f))
      (bindK (readi devsw_table (the (fip f)) (foff f) (word_of_int n)) (\<lambda>(r, cs).
       thenK (whenK (r > 0) (modK (upd_file i (\<lambda>f. f\<lparr>foff := foff f + word_of_int r\<rparr>))))
      (thenK (iunlock (fip f)) (retK (r, cs)))))
     else panicK ''fileread'')"

definition filewrite_max :: nat where
  "filewrite_max = ((MAXOPBLOCKS - 1 - 1 - 2) div 2) * 512"

lemma filewrite_max_val: "filewrite_max = 1536"
  by (simp add: filewrite_max_def)

text \<open>The loop of \<open>filewrite\<close> over the bytes not yet written: whether all were.\<close>

function filewrite_loop :: "nat \<Rightarrow> u8 list \<Rightarrow> ('z fstate_scheme, bool) km" where
  "filewrite_loop i src = (if src = [] then retK True else
     (let n1 = min (length src) filewrite_max in
      thenK begin_op (bindK (getK (\<lambda>s. ftable s ! i)) (\<lambda>f.
      thenK (ilock (fip f))
     (bindK (writei devsw_table (the (fip f)) (take n1 src) (foff f)) (\<lambda>r.
      thenK (whenK (r > 0) (modK (upd_file i (\<lambda>f. f\<lparr>foff := foff f + word_of_int r\<rparr>))))
     (thenK (iunlock (fip f))
     (thenK end_op
     (if r < 0 then retK False
      else thenK (assertK (\<not> r \<noteq> int n1) ''short filewrite'')
        (filewrite_loop i (drop n1 src)))))))))))"
  by pat_completeness auto
termination
  by (relation "measure (\<lambda>(i, src). length src)") (auto simp: filewrite_max_val)

declare filewrite_loop.simps [simp del]

definition filewrite :: "nat \<Rightarrow> u8 list \<Rightarrow> ('z fstate_scheme, int) km" where
  "filewrite i src = bindK (getK (\<lambda>s. ftable s ! i)) (\<lambda>f.
     if \<not> fwritable f then retK (-1)
     else if ftype f = FD_PIPE then pipewrite (fpipe f) src
     else if ftype f = FD_INODE then
       bindK (filewrite_loop i src) (\<lambda>ok. retK (if ok then int (length src) else -1))
     else panicK ''filewrite'')"

text \<open>
  \<open>pipealloc\<close>: the two files, or the label \<open>bad\<close>, where the page is never set: both jumps come
  before or at the failing \<open>kalloc\<close>.
\<close>

definition pipealloc_bad :: "nat option \<Rightarrow> nat option \<Rightarrow> ('z fstate_scheme, (nat \<times> nat) option) km" where
  "pipealloc_bad f0 f1 =
     thenK (case f0 of None \<Rightarrow> retK () | Some i \<Rightarrow> fileclose i)
    (thenK (case f1 of None \<Rightarrow> retK () | Some i \<Rightarrow> fileclose i)
     (retK None))"

definition pipealloc :: "('z fstate_scheme, (nat \<times> nat) option) km" where
  "pipealloc = bindK filealloc (\<lambda>f0. case f0 of None \<Rightarrow> pipealloc_bad None None | Some i0 \<Rightarrow>
     bindK filealloc (\<lambda>f1. case f1 of None \<Rightarrow> pipealloc_bad f0 None | Some i1 \<Rightarrow>
     bindK kalloc (\<lambda>p. if p = 0 then pipealloc_bad f0 f1 else
       thenK (modK (upd_pipe p (\<lambda>q. q\<lparr>readopen := True, writeopen := True, nwrite := 0, nread := 0\<rparr>)))
      (thenK (modK (\<lambda>s. s\<lparr>held := held s - {LkPipe p}\<rparr>))
      (thenK (modK (upd_file i0 (\<lambda>f. f\<lparr>ftype := FD_PIPE, freadable := True, fwritable := False, fpipe := p\<rparr>)))
      (thenK (modK (upd_file i1 (\<lambda>f. f\<lparr>ftype := FD_PIPE, freadable := False, fwritable := True, fpipe := p\<rparr>)))
       (retK (Some (i0, i1)))))))))"

end
