(* ===== verification/Durable.thy ===== *)
theory Durable
  imports Contents File
begin

text \<open>
  Writing through an open file: \<open>filewrite\<close> cuts the bytes into pieces that fit the log and makes each
  a transaction. The lemmas carry a file through \<open>begin_op\<close>, \<open>ilock\<close>, \<open>writei\<close>, \<open>iunlock\<close> and \<open>end_op\<close>.
\<close>

section \<open>States with the same files\<close>

definition fs_like :: "'z istate_scheme \<Rightarrow> 'z istate_scheme \<Rightarrow> bool" where
  "fs_like s t \<longleftrightarrow> (\<forall>n. \<not> in_log s n \<longrightarrow> blk t 1 n = blk s 1 n) \<and> sb t = sb s \<and> inodes t = inodes s \<and>
     in_log t = in_log s \<and> key_ok t = key_ok s"

lemma fs_like_trans: "fs_like s t \<Longrightarrow> fs_like t u \<Longrightarrow> fs_like s u"
  by (simp add: fs_like_def)

lemma same_view_like: "same_view s t \<Longrightarrow> fs_like s t"
  using same_view_fs [of s t] log_bframe(3) [of s t] key_ok_bframe [of s t] by (simp add: fs_like_def same_view_def fun_eq_iff)

lemma like_stored:
  assumes s: "stored s i" and l: "fs_like s t" and tx: "txn t []"
  shows "stored t i" "\<And>k. k < MAXFILE * BSIZE \<Longrightarrow> fbyte t i k = fbyte s i k" "free_blocks t = free_blocks s"
    "\<And>n. foreign s i n \<Longrightarrow> foreign t i n" "fcost t i = fcost s i"
    "\<And>m. unat m < unat (sb_ninodes (sb s)) \<Longrightarrow> dnode (blk t 1) (sb s) m = dnode (blk s 1) (sb s) m"
proof -
  note d = storedD [OF s]
  have e: "sb t = sb s" "inodes t = inodes s" "in_log t = in_log s" "key_ok t = key_ok s" "\<And>n. \<not> in_log s n \<Longrightarrow> blk t 1 n = blk s 1 n"
    using l by (simp_all add: fs_like_def)
  have m: "is_bitmap t = is_bitmap s" "is_iblock t = is_iblock s" "data_block t = data_block s"
    using e by (simp_all add: is_bitmap_def is_iblock_def data_block_def fun_eq_iff)
  have us: "used t n = used s n" if "unat n < fssize s" for n
    using geoD(4) [OF volD(2) [OF d(1)] bitmapI [OF that]] e by (simp add: used_def)
  have g: "geo t" using volD(2) [OF d(1)] us e unfolding geo_def e m by (simp, blast)
  have v: "vol t" using g tx volD(3) [OF d(1)] e by (simp add: vol_def)
  have o: "owns s a \<Longrightarrow> owns t a \<and> blk t 1 a = blk s 1 a" for a using owns_neq [OF d(1)] us e by (simp add: owns_def m)
  have ba: "baddr t i = baddr s i" using o file_okD(4) [OF d(2)] e by (auto simp: baddr_def fun_eq_iff)
  have fo: "file_ok t i" using d(2) o unfolding file_ok_def ba e by blast
  have ib: "blk t 1 (IBLOCK m (sb s)) = blk s 1 (IBLOCK m (sb s))" if "unat m < unat (sb_ninodes (sb s))" for m
    using geoD(7) [OF volD(2) [OF d(1)]] that by (intro e) (auto simp: is_iblock_def)
  then show "dnode (blk t 1) (sb s) m = dnode (blk s 1) (sb s) m" if "unat m < unat (sb_ninodes (sb s))" for m
    using that by (simp add: dnode_def)
  have "synced t i" using d(7) ib [OF d(4)] e by (simp add: synced_def)
  then show "stored t i" using d v fo e ba by (simp add: stored_def)
  show "fbyte t i k = fbyte s i k" if "k < MAXFILE * BSIZE" for k
    using o file_okD(5) [OF d(2), of "k div BSIZE"] that by (auto simp: fbyte_def ba less_mult_imp_div_less)
  show "free_blocks t = free_blocks s" using us e by (auto simp: free_blocks_def)
  show "foreign s i n \<Longrightarrow> foreign t i n" for n using us e by (auto simp: foreign_def owned_def ba)
  show "fcost t i = fcost s i" by (simp add: fcost_def e)
qed

section \<open>Locking an inode\<close>

text \<open>Changing sleep locks that are not of buffers, and waking processes, is no step for the cache.\<close>

lemma lock_view:
  assumes "bst s H" "wakes (ptable s) p" "\<And>b. f (SlkBuf b) = slocks s (SlkBuf b)"
  defines "t \<equiv> s\<lparr>slocks := f, ptable := p\<rparr>"
  shows "bst t H" "blk t = blk s" "dirty t = dirty s" "dsk t = dsk s" "curpid t = curpid s" "quiet t"
proof -
  let ?u = "s\<lparr>ptable := p\<rparr>"
  have "bframe s ?u" using assms(2) by (simp add: bframe_def)
  then have q: "quiet ?u" "curpid ?u = curpid s" using quiet_bframe bst_parts(5) [OF assms(1)] by blast+
  then show q': "quiet t" "curpid t = curpid s" by (simp_all add: quiet_def curpid_def t_def)
  show d: "dsk t = dsk s" by (rule disk_cong) (simp_all add: t_def)
  show "blk t = blk s" "dirty t = dirty s" using d by (simp_all add: blk_def [abs_def] dirty_def t_def)
  show "bst t H" using assms(1,3) q' d by (simp add: bst_def binv_def mine_def t_def)
qed

lemma lock_like:
  fixes s :: "'z istate_scheme"
  assumes "txn s []" "wakes (ptable s) p" "\<And>b. f (SlkBuf b) = slocks s (SlkBuf b)"
  defines "t \<equiv> s\<lparr>slocks := f, ptable := p\<rparr>"
  shows "txn t []" "fs_like s t" "curpid t = curpid s" "lh_n t = lh_n s" "outstanding t = outstanding s" "committing t = committing s"
proof -
  have b: "bst s []" using assms(1) by (simp add: txn_def)
  note v = lock_view [OF b assms(2,3), folded t_def]
  have k: "in_log t = in_log s" "key_ok t = key_ok s" by (simp_all add: in_log_def key_ok_def t_def fun_eq_iff)
  have "lgeo t = lgeo s" "lhdr t = lhdr s" by (simp_all add: lgeo_def lhdr_def k) (simp_all add: t_def)
  then show "txn t []" using assms(1) v by (simp add: txn_def) (simp add: t_def)
  show "fs_like s t" using v k by (simp add: fs_like_def) (simp add: t_def)
  show "curpid t = curpid s" by (rule v(5))
qed (simp_all add: t_def)

lemma ilock_valid:
  assumes "txn s []" "ivalid (ino i s)" "1 \<le> iref (ino i s)" "\<not> locked (slocks s (SlkInode i))"
  shows "ilock (Some i) s = Ret () (s\<lparr>slocks := (slocks s)(SlkInode i := \<lparr>locked = True, slpid = curpid s\<rparr>)\<rparr>)"
proof -
  have "held s = {}" "\<exists>p. cur s = Some p" using bst_parts(8,9) [of s "[]"] assms(1) by (simp_all add: txn_def)
  then show ?thesis using assms(2-4) by (auto simp: ilock_def km_simps)
qed

lemma iunlock_mine:
  assumes "txn s []" "1 \<le> iref (ino i s)" "locked (slocks s (SlkInode i))" "slpid (slocks s (SlkInode i)) = curpid s"
  shows "iunlock (Some i) s = Ret () (s\<lparr>slocks := (slocks s)(SlkInode i := \<lparr>locked = False, slpid = 0\<rparr>),
    ptable := map (wakeup_proc (ChSlk (SlkInode i))) (ptable s)\<rparr>)"
proof -
  have "held s = {}" "\<exists>p. cur s = Some p" using bst_parts(8,9) [of s "[]"] assms(1) by (simp_all add: txn_def)
  then obtain p where h: "held s = {}" "cur s = Some p" by blast
  have "holdingsleep (SlkInode i) s = Ret True s" using assms h by (simp add: ret_iff)
  moreover have "releasesleep (SlkInode i) s = Ret () (s\<lparr>slocks := (slocks s)(SlkInode i := \<lparr>locked = False, slpid = 0\<rparr>),
    ptable := map (wakeup_proc (ChSlk (SlkInode i))) (ptable s)\<rparr>)" using h by (simp add: ret_iff)
  ultimately show ?thesis using assms(2) by (simp add: iunlock_def bindK_def thenK_def km_simps)
qed

section \<open>One transaction\<close>

lemma out_simps [simp]:
  "is_bitmap (s\<lparr>outstanding := x\<rparr>) = is_bitmap s" "used (s\<lparr>outstanding := x\<rparr>) = used s" "baddr (s\<lparr>outstanding := x\<rparr>) = baddr s"
  "fbyte (s\<lparr>outstanding := x\<rparr>) = fbyte s" "free_blocks (s\<lparr>outstanding := x\<rparr>) = free_blocks s" "fcost (s\<lparr>outstanding := x\<rparr>) = fcost s"
  "foreign (s\<lparr>outstanding := x\<rparr>) = foreign s" "other_file (s\<lparr>outstanding := x\<rparr>) = other_file s" "is_iblock (s\<lparr>outstanding := x\<rparr>) = is_iblock s"
  by (simp_all add: is_bitmap_def is_iblock_def used_def baddr_def fbyte_def free_blocks_def fcost_def foreign_def owned_def other_file_def
      owns_def data_block_def fun_eq_iff)

text \<open>What of an inode and of the other inodes a write keeps.\<close>

definition kept :: "'z istate_scheme \<Rightarrow> 'z istate_scheme \<Rightarrow> nat \<Rightarrow> bool" where
  "kept s t i \<longleftrightarrow> sb t = sb s \<and> in_log t = in_log s \<and> inum (ino i t) = inum (ino i s) \<and> itype (ino i t) = itype (ino i s) \<and>
     imajor (ino i t) = imajor (ino i s) \<and> iminor (ino i t) = iminor (ino i s) \<and> nlink (ino i t) = nlink (ino i s) \<and>
     (\<forall>m. unat m < unat (sb_ninodes (sb s)) \<and> m \<noteq> inum (ino i s) \<longrightarrow> dnode (blk t 1) (sb s) m = dnode (blk s 1) (sb s) m)"

lemma kept_refl: "kept s s i"
  by (simp add: kept_def)

lemma kept_trans: "kept s t i \<Longrightarrow> kept t u i \<Longrightarrow> kept s u i"
  by (simp add: kept_def)

lemma lframe_curpid:
  assumes "quiet s" "lframe s t"
  shows "curpid t = curpid s"
proof -
  obtain m bl where f: "bframe (s\<lparr>lh_block := bl, lh_n := m\<rparr>) t" using assms(2) by (auto simp: lframe_def)
  have "quiet (s\<lparr>lh_block := bl, lh_n := m\<rparr>)" using assms(1) by (simp add: quiet_def)
  then show ?thesis using quiet_bframe(2) [OF _ f] by (simp add: curpid_def)
qed

text \<open>Inode \<open>i\<close> between system calls: no transaction is open, the log is empty, the inode is loaded and unlocked.\<close>

definition resting :: "'z istate_scheme \<Rightarrow> nat \<Rightarrow> bool" where
  "resting s i \<longleftrightarrow> \<not> committing s \<and> outstanding s = 0 \<and> lh_n s = 0 \<and> stored (s\<lparr>outstanding := 1\<rparr>) i \<and>
     ivalid (ino i s) \<and> 1 \<le> iref (ino i s) \<and> \<not> locked (slocks s (SlkInode i))"

lemma dsk_file [simp]: "dsk (s\<lparr>ftable := x\<rparr>) = dsk s"
  by (auto simp: dsk_def disk_def fun_eq_iff)

lemma file_simps [simp]:
  "blk (s\<lparr>ftable := x\<rparr>) = blk s" "dirty (s\<lparr>ftable := x\<rparr>) = dirty s" "in_log (s\<lparr>ftable := x\<rparr>) = in_log s"
  "key_ok (s\<lparr>ftable := x\<rparr>) = key_ok s" "bst (s\<lparr>ftable := x\<rparr>) H = bst s H"
  by (auto simp: blk_def dirty_def in_log_def key_ok_def bst_def binv_def mine_def quiet_def curpid_def fun_eq_iff)

lemma txn_file [simp]: "txn (s\<lparr>ftable := x\<rparr>) H = txn s H"
  by (simp add: txn_def lgeo_def lhdr_def)

lemma file_like: "fs_like s (s\<lparr>ftable := x\<rparr>)"
  by (simp add: fs_like_def)

lemma more_ftable: "istate.more t = istate.more s \<Longrightarrow> ftable t = ftable s"
  by (cases s; cases t; simp)

definition wchunk :: "nat \<Rightarrow> u8 list \<Rightarrow> ('z fstate_scheme, int) km" where
  "wchunk f src = thenK begin_op (bindK (getK (\<lambda>s. ftable s ! f)) (\<lambda>fl.
     thenK (ilock (fip fl))
    (bindK (writei devsw_table (the (fip fl)) src (foff fl)) (\<lambda>r.
     thenK (whenK (r > 0) (modK (upd_file f (\<lambda>f. f\<lparr>foff := foff f + word_of_int r\<rparr>))))
    (thenK (iunlock (fip fl))
    (thenK end_op (retK r)))))))"

lemma thenK_assoc: "thenK (thenK m n) k = thenK m (thenK n k)"
  by (simp add: thenK_def bindK_assoc)

lemma bindK_thenK: "thenK (bindK m f) n = bindK m (\<lambda>a. thenK (f a) n)"
  by (simp add: thenK_def bindK_assoc)

lemma filewrite_loop_chunk:
  assumes "src \<noteq> []"
  shows "filewrite_loop f src = bindK (wchunk f (take filewrite_max src)) (\<lambda>r. if r < 0 then retK False
    else thenK (assertK (\<not> r \<noteq> int (min (length src) filewrite_max)) ''short filewrite'') (filewrite_loop f (drop filewrite_max src)))"
proof -
  have m: "take (min (length src) filewrite_max) src = take filewrite_max src" "drop (min (length src) filewrite_max) src = drop filewrite_max src"
    by (simp_all add: min_def)
  show ?thesis using assms
    by (subst filewrite_loop.simps) (simp add: wchunk_def Let_def m bindK_assoc thenK_bindK cong: if_cong)
qed

lemma begin_op_idle:
  assumes "\<not> committing s" "outstanding s = 0" "lh_n s = 0" "held s = {}"
  shows "begin_op s = Ret () (s\<lparr>outstanding := 1\<rparr>)"
proof -
  have "s\<lparr>outstanding := 1, held := {}\<rparr> = s\<lparr>outstanding := 1\<rparr>" using assms(4) by (simp add: lstate.equality)
  then show ?thesis using assms by (simp add: begin_op_def km_simps lk_defs)
qed

lemma nblk_small: "n \<le> filewrite_max \<Longrightarrow> nblk off n \<le> 4"
proof -
  assume "n \<le> filewrite_max"
  then have "off mod BSIZE + n + 511 \<le> 4 * BSIZE + 511" using mod_less_divisor [of BSIZE off] by (simp add: filewrite_max_val)
  then have "(off mod BSIZE + n + 511) div BSIZE \<le> (4 * BSIZE + 511) div BSIZE" by (rule div_le_mono)
  then show ?thesis by (simp add: nblk_def)
qed

lemma end_op_rests:
  fixes s :: "'z istate_scheme"
  assumes tx: "txn s []" "outstanding s = 1" "\<not> committing s"
  shows "\<exists>t. end_op s = Ret () t \<and> lframe (s\<lparr>outstanding := 0\<rparr>) t \<and> lh_n t = 0 \<and> txn (t\<lparr>outstanding := 1\<rparr>) [] \<and>
    fs_like s (t\<lparr>outstanding := 1\<rparr>) \<and> dirty t = {}"
proof -
  have l: "ltx s" using tx(1) by (simp add: ltx_def txn_def)
  obtain t where t: "end_op s = Ret () t" "bst t []" "dirty t = {}" "bframe (s\<lparr>outstanding := 0, lh_n := 0\<rparr>) t" "same_files s (blk t) (blk s)"
    using end_op_ok [OF l tx(2,3)] by blast
  note g = bframe_log [OF t(4)] and k = key_ok_bframe [OF t(4)] and i = log_bframe(3) [OF t(4)]
  have f: "lframe (s\<lparr>outstanding := 0\<rparr>) t" unfolding lframe_def
    by (intro exI [of _ 0] exI [of _ "lh_block s"]) (use t(4) in simp)
  note li = lframe_istate [OF f]
  have "in_log t = in_log s" "key_ok t = key_ok s" using i k by (simp_all add: in_log_def key_ok_def fun_eq_iff)
  then have "fs_like s (t\<lparr>outstanding := 1\<rparr>)" using t(5) li by (simp add: fs_like_def same_files_def)
  moreover have "txn (t\<lparr>outstanding := 1\<rparr>) []"
    using t(2,3) tx(1) g \<open>in_log t = in_log s\<close> \<open>key_ok t = key_ok s\<close> by (simp add: txn_def lgeo_def lhdr_def)
  ultimately show ?thesis using t(1,3) f g by (intro exI [of _ t]) simp
qed

lemma wchunk_ok:
  assumes r: "resting s i" and f: "f < length (ftable s)" "fip (ftable s ! f) = Some i"
    and o: "unat (foff (ftable s ! f)) \<le> unat (isize (ino i s))" "unat (foff (ftable s ! f)) + length src \<le> MAXFILE * BSIZE"
    and n: "src \<noteq> []" "length src \<le> filewrite_max" and fr: "fcost s i + 4 + m \<le> card (free_blocks s)"
  defines "off \<equiv> unat (foff (ftable s ! f))"
  shows "\<exists>t. wchunk f src s = Ret (int (length src)) t \<and> resting t i \<and> dirty t = {} \<and>
    ftable t = (ftable s)[f := (ftable s ! f)\<lparr>foff := foff (ftable s ! f) + of_nat (length src)\<rparr>] \<and>
    unat (isize (ino i t)) = max (unat (isize (ino i s))) (off + length src) \<and>
    (\<forall>k < MAXFILE * BSIZE. fbyte t i k = (if off \<le> k \<and> k < off + length src then src ! (k - off) else fbyte s i k)) \<and>
    fcost t i + m \<le> card (free_blocks t) \<and> kept s t i \<and>
    (\<forall>n. foreign s i n \<longrightarrow> foreign t i n \<and> (\<not> in_log s n \<and> n \<noteq> IBLOCK (inum (ino i s)) (sb s) \<longrightarrow> blk t 1 n = blk s 1 n))"
proof -
  let ?s = "s\<lparr>outstanding := 1\<rparr>" and ?F = "ftable s ! f"
  have s: "\<not> committing s" "outstanding s = 0" "lh_n s = 0" "stored ?s i" "ivalid (ino i s)" "1 \<le> iref (ino i s)"
    "\<not> locked (slocks s (SlkInode i))" using r by (simp_all add: resting_def)
  have tx: "txn ?s []" by (rule volD(1) [OF storedD(1) [OF s(4)]])
  then have "held ?s = {}" using bst_parts(8) [of ?s "[]"] unfolding txn_def by blast
  then have b: "begin_op s = Ret () ?s" using begin_op_idle s by simp
  define s1 where "s1 = ?s\<lparr>slocks := (slocks s)(SlkInode i := \<lparr>locked = True, slpid = curpid ?s\<rparr>)\<rparr>"
  have il: "ilock (Some i) ?s = Ret () s1" using ilock_valid [OF tx, of i] s(5-7) by (simp add: s1_def)
  have L1: "txn s1 []" "fs_like ?s s1" "curpid s1 = curpid ?s" "lh_n s1 = lh_n s" "outstanding s1 = 1" "committing s1 = committing s"
    using lock_like [OF tx, of "ptable s" "(slocks s)(SlkInode i := \<lparr>locked = True, slpid = curpid ?s\<rparr>)"]
    by (simp_all add: s1_def)
  note S1 = like_stored [OF s(4) L1(2,1)]
  have in1: "inodes s1 = inodes s" "ftable s1 = ftable s" "sb s1 = sb s" by (simp_all add: s1_def)
  have "lcost s1 i \<le> nat (lh_n s1) + 2" by (rule lcost_le [OF L1(1)])
  then have c: "lcost s1 i + nblk off (length src) \<le> 28" using nblk_small [OF n(2), of off] L1(4) s(3) by simp
  have fc: "fcost s1 i + nblk off (length src) + (4 - nblk off (length src) + m) \<le> card (free_blocks s1)"
    using fr nblk_small [OF n(2), of off] S1(3,5) by simp
  obtain s2 where s2: "writei devsw_table i src (foff ?F) s1 = Ret (int (length src)) s2" "stored s2 i" "fframe i s1 s2"
    "unat (isize (ino i s2)) = grown s1 i (off + length src)"
    "\<forall>k < MAXFILE * BSIZE. fbyte s2 i k = (if off \<le> k \<and> k < off + length src then src ! (k - off) else fbyte s1 i k)"
    "\<forall>n. foreign s1 i n \<and> n \<noteq> IBLOCK (inum (ino i s1)) (sb s1) \<longrightarrow> blk s2 1 n = blk s1 1 n"
    "\<forall>k. fcost s1 i + nblk off (length src) + k \<le> card (free_blocks s1) \<longrightarrow> fcost s2 i + k \<le> card (free_blocks s2)"
    "\<forall>n. foreign s1 i n \<longrightarrow> foreign s2 i n"
    "\<forall>m. unat m < unat (sb_ninodes (sb s1)) \<and> m \<noteq> inum (ino i s1) \<longrightarrow> dnode (blk s2 1) (sb s1) m = dnode (blk s1 1) (sb s1) m"
    using writei_ok [OF S1(1) _ _ _ _, of "foff ?F" src devsw_table] o c fc in1 unfolding off_def by auto
  have tx2: "txn s2 []" by (rule volD(1) [OF storedD(1) [OF s2(2)]])
  have lf: "lframe (s1\<lparr>inodes := inodes s2\<rparr>) s2" using s2(3) by (simp add: fframe_def)
  note l2 = lframe_fields [OF lf] and g2 = fframe_fields [OF s2(3)]
  have q1: "quiet s1" using L1(1) bst_parts(5) unfolding txn_def by blast
  have "quiet (s1\<lparr>inodes := inodes s2\<rparr>)" using q1 by (simp add: quiet_def)
  then have cp: "curpid s2 = curpid s1" using lframe_curpid [OF _ lf] by (simp add: curpid_def)
  have "slocks s2 (SlkInode i) = slocks s1 (SlkInode i)" using l2(13) [of "SlkInode i"] by simp
  then have lk: "locked (slocks s2 (SlkInode i))" "slpid (slocks s2 (SlkInode i)) = curpid s2"
    using cp L1(3) by (simp_all add: s1_def)
  have "istate.more s2 = istate.more s1" by (rule g2(2))
  then have ft: "ftable s2 = ftable s" using more_ftable in1(2) by metis
  have iv: "iref (ino i s2) = iref (ino i s)" "ivalid (ino i s2) = ivalid (ino i s)"
    using s2(3) in1(1) by (auto simp: fframe_def file_okD(1) [OF storedD(2) [OF S1(1)], unfolded in1(1)])
  let ?ft = "(ftable s)[f := ?F\<lparr>foff := foff ?F + of_nat (length src)\<rparr>]"
  define s3 where "s3 = s2\<lparr>ftable := ?ft\<rparr>"
  have u3: "upd_file f (\<lambda>f. f\<lparr>foff := foff f + word_of_int (int (length src))\<rparr>) s2 = s3" by (simp add: upd_file_def s3_def ft)
  have tx3: "txn s3 []" using tx2 by (simp add: s3_def)
  define s4 where "s4 = s3\<lparr>slocks := (slocks s3)(SlkInode i := \<lparr>locked = False, slpid = 0\<rparr>),
    ptable := map (wakeup_proc (ChSlk (SlkInode i))) (ptable s3)\<rparr>"
  have lk3: "1 \<le> iref (ino i s3)" "locked (slocks s3 (SlkInode i))" "slpid (slocks s3 (SlkInode i)) = curpid s3"
    using lk iv s(6) by (simp_all add: s3_def curpid_def)
  have iu: "iunlock (Some i) s3 = Ret () s4" unfolding s4_def by (rule iunlock_mine [OF tx3 lk3])
  have L4: "txn s4 []" "fs_like s3 s4" "lh_n s4 = lh_n s3" "outstanding s4 = outstanding s3" "committing s4 = committing s3"
    using lock_like [OF tx3 wakes_wakeup, of "(slocks s3)(SlkInode i := \<lparr>locked = False, slpid = 0\<rparr>)"] by (simp_all add: s4_def)
  have oc: "outstanding s4 = 1" "\<not> committing s4" using L4(4,5) l2(3,4) L1(5,6) s(1) by (simp_all add: s3_def)
  obtain t where t: "end_op s4 = Ret () t" "lframe (s4\<lparr>outstanding := 0\<rparr>) t" "lh_n t = 0" "txn (t\<lparr>outstanding := 1\<rparr>) []"
    "fs_like s4 (t\<lparr>outstanding := 1\<rparr>)" "dirty t = {}"
    using end_op_rests [OF L4(1) oc] by blast
  have like: "fs_like s2 (t\<lparr>outstanding := 1\<rparr>)"
    using fs_like_trans [OF fs_like_trans [OF file_like L4(2) [unfolded s3_def]]] t(5) by (simp add: s3_def)
  note T = like_stored [OF s2(2) like t(4), simplified]
  have e: "inodes t = inodes s2" "sb t = sb s" "in_log t = in_log s" "\<And>n. \<not> in_log s n \<Longrightarrow> blk t 1 n = blk s2 1 n"
    using like g2(1,6) in1(3) L1(2) by (simp_all add: fs_like_def)
  note lt = lframe_fields [OF t(2)] and it = lframe_istate [OF t(2)]
  have ftt: "ftable t = ?ft" using more_ftable [OF it(3)] by (simp add: s4_def s3_def)
  have "slocks t (SlkInode i) = slocks s4 (SlkInode i)" using lt(13) [of "SlkInode i"] by simp
  then have "resting t i" using lt(3,4) oc(2) t(3) T(1) iv e(1) s(5,6) by (simp add: resting_def s4_def)
  moreover have "wchunk f src s = Ret (int (length src)) t"
    using b f(2) il s2(1) u3 iu t(1) n(1) in1(2) by (simp add: wchunk_def km_simps)
  moreover have "unat (isize (ino i t)) = max (unat (isize (ino i s))) (off + length src)" using s2(4) e(1) in1(1) by (simp add: grown_def)
  moreover have "fbyte t i k = (if off \<le> k \<and> k < off + length src then src ! (k - off) else fbyte s i k)" if "k < MAXFILE * BSIZE" for k
    using T(2) s2(5) S1(2) that by simp
  moreover have "fcost t i + m \<le> card (free_blocks t)" using s2(7) [rule_format, OF fc] T(3,5) by simp
  moreover have "kept s t i"
    using e(1-3) g2(1,11,12,14-16) in1(1,3) s2(9) S1(6) T(6) by (simp add: kept_def)
  moreover have "foreign t i n \<and> (\<not> in_log s n \<and> n \<noteq> IBLOCK (inum (ino i s)) (sb s) \<longrightarrow> blk t 1 n = blk s 1 n)" if n: "foreign s i n" for n
  proof -
    have "foreign s1 i n" using S1(4) n by simp
    moreover have "\<not> in_log s n \<Longrightarrow> blk s1 1 n = blk s 1 n" using L1(2) by (simp add: fs_like_def)
    ultimately show ?thesis using s2(6,8) T(4) e(4) in1 by simp
  qed
  ultimately show ?thesis using ftt t(6) by blast
qed

section \<open>The whole write\<close>

lemma resting_clean: "resting s i \<Longrightarrow> blk s = dsk s"
proof -
  assume r: "resting s i"
  then have "txn (s\<lparr>outstanding := 1\<rparr>) []" using volD(1) storedD(1) by (auto simp: resting_def)
  then have "bst s []" "dirty s = {}" using r by (simp_all add: txn_def resting_def)
  then show ?thesis by (rule bst_clean)
qed

text \<open>What a write of \<open>src\<close> at the offset of file \<open>f\<close> leaves.\<close>

definition written_to :: "nat \<Rightarrow> nat \<Rightarrow> u8 list \<Rightarrow> 'z fstate_scheme \<Rightarrow> 'z fstate_scheme \<Rightarrow> bool" where
  "written_to f i src s t \<longleftrightarrow> resting t i \<and>
     ftable t = (ftable s)[f := (ftable s ! f)\<lparr>foff := foff (ftable s ! f) + of_nat (length src)\<rparr>] \<and>
     unat (isize (ino i t)) = max (unat (isize (ino i s))) (unat (foff (ftable s ! f)) + length src) \<and>
     (\<forall>k < MAXFILE * BSIZE. fbyte t i k = (if unat (foff (ftable s ! f)) \<le> k \<and> k < unat (foff (ftable s ! f)) + length src
        then src ! (k - unat (foff (ftable s ! f))) else fbyte s i k)) \<and>
     kept s t i \<and>
     (\<forall>n. foreign s i n \<longrightarrow> foreign t i n \<and> (\<not> in_log s n \<and> n \<noteq> IBLOCK (inum (ino i s)) (sb s) \<longrightarrow> blk t 1 n = blk s 1 n))"

lemma written_to_append:
  assumes a: "written_to f i xs s t" and b: "written_to f i ys t u" and f: "f < length (ftable s)"
    and o: "unat (foff (ftable s ! f)) \<le> unat (isize (ino i s))" "unat (foff (ftable s ! f)) + length xs < 4294967296"
  shows "written_to f i (xs @ ys) s u"
proof -
  let ?o = "unat (foff (ftable s ! f))"
  have ft: "foff (ftable t ! f) = foff (ftable s ! f) + of_nat (length xs)" using a f by (simp add: written_to_def)
  have o': "unat (foff (ftable t ! f)) = ?o + length xs" unfolding ft by (rule off_plus [OF o(2)])
  have "ftable u = (ftable s)[f := (ftable s ! f)\<lparr>foff := foff (ftable s ! f) + of_nat (length (xs @ ys))\<rparr>]"
    using a b f by (simp add: written_to_def add.assoc)
  moreover have "unat (isize (ino i u)) = max (unat (isize (ino i s))) (?o + length (xs @ ys))"
    using a b o o' by (simp add: written_to_def)
  moreover have "fbyte u i k = (if ?o \<le> k \<and> k < ?o + length (xs @ ys) then (xs @ ys) ! (k - ?o) else fbyte s i k)" if k: "k < MAXFILE * BSIZE" for k
  proof -
    have "fbyte u i k = (if ?o + length xs \<le> k \<and> k < ?o + length xs + length ys then ys ! (k - (?o + length xs)) else fbyte t i k)"
      using b k o' by (simp add: written_to_def)
    moreover have "fbyte t i k = (if ?o \<le> k \<and> k < ?o + length xs then xs ! (k - ?o) else fbyte s i k)" using a k by (simp add: written_to_def)
    ultimately show ?thesis by (auto simp: nth_append)
  qed
  moreover have k: "kept s t i" "kept s u i" "resting u i" using a b kept_trans [of s t i u] by (simp_all add: written_to_def)
  moreover have "foreign u i n \<and> (\<not> in_log s n \<and> n \<noteq> IBLOCK (inum (ino i s)) (sb s) \<longrightarrow> blk u 1 n = blk s 1 n)" if "foreign s i n" for n
    using a b that k(1) by (simp add: written_to_def kept_def)
  ultimately show ?thesis unfolding written_to_def by blast
qed

lemma filewrite_loop_ok:
  assumes "resting s i" "f < length (ftable s)" "fip (ftable s ! f) = Some i"
    and "unat (foff (ftable s ! f)) \<le> unat (isize (ino i s))" "unat (foff (ftable s ! f)) + length src \<le> MAXFILE * BSIZE"
    and "fcost s i + 4 * ((length src + 1535) div 1536) \<le> card (free_blocks s)"
  shows "\<exists>t. filewrite_loop f src s = Ret True t \<and> written_to f i src s t"
  using assms
proof (induction "length src" arbitrary: src s rule: less_induct)
  case less
  show ?case
  proof (cases "src = []")
    case True
    have "filewrite_loop f src s = Ret True s" using True by (subst filewrite_loop.simps) (simp add: km_simps)
    moreover have "written_to f i src s s" using True less.prems(1,4) kept_refl by (auto simp: written_to_def)
    ultimately show ?thesis by blast
  next
    case False
    let ?x = "take 1536 src" and ?y = "drop 1536 src"
    let ?c = "(length ?y + 1535) div 1536"
    have l: "length ?x \<le> filewrite_max" "?x \<noteq> []" "length ?x + length ?y = length src" using False by (auto simp: filewrite_max_val)
    have "length src + 1535 \<ge> length ?y + 1535 + 1536 \<or> length ?y = 0" by auto
    then have "Suc ?c \<le> (length src + 1535) div 1536"
    proof
      assume "length src + 1535 \<ge> length ?y + 1535 + 1536"
      then have "(length ?y + 1535 + 1536) div 1536 \<le> (length src + 1535) div 1536" by (rule div_le_mono)
      then show ?thesis by simp
    next
      assume y: "length ?y = 0"
      have "1536 \<le> length src + 1535" using False by (cases src) simp_all
      then have "1 \<le> (length src + 1535) div 1536" using div_le_mono [of 1536 "length src + 1535" 1536] by simp
      then show ?thesis using y by simp
    qed
    then have fr: "fcost s i + 4 + 4 * ?c \<le> card (free_blocks s)" using less.prems(6) by linarith
    have ox: "unat (foff (ftable s ! f)) + length ?x \<le> MAXFILE * BSIZE" using less.prems(5) l(3) by linarith
    obtain t where t: "wchunk f ?x s = Ret (int (length ?x)) t" "written_to f i ?x s t" "fcost t i + 4 * ?c \<le> card (free_blocks t)"
      using wchunk_ok [OF less.prems(1-4) ox l(2,1) fr] by (auto simp: written_to_def)
    have ft: "f < length (ftable t)" "fip (ftable t ! f) = Some i" "foff (ftable t ! f) = foff (ftable s ! f) + of_nat (length ?x)"
      using t(2) less.prems(2,3) by (simp_all add: written_to_def)
    have uo: "unat (foff (ftable t ! f)) = unat (foff (ftable s ! f)) + length ?x" unfolding ft(3) using ox by (intro off_plus) linarith
    have "\<exists>u. filewrite_loop f ?y t = Ret True u \<and> written_to f i ?y t u"
    proof (rule less.hyps)
      show "length ?y < length src" using False by simp
      show "resting t i" "f < length (ftable t)" "fip (ftable t ! f) = Some i" using t(2) ft by (simp_all add: written_to_def)
      show "unat (foff (ftable t ! f)) \<le> unat (isize (ino i t))" using t(2) uo by (simp add: written_to_def)
      show "unat (foff (ftable t ! f)) + length ?y \<le> MAXFILE * BSIZE" using less.prems(5) uo l(3) by linarith
      show "fcost t i + 4 * ?c \<le> card (free_blocks t)" by (rule t(3))
    qed
    then obtain u where u: "filewrite_loop f ?y t = Ret True u" "written_to f i ?y t u" by blast
    have "filewrite_loop f src s = Ret True u"
      using t(1) u(1) by (simp add: filewrite_loop_chunk [OF False] filewrite_max_val km_simps)
    moreover have "written_to f i (?x @ ?y) s u" using written_to_append [OF t(2) u(2) less.prems(2,4)] ox by simp
    ultimately show ?thesis by auto
  qed
qed

text \<open>
  C2. A write through an open file is complete and durable when \<open>filewrite\<close> returns. From a state with no
  transaction open and enough free blocks, it returns the number of bytes whatever that is (up to the
  largest file), having cut them into transactions that each fit the log. The disk then has the file: read
  from the disk alone, starting at the inode there, its bytes are the new ones where the call wrote and the
  old ones elsewhere, and its size has grown to their end. All other inodes on the disk, the seven in the
  same block included, all bytes of all other files, and every block in use that is neither the file's
  nor its inode block, nor the bitmap, nor of the log, are what they were. The offset has moved, the log is
  empty again, the inode unlocked.
\<close>

theorem filewrite_durable:
  assumes s: "resting s i" and f: "f < length (ftable s)" "ftype (ftable s ! f) = FD_INODE" "fwritable (ftable s ! f)" "fip (ftable s ! f) = Some i"
  defines "off \<equiv> unat (foff (ftable s ! f))" and "m \<equiv> inum (ino i s)"
  assumes o: "off \<le> unat (isize (ino i s))" "off + length src \<le> MAXFILE * BSIZE"
    and fr: "4 * ((length src + 1535) div 1536) < card (free_blocks s)"
  shows "\<exists>t. filewrite f src s = Ret (int (length src)) t \<and> resting t i \<and> unat (foff (ftable t ! f)) = off + length src \<and>
    rewritten (dsk s 1) (dsk t 1) (sb s) m off src \<and>
    (\<forall>n. other_file s i n \<longrightarrow> (\<forall>k < MAXFILE * BSIZE. dbyte (dsk t 1) (sb s) n k = dbyte (dsk s 1) (sb s) n k)) \<and>
    (\<forall>n. foreign s i n \<and> \<not> in_log s n \<and> n \<noteq> IBLOCK m (sb s) \<longrightarrow> dsk t 1 n = dsk s 1 n)"
proof -
  have "fcost s i + 4 * ((length src + 1535) div 1536) \<le> card (free_blocks s)" using fr by (simp add: fcost_def)
  then obtain t where t: "filewrite_loop f src s = Ret True t" "written_to f i src s t"
    using filewrite_loop_ok [OF s f(1,4)] o unfolding off_def by blast
  have w: "resting t i" "foff (ftable t ! f) = foff (ftable s ! f) + of_nat (length src)"
    "unat (isize (ino i t)) = max (unat (isize (ino i s))) (off + length src)"
    "\<forall>k < MAXFILE * BSIZE. fbyte t i k = (if off \<le> k \<and> k < off + length src then src ! (k - off) else fbyte s i k)"
    "\<And>n. foreign s i n \<Longrightarrow> \<not> in_log s n \<Longrightarrow> n \<noteq> IBLOCK m (sb s) \<Longrightarrow> blk t 1 n = blk s 1 n" "kept s t i"
    using t(2) f(1) by (simp_all add: written_to_def off_def m_def)
  let ?s = "s\<lparr>outstanding := 1\<rparr>" and ?t = "t\<lparr>outstanding := 1\<rparr>"
  have st: "stored ?s i" "stored ?t i" using s w(1) by (simp_all add: resting_def)
  have r: "rewritten (blk s 1) (blk t 1) (sb s) m off src"
    using stored_rewritten [OF st, of off src] w(3,4,6) by (simp add: kept_def m_def)
  moreover have "dbyte (blk t 1) (sb s) n k = dbyte (blk s 1) (sb s) n k" if n: "other_file s i n" "k < MAXFILE * BSIZE" for n k
  proof -
    have "dbyte (blk t 1) (sb ?s) n k = dbyte (blk ?s 1) (sb ?s) n k"
    proof (rule other_kept [OF storedD(1) [OF st(1)], where i = i])
      show "other_file ?s i n" "unat (inum (ino i ?s)) < unat (sb_ninodes (sb ?s))" using n(1) storedD(4) [OF st(1)] by simp_all
      show "dnode (blk t 1) (sb ?s) n = dnode (blk ?s 1) (sb ?s) n" using n(1) w(6) by (simp add: other_file_def kept_def)
    qed (use w(5) n(2) in \<open>simp_all add: m_def\<close>)
    then show ?thesis by simp
  qed
  moreover have "unat (foff (ftable t ! f)) = off + length src" unfolding w(2) off_def using o(2) off_def by (intro off_plus) simp
  moreover have "filewrite f src s = Ret (int (length src)) t" using f t(1) by (simp add: filewrite_def km_simps)
  ultimately show ?thesis using w(1,5) resting_clean [OF s] resting_clean [OF w(1)] by (intro exI [of _ t]) simp
qed

definition demo_open :: fstate where
  "demo_open = pipestate.extend (demo_pipe\<lparr>idev := idev demo_vol, inodes := inodes demo_vol, outstanding := 0\<rparr>)
     (fstate.fields [\<lparr>ftype = FD_INODE, fref = 1, freadable = True, fwritable = True, fpipe = 0, fip = Some 0, foff = 0\<rparr>])"

theorem filewrite_durable_witness:
  "\<exists>t. filewrite 0 [104, 105] demo_open = Ret 2 t \<and> dbyte (dsk t 1) demo_sb 2 0 = 104 \<and> dbyte (dsk t 1) demo_sb 2 1 = 105 \<and>
    unat (isize (dnode (dsk t 1) demo_sb 2)) = max (unat (isize (dnode (dsk demo_open 1) demo_sb 2))) 2"
proof -
  have d: "ftable demo_open = [\<lparr>ftype = FD_INODE, fref = 1, freadable = True, fwritable = True, fpipe = 0, fip = Some 0, foff = 0\<rparr>]"
    "outstanding demo_open = 0" "\<not> committing demo_open"
    by (simp_all add: demo_open_def demo_pipe_def demo_con_def demo_fs_def demo_log_def pipestate.defs fstate.defs cstate.defs istate.defs lstate.defs bstate.defs)
  have v: "fresh_vol (demo_open\<lparr>outstanding := 1\<rparr>)"
    by (simp add: fresh_vol_def demo_open_def demo_pipe_def demo_con_def demo_fs_def demo_log_def demo_ready_def demo_cache_def demo_bstate_def
        pipestate.defs fstate.defs cstate.defs istate.defs lstate.defs bstate.defs)
  note f = fresh_fields [OF v, simplified] and st = fresh_stored [OF v, simplified]
  have r: "resting demo_open 0" using d(2,3) f st(1) by (simp add: resting_def zero_inode_def)
  show ?thesis
    using filewrite_durable [OF r, of 0 "[104, 105]"] d(1) st(3) f by (auto simp: zero_inode_def rewritten_def)
qed

end
