(* ===== verification/Swap.thy ===== *)
theory Swap
  imports Fs
begin

text \<open>
  \<open>swapread\<close> and \<open>swapwrite\<close> of \<open>fs.c\<close>, which move a page of 4096 bytes between memory and eight
  consecutive blocks of device 0. The definitions are in \<open>Fs\<close>. Shown here: a page written to a slot that
  lies on the disk is read back, on the disk already when \<open>swapwrite\<close> returns, and no other block of any
  device changes; the range check admits slots past the end of the disk, which stop the kernel.
\<close>

section \<open>One block\<close>

lemma peek_ok:
  assumes st: "bst s []" and k: "key_ok s d n" and c: "card (dirty s) < 30"
  shows "\<exists>i u t. bread d n s = Ret i u \<and> bdata (bufs u ! i) = blk s d n \<and> brelse i u = Ret () t \<and> bst t [] \<and> same_view s t"
proof -
  obtain i u where u: "bread d n s = Ret i u" "bread_post s [] d n i u"
    using bread_ok [OF st k] c by auto
  have v: "bst u [i]" "same_view s u" "has_key d n (bufs u ! i)" "bdata (bufs u ! i) = blk s d n"
    using u(2) by (auto simp: bread_post_def)
  have "dsk u = dsk s" using v(2) dsk_bstep [of s u "blk s" "dirty s"] by (simp add: bstep_def same_view_def)
  then have "(d, n) \<in> dirty u \<or> blk s d n = dsk u d n"
    using blk_clean [OF st, of d n] v(2) by (auto simp: same_view_def)
  then obtain t where t: "brelse i u = Ret () t" "bst t []" "same_view u t"
    using brelse_ok [OF v(1), of i] v(3,4) by (auto simp: has_key_def)
  have "same_view s t" using v(2) t(3) by (auto simp: same_view_def intro: bframe_trans)
  with u(1) v(4) t show ?thesis by blast
qed

lemma store_ok:
  assumes st: "bst s []" and k: "key_ok s d n" and c: "card (dirty s) < 30"
  shows "\<exists>i u v w t. bread d n s = Ret i u \<and> bset i (\<lambda>_. x) u = Ret () v \<and> bwrite i v = Ret () w \<and>
    brelse i w = Ret () t \<and> bst t [] \<and> bframe s t \<and> blk t = put_blk (blk s) d n x \<and>
    dsk t = put_blk (dsk s) d n x \<and> dirty t = dirty s - {(d, n)}"
proof -
  obtain i u where u: "bread d n s = Ret i u" "bread_post s [] d n i u"
    using bread_ok [OF st k] c by auto
  have u': "bst u [i]" "bframe s u" "blk u = blk s" "dirty u = dirty s" "bdev (bufs u ! i) = d" "blockno (bufs u ! i) = n"
    using u(2) by (auto simp: bread_post_def same_view_def has_key_def)
  have du: "dsk u = dsk s" using u(2) dsk_bstep [of s u "blk s" "dirty s"] by (simp add: bstep_def bread_post_def same_view_def)
  obtain v where v: "bset i (\<lambda>_. x) u = Ret () v" "bst v [i]" "bframe u v" "blk v = put_blk (blk s) d n x"
    "dirty v = dirty s" "written (idev v) = written (idev u)" "bufs v ! i = (bufs u ! i)\<lparr>bdata := x\<rparr>"
    using bset_ok [OF u'(1), of i "\<lambda>_. x"] u'(3-6) by (auto simp: put_blk_def)
  have dv: "dsk v = dsk s" using v dsk_bstep [of u v "blk v" "dirty s"] du by (simp add: bstep_def)
  have "key_ok v d n" using k key_ok_bframe [OF u'(2)] key_ok_bframe [OF v(3)] by simp
  then obtain w where w: "bwrite i v = Ret () w" "bst w [i]" "bframe v w" "blk w = blk v" "dirty w = dirty s - {(d, n)}"
    "dsk w = put_blk (dsk s) d n x" "bdata (bufs w ! i) = x" "bdev (bufs w ! i) = d" "blockno (bufs w ! i) = n"
    using bwrite_ok [OF v(2), of i] u'(5,6) v(5,7) dv by (auto simp: put_blk_def)
  obtain t where t: "brelse i w = Ret () t" "bst t []" "same_view w t"
    using brelse_ok [OF w(2), of i] w(6-9) by (auto simp: put_blk_def)
  have "dsk t = dsk w" using t(3) dsk_bstep [of w t "blk w" "dirty w"] by (simp add: bstep_def same_view_def)
  moreover have "bframe s t" using u'(2) v(3) w(3) t(3) bframe_trans unfolding same_view_def by metis
  ultimately show ?thesis using u(1) v(1,4) w(1,4-6) t by (auto simp: same_view_def)
qed

section \<open>A slot\<close>

abbreviation (input) piece :: "u8 list \<Rightarrow> nat \<Rightarrow> u8 list" where
  "piece src j \<equiv> take 512 (drop (512 * j) src)"

lemma concat_pieces: "length src = 512 * k \<Longrightarrow> concat (map (piece src) [0..<k]) = src"
proof (induction k arbitrary: src)
  case (Suc k)
  have "map (piece src) [0..<Suc k] = piece src 0 # map (piece (drop 512 src)) [0..<k]"
    by (simp only: map_upt_Suc) (simp add: add.commute)
  with Suc.IH [of "drop 512 src"] Suc.prems show ?case by simp
qed simp

text \<open>Blocks \<open>lo\<close>, \<open>lo + 1\<close>, ... of device 0 replaced by the pieces of a page.\<close>

definition put_slot :: "(u32 \<Rightarrow> u32 \<Rightarrow> u8 list) \<Rightarrow> int \<Rightarrow> nat \<Rightarrow> u8 list \<Rightarrow> u32 \<Rightarrow> u32 \<Rightarrow> u8 list" where
  "put_slot f lo k src d m = (if d = 0 \<and> lo \<le> uint m \<and> uint m < lo + int k then piece src (nat (uint m - lo)) else f d m)"

lemma uint_eq_word: "0 \<le> a \<Longrightarrow> a < 2 ^ 32 \<Longrightarrow> uint m = a \<longleftrightarrow> m = (word_of_int a :: u32)"
  by (auto simp: word_uint_eq_iff uint_word_of_int take_bit_int_eq_self)

lemma put_slot_Suc:
  assumes "0 \<le> lo" "lo < 1000"
  shows "put_slot (put_blk f 0 (word_of_int lo) (take 512 src)) (lo + 1) k (drop 512 src) = put_slot f lo (Suc k) src"
proof (intro ext)
  fix d m :: u32
  consider "d \<noteq> 0" | "d = 0" "uint m = lo" | "d = 0" "uint m < lo" | "d = 0" "lo < uint m" by linarith
  then show "put_slot (put_blk f 0 (word_of_int lo) (take 512 src)) (lo + 1) k (drop 512 src) d m = put_slot f lo (Suc k) src d m"
  proof cases
    case 4
    then have "nat (uint m - lo) = Suc (nat (uint m - (lo + 1)))" "m \<noteq> word_of_int lo"
      using uint_eq_word [of lo m] assms by auto
    then show ?thesis using 4 by (auto simp: put_slot_def put_blk_def add.commute)
  qed (use uint_eq_word [of lo m] assms in \<open>auto simp: put_slot_def put_blk_def\<close>)
qed

lemma key_ok_slot: "\<not> memfs s \<Longrightarrow> 0 < lo \<Longrightarrow> lo < 1000 \<Longrightarrow> key_ok s 0 (word_of_int lo)"
  using uint_eq_word [of lo "word_of_int lo"] uint_eq_word [of 0 "word_of_int lo"] uint_eq_word [of lo "word_of_int lo"]
  by (auto simp: key_ok_def word_less_def)

lemma swapwrite_loop_ok:
  assumes "bst s []" "\<not> memfs s" "card (dirty s) < 30" "0 < b + 500 + i" "b + 500 + i + int k \<le> 1000"
  shows "\<exists>t. swapwrite_loop k src b i s = Ret () t \<and> bst t [] \<and> bframe s t \<and> card (dirty t) < 30 \<and>
    blk t = put_slot (blk s) (b + 500 + i) k src \<and> dsk t = put_slot (dsk s) (b + 500 + i) k src"
  using assms
proof (induction k arbitrary: s src i)
  case 0
  then show ?case by (auto simp: km_simps put_slot_def fun_eq_iff)
next
  case (Suc k)
  have k: "key_ok s 0 (word_of_int (b + 500 + i))" using Suc.prems by (intro key_ok_slot) auto
  obtain p u v w t where 1: "bread 0 (word_of_int (b + 500 + i)) s = Ret p u" "bset p (\<lambda>_. take 512 src) u = Ret () v"
    "bwrite p v = Ret () w" "brelse p w = Ret () t" "bst t []" "bframe s t"
    "blk t = put_blk (blk s) 0 (word_of_int (b + 500 + i)) (take 512 src)"
    "dsk t = put_blk (dsk s) 0 (word_of_int (b + 500 + i)) (take 512 src)"
    "dirty t = dirty s - {(0, word_of_int (b + 500 + i))}"
    using store_ok [OF Suc.prems(1) k Suc.prems(3), of "take 512 src"] by blast
  have c: "card (dirty t) < 30" using Suc.prems(3) card_Diff1_le [of "dirty s" "(0, word_of_int (b + 500 + i))"] by (simp only: 1(9))
  have m: "\<not> memfs t" using Suc.prems(2) bframe_fields [OF 1(6)] by simp
  obtain t' where 2: "swapwrite_loop k (drop 512 src) b (i + 1) t = Ret () t'" "bst t' []" "bframe t t'" "card (dirty t') < 30"
    "blk t' = put_slot (blk t) (b + 500 + i + 1) k (drop 512 src)" "dsk t' = put_slot (dsk t) (b + 500 + i + 1) k (drop 512 src)"
    using Suc.IH [OF 1(5) m c, of "i + 1" "drop 512 src"] Suc.prems(4,5) by (auto simp: add.assoc)
  have "swapwrite_loop (Suc k) src b i s = Ret () t'" using 1(1-4) 2(1) by (simp add: km_simps)
  moreover have "bframe s t'" using 1(6) 2(3) by (rule bframe_trans)
  ultimately show ?case using 2 put_slot_Suc [of "b + 500 + i" _ src k] Suc.prems 1(7,8) by (intro exI [of _ t']) simp
qed

lemma swapread_loop_ok:
  assumes "bst s []" "\<not> memfs s" "card (dirty s) < 30" "0 < b + 500 + i" "b + 500 + i + int k \<le> 1000"
  shows "\<exists>t. swapread_loop k b i s = Ret (concat (map (\<lambda>j. blk s 0 (word_of_int (b + 500 + i + int j))) [0..<k])) t \<and>
    bst t [] \<and> same_view s t"
  using assms
proof (induction k arbitrary: s i)
  case 0
  then show ?case by (auto simp: km_simps same_view_def)
next
  case (Suc k)
  have k: "key_ok s 0 (word_of_int (b + 500 + i))" using Suc.prems by (intro key_ok_slot) auto
  obtain p u t where 1: "bread 0 (word_of_int (b + 500 + i)) s = Ret p u" "brelse p u = Ret () t" "bst t []" "same_view s t"
    "bdata (bufs u ! p) = blk s 0 (word_of_int (b + 500 + i))"
    using peek_ok [OF Suc.prems(1) k Suc.prems(3)] by blast
  have f: "bframe s t" "blk t = blk s" "dirty t = dirty s" using 1(4) by (simp_all add: same_view_def)
  have m: "\<not> memfs t" using Suc.prems(2) bframe_fields [OF f(1)] by simp
  obtain t' where 2: "swapread_loop k b (i + 1) t = Ret (concat (map (\<lambda>j. blk t 0 (word_of_int (b + 500 + (i + 1) + int j))) [0..<k])) t'"
    "bst t' []" "same_view t t'"
    using Suc.IH [OF 1(3) m, of "i + 1"] f(3) Suc.prems by auto
  have "map (\<lambda>j. blk s 0 (word_of_int (b + 500 + i + int j))) [0..<Suc k] =
      blk s 0 (word_of_int (b + 500 + i)) # map (\<lambda>j. blk t 0 (word_of_int (b + 500 + (i + 1) + int j))) [0..<k]"
    using f(2) by (simp only: map_upt_Suc) (simp add: algebra_simps)
  then have "swapread_loop (Suc k) b i s = Ret (concat (map (\<lambda>j. blk s 0 (word_of_int (b + 500 + i + int j))) [0..<Suc k])) t'"
    using 1(1,2,5) 2(1) by (simp add: km_simps)
  moreover have "same_view s t'" using 1(4) 2(3) by (auto simp: same_view_def intro: bframe_trans)
  ultimately show ?case using 2(2) by blast
qed

text \<open>
  C37. A page written with \<open>swapwrite\<close> to a slot that lies on the disk is read back by \<open>swapread\<close>. When
  \<open>swapwrite\<close> returns, the eight blocks of the slot hold the page, in the cache and on the disk, and no
  other block of any device has changed; \<open>swapread\<close> changes nothing.
\<close>

theorem swap_roundtrip:
  assumes "bst s []" "\<not> memfs s" "card (dirty s) < NBUF" "0 \<le> b" "b + SWAPBASE + 8 \<le> uint FSSIZE" "length page = 4096"
  shows "\<exists>t u. swapwrite page b s = Ret () t \<and> swapread b t = Ret page u \<and> bst u [] \<and> same_view t u \<and>
    blk t = put_slot (blk s) (b + SWAPBASE) 8 page \<and> dsk t = put_slot (dsk s) (b + SWAPBASE) 8 page"
proof -
  obtain t where t: "swapwrite_loop 8 page b 0 s = Ret () t" "bst t []" "bframe s t" "card (dirty t) < 30"
    "blk t = put_slot (blk s) (b + 500) 8 page" "dsk t = put_slot (dsk s) (b + 500) 8 page"
    using swapwrite_loop_ok [of s b 0 8 page] assms by auto
  have m: "\<not> memfs t" using assms(2) bframe_fields [OF t(3)] by simp
  obtain u where u: "swapread_loop 8 b 0 t = Ret (concat (map (\<lambda>j. blk t 0 (word_of_int (b + 500 + int j))) [0..<8])) u"
    "bst u []" "same_view t u"
    using swapread_loop_ok [of t b 0 8] t(2,4) m assms(4,5) by auto
  have "blk t 0 (word_of_int (b + 500 + int j)) = piece page j" if "j < 8" for j
    using that assms(4,5) uint_eq_word [of "b + 500 + int j" "word_of_int (b + 500 + int j)"] by (simp add: t(5) put_slot_def)
  then have "map (\<lambda>j. blk t 0 (word_of_int (b + 500 + int j))) [0..<8] = map (piece page) [0..<8]"
    by (intro map_cong) auto
  then have "concat (map (\<lambda>j. blk t 0 (word_of_int (b + 500 + int j))) [0..<8]) = concat (map (piece page) [0..<8])"
    by (rule arg_cong)
  also have "\<dots> = page" using concat_pieces [of page 8] assms(6) by simp
  finally have r: "concat (map (\<lambda>j. blk t 0 (word_of_int (b + 500 + int j))) [0..<8]) = page" .
  have "swapread_loop 8 b 0 t = Ret page u" using u(1) unfolding r .
  then show ?thesis using t u(2,3) assms(4,5) by (intro exI [of _ t] exI [of _ u]) (simp add: swapwrite_def swapread_def km_simps)
qed

theorem swap_roundtrip_witness:
  "\<exists>t u. swapwrite (replicate 4096 49) 10 demo_ready = Ret () t \<and> swapread 10 t = Ret (replicate 4096 49) u"
proof -
  have "\<not> memfs demo_ready" by (simp add: demo_ready_def demo_cache_def demo_bstate_def)
  then show ?thesis using swap_roundtrip [OF demo_ready_bst(1), of 10 "replicate 4096 49"] demo_ready_bst(2) by auto
qed

section \<open>Past the end of the disk\<close>

lemma bread_past_disk:
  assumes st: "bst s []" and m: "\<not> memfs s" and c: "card (dirty s) < 30" and n: "FSSIZE \<le> n"
    and no: "\<forall>j < NBUF. \<not> has_key 0 n (bufs s ! j)"
  shows "bread 0 n s = Panic ''incorrect blockno''"
proof -
  note p = bst_parts [OF st]
  have f: "find (\<lambda>i. has_key 0 n (bufs s ! i)) (lru s) = None" using no p(3) unfolding find_None_iff by auto
  obtain i0 where "i0 < 30" "\<not> bdirty (bufs s ! i0)" using free_buf [OF p(4), of "[]"] c p(1) by (auto simp: dirty_def)
  then have "find (\<lambda>i. refcnt (bufs s ! i) = 0 \<and> \<not> bdirty (bufs s ! i)) (rev (lru s)) \<noteq> None"
    using p(3,16) unfolding find_None_iff by auto
  then obtain i where fi: "find (\<lambda>i. refcnt (bufs s ! i) = 0 \<and> \<not> bdirty (bufs s ! i)) (rev (lru s)) = Some i" by auto
  then have i: "i < 30" using find_SomeD p(3) by fastforce
  obtain q where q: "cur s = Some q" using p(9) by blast
  let ?b = "(bufs s ! i)\<lparr>bdev := 0, blockno := n, bflags := 0, refcnt := 1\<rparr>"
  let ?s = "s\<lparr>slocks := (slocks s)(SlkBuf i := \<lparr>locked = True, slpid = curpid s\<rparr>), bufs := (bufs s)[i := ?b]\<rparr>"
  have g: "bget 0 n s = Ret i ?s" by (rule bget_miss [OF f fi p(8) q p(15) [OF i]]) simp
  have h: "held s = {}" "idequeue s = []" using p(5) by (simp_all add: quiet_def)
  have "holdingsleep (SlkBuf i) ?s = Ret True ?s" using h q by (simp add: ret_iff curpid_def)
  then have "iderw i ?s = Panic ''incorrect blockno''"
    using m i p(1) h q n by (simp add: iderw_def ide_rw_def idestart_def bindK_def thenK_def km_simps)
  then show ?thesis using g i p(1) by (simp add: bread_def km_simps bvalid_def)
qed

text \<open>
  C38. The range check of \<open>swapread\<close> and \<open>swapwrite\<close> admits slots the IDE driver does not: with a slot from
  500 on, which the check lets pass up to 99499, the first block has a number of at least \<open>FSSIZE\<close> = 1000,
  and when it is in no buffer of the cache both calls end in the panic of \<open>idestart\<close>. A user program
  reaches this with the system calls.
\<close>

theorem swap_past_disk:
  assumes st: "bst s []" and m: "\<not> memfs s" and c: "card (dirty s) < NBUF" and b: "uint FSSIZE \<le> b + SWAPBASE" "b < SWAPMAX"
    and no: "\<forall>j < NBUF. \<not> has_key 0 (word_of_int (b + SWAPBASE)) (bufs s ! j)"
  shows "swapread b s = Panic ''incorrect blockno'' \<and> swapwrite page b s = Panic ''incorrect blockno''"
proof -
  have "uint (word_of_int (b + 500) :: u32) = b + 500" using uint_eq_word [of "b + 500" "word_of_int (b + 500)"] b by simp
  then have "FSSIZE \<le> (word_of_int (b + 500) :: u32)" using b by (simp only: word_le_def)
  then have r: "bread 0 (word_of_int (b + 500)) s = Panic ''incorrect blockno''"
    using bread_past_disk [OF st m _ _ no] c by simp
  have e: "(8 :: nat) = Suc 7" by simp
  have "swapread_loop 8 b 0 s = Panic ''incorrect blockno''" "swapwrite_loop 8 page b 0 s = Panic ''incorrect blockno''"
    unfolding e swapread_loop.simps swapwrite_loop.simps using r by (simp_all add: km_simps)
  then show ?thesis using b by (simp add: swapread_def swapwrite_def km_simps)
qed

theorem swap_past_disk_witness:
  "swapread 500 demo_ready = Panic ''incorrect blockno'' \<and> swapwrite [] 500 demo_ready = Panic ''incorrect blockno''"
proof (rule swap_past_disk [OF demo_ready_bst(1)])
  show "\<forall>j < NBUF. \<not> has_key 0 (word_of_int (500 + SWAPBASE)) (bufs demo_ready ! j)"
    by (simp add: demo_ready_def demo_cache_def zero_buf_def has_key_def)
  show "card (dirty demo_ready) < NBUF" by (simp add: demo_ready_bst(2))
qed (simp_all add: demo_ready_def demo_cache_def demo_bstate_def)

end
