(* ===== verification/Icache.thy ===== *)
theory Icache
  imports Fs
begin

text \<open>
  The inode cache: \<open>iget\<close> and \<open>idup\<close> of \<open>fs.c\<close> keep one entry for an inode in use, so that its lock and its
  copy of the disk inode are shared by all who use it.
\<close>

abbreviation (input) names :: "inode \<Rightarrow> u32 \<Rightarrow> u32 \<Rightarrow> bool" where
  "names ip d n \<equiv> 0 < iref ip \<and> i_dev ip = d \<and> inum ip = n"

text \<open>No inode has two entries in use, and no count is negative.\<close>

definition icache_ok :: "'z istate_scheme \<Rightarrow> bool" where
  "icache_ok s \<longleftrightarrow> length (inodes s) = NINODE \<and> (\<forall>i < NINODE. 0 \<le> iref (ino i s)) \<and>
     (\<forall>i < NINODE. \<forall>j < NINODE. 0 < iref (ino i s) \<and> names (ino j s) (i_dev (ino i s)) (inum (ino i s)) \<longrightarrow> i = j)"

lemma iget_scan_hit:
  assumes "iget_scan ips k d n e = (Some i, e')"
  shows "k \<le> i \<and> i - k < length ips \<and> names (ips ! (i - k)) d n"
  using assms
proof (induction ips arbitrary: k e)
  case (Cons ip ips)
  show ?case
  proof (cases "names ip d n")
    case False
    then obtain e1 where "iget_scan ips (Suc k) d n e1 = (Some i, e')" using Cons.prems by auto
    from Cons.IH [OF this] show ?thesis by (auto simp: nth_Cons' Suc_diff_le)
  qed (use Cons.prems in auto)
qed simp

lemma iget_scan_none:
  assumes "iget_scan ips k d n e = (None, e')"
  shows "(\<forall>j < length ips. \<not> names (ips ! j) d n) \<and>
    (case e' of None \<Rightarrow> e = None \<and> (\<forall>j < length ips. iref (ips ! j) \<noteq> 0)
     | Some i \<Rightarrow> e = Some i \<or> k \<le> i \<and> i - k < length ips \<and> iref (ips ! (i - k)) = 0)"
  using assms
proof (induction ips arbitrary: k e)
  case (Cons ip ips)
  let ?e = "if e = None \<and> iref ip = 0 then Some k else e"
  have n: "\<not> names ip d n" using Cons.prems by (auto split: if_splits)
  then have "iget_scan ips (Suc k) d n ?e = (None, e')" using Cons.prems unfolding iget_scan.simps if_not_P [OF n] by simp
  from Cons.IH [OF this] have IH: "\<forall>j < length ips. \<not> names (ips ! j) d n"
    "case e' of None \<Rightarrow> ?e = None \<and> (\<forall>j < length ips. iref (ips ! j) \<noteq> 0)
     | Some i \<Rightarrow> ?e = Some i \<or> Suc k \<le> i \<and> i - Suc k < length ips \<and> iref (ips ! (i - Suc k)) = 0" by auto
  have 1: "\<forall>j < length (ip # ips). \<not> names ((ip # ips) ! j) d n" using n IH(1) by (auto simp: less_Suc_eq_0_disj)
  show ?case
  proof (cases e')
    case None
    then show ?thesis using 1 IH(2) by (auto simp: less_Suc_eq_0_disj split: if_splits)
  next
    case (Some i)
    then show ?thesis using 1 IH(2) by (auto simp: nth_Cons' Suc_diff_le split: if_splits)
  qed
qed (auto split: option.splits)

lemma icache_uniq:
  "icache_ok s \<Longrightarrow> i < NINODE \<Longrightarrow> j < NINODE \<Longrightarrow> 0 < iref (ino i s) \<Longrightarrow> names (ino j s) (i_dev (ino i s)) (inum (ino i s)) \<Longrightarrow> i = j"
  by (auto simp: icache_ok_def)

lemma upd_keeps_ok:
  assumes s: "icache_ok s" and i: "i < NINODE" and r: "0 < iref ip"
    and u: "\<And>j. j < NINODE \<Longrightarrow> j \<noteq> i \<Longrightarrow> \<not> names (ino j s) (i_dev ip) (inum ip)"
  shows "icache_ok (s\<lparr>inodes := (inodes s)[i := ip]\<rparr>)"
  unfolding icache_ok_def
proof (intro conjI allI impI, goal_cases)
  case 1
  then show ?case using s by (simp add: icache_ok_def)
next
  case (2 j)
  then show ?case using s i r by (cases "j = i") (simp_all add: icache_ok_def)
next
  case (3 j k)
  have l: "length (inodes s) = NINODE" using s by (simp add: icache_ok_def)
  show ?case using 3 u [of j] u [of k] icache_uniq [OF s, of j k] l i by (cases "j = i"; cases "k = i") auto
qed

text \<open>
  C36. The inode cache has one entry for each inode in use. \<open>iget\<close> returns an entry that names the inode it was
  asked for, with one more reference: if the inode was in use this is the entry it had, with its lock and
  contents, and otherwise it is an entry that was free, marked as not loaded. No other entry changes,
  nor anything else, and still no inode has two entries. It panics exactly when the inode is not in the
  cache and every entry is in use.
\<close>

theorem iget_one_entry:
  assumes s: "icache_ok s" and h: "held s = {}"
  shows "(\<exists>i < NINODE. \<exists>ip. iget d n s = Ret i (s\<lparr>inodes := (inodes s)[i := ip]\<rparr>) \<and> icache_ok (s\<lparr>inodes := (inodes s)[i := ip]\<rparr>) \<and>
      names ip d n \<and>
      (if \<exists>j < NINODE. names (ino j s) d n then names (ino i s) d n \<and> ip = (ino i s)\<lparr>iref := iref (ino i s) + 1\<rparr>
       else iref (ino i s) = 0 \<and> iref ip = 1 \<and> \<not> ivalid ip)) \<or>
    iget d n s = Panic ''iget: no inodes'' \<and> (\<forall>j < NINODE. 0 < iref (ino j s) \<and> \<not> names (ino j s) d n)"
proof -
  have l: "length (inodes s) = NINODE" using s by (simp add: icache_ok_def)
  have hh: "s\<lparr>inodes := x, held := {}\<rparr> = s\<lparr>inodes := x\<rparr>" for x using h by (simp add: istate.equality)
  consider (hit) i e where "iget_scan (inodes s) 0 d n None = (Some i, e)" | (free) i where "iget_scan (inodes s) 0 d n None = (None, Some i)"
    | (full) "iget_scan (inodes s) 0 d n None = (None, None)" by (metis option.exhaust surj_pair)
  then show ?thesis
  proof cases
    case hit
    have i: "i < NINODE" "names (ino i s) d n" using iget_scan_hit [OF hit] l by simp_all
    let ?ip = "(ino i s)\<lparr>iref := iref (ino i s) + 1\<rparr>"
    have "iget d n s = Ret i (s\<lparr>inodes := (inodes s)[i := ?ip]\<rparr>)" using hit h by (simp add: iget_def km_simps upd_ino_def hh)
    moreover have "icache_ok (s\<lparr>inodes := (inodes s)[i := ?ip]\<rparr>)"
    proof (rule upd_keeps_ok [OF s i(1)])
      show "\<not> names (ino j s) (i_dev ?ip) (inum ?ip)" if "j < NINODE" "j \<noteq> i" for j
        using icache_uniq [OF s i(1) that(1)] i(2) that(2) by auto
    qed (use i in simp)
    moreover have "\<exists>j < NINODE. names (ino j s) d n" using i by blast
    ultimately show ?thesis using i by (intro disjI1 exI [of _ i] exI [of _ ?ip] conjI) simp_all
  next
    case free
    have f: "\<forall>j < NINODE. \<not> names (ino j s) d n" "i < NINODE" "iref (ino i s) = 0" using iget_scan_none [OF free] l by simp_all
    let ?ip = "(ino i s)\<lparr>i_dev := d, inum := n, iref := 1, ivalid := False\<rparr>"
    have "iget d n s = Ret i (s\<lparr>inodes := (inodes s)[i := ?ip]\<rparr>)" using free h by (simp add: iget_def km_simps upd_ino_def hh)
    moreover have "icache_ok (s\<lparr>inodes := (inodes s)[i := ?ip]\<rparr>)"
      by (rule upd_keeps_ok [OF s f(2)]) (use f(1) in auto)
    moreover have "\<not> (\<exists>j < NINODE. names (ino j s) d n)" using f(1) by blast
    ultimately show ?thesis using f(2,3) by (intro disjI1 exI [of _ i] exI [of _ ?ip] conjI) simp_all
  next
    case full
    have f: "\<forall>j < NINODE. \<not> names (ino j s) d n" "\<forall>j < NINODE. iref (ino j s) \<noteq> 0" using iget_scan_none [OF full] l by simp_all
    moreover have "iget d n s = Panic ''iget: no inodes''" using full h by (simp add: iget_def km_simps)
    moreover have "\<forall>j < NINODE. 0 \<le> iref (ino j s)" using s by (simp add: icache_ok_def)
    ultimately show ?thesis by (intro disjI2 conjI allI impI) (auto simp: less_le)
  qed
qed

theorem iget_one_entry_witness: "\<exists>i t. iget 1 7 demo_fs = Ret i t \<and> icache_ok t \<and> inum (inodes t ! i) = 7"
proof -
  have "inodes demo_fs = replicate NINODE zero_inode" "held demo_fs = {}"
    by (simp_all add: demo_fs_def demo_log_def demo_ready_def demo_cache_def demo_bstate_def istate.defs lstate.defs bstate.defs)
  moreover from this have "icache_ok demo_fs" by (simp add: icache_ok_def zero_inode_def)
  ultimately show ?thesis using iget_one_entry [of demo_fs 1 7] by (auto simp: zero_inode_def dest: spec [of _ 0])
qed

end
