(* ===== verification/Vm.thy ===== *)
theory Vm
  imports Fs
begin

text \<open>
  \<open>vm.c\<close>: page tables in memory, the kernel's mappings, and the user part of an address space.
  Messages printed on failure are left out.
\<close>

section \<open>Walking and mapping\<close>

definition entry :: "u32 \<Rightarrow> u32 \<Rightarrow> u32" where
  "entry table i = table + 4 * i"

text \<open>\<open>walkpgdir\<close>: the address of the entry, or 0.\<close>

definition walkpgdir :: "u32 \<Rightarrow> u32 \<Rightarrow> bool \<Rightarrow> ('z kstate_scheme, u32) km" where
  "walkpgdir pd va alloc = (let pde = entry pd (PDX va) in
     bindK (getK (\<lambda>s. load32 (memory s) pde)) (\<lambda>v.
     if v AND PTE_P \<noteq> 0 then retK (entry (P2V (PTE_ADDR v)) (PTX va))
     else if \<not> alloc then retK 0
     else bindK kalloc (\<lambda>pgtab. if pgtab = 0 then retK 0 else
       thenK (modK (\<lambda>s. s\<lparr>memory := memset pgtab 0 PGSIZE (memory s)\<rparr>))
      (thenK (modK (\<lambda>s. s\<lparr>memory := store32 pde (V2P pgtab OR PTE_P OR PTE_W OR PTE_U) (memory s)\<rparr>))
       (retK (entry pgtab (PTX va)))))))"

text \<open>The loop of \<open>mappages\<close>; the address space has \<open>2 ^ 20\<close> pages.\<close>

fun mappages_loop :: "nat \<Rightarrow> u32 \<Rightarrow> u32 \<Rightarrow> u32 \<Rightarrow> u32 \<Rightarrow> u32 \<Rightarrow> ('z kstate_scheme, int) km" where
  "mappages_loop 0 pd a lst pa perm = (\<lambda>s. Spin s)"
| "mappages_loop (Suc fuel) pd a lst pa perm = bindK (walkpgdir pd a True) (\<lambda>pte.
     if pte = 0 then retK (-1) else
     bindK (getK (\<lambda>s. load32 (memory s) pte)) (\<lambda>v.
     thenK (assertK (\<not> v AND PTE_P \<noteq> 0) ''remap'')
    (thenK (modK (\<lambda>s. s\<lparr>memory := store32 pte (pa OR perm OR PTE_P) (memory s)\<rparr>))
     (if a = lst then retK 0
      else mappages_loop fuel pd (a + PGSIZE) lst (pa + PGSIZE) perm))))"

definition mappages :: "u32 \<Rightarrow> u32 \<Rightarrow> u32 \<Rightarrow> u32 \<Rightarrow> u32 \<Rightarrow> ('z kstate_scheme, int) km" where
  "mappages pd va sz pa perm =
     mappages_loop (2 ^ 20) pd (PGROUNDDOWN va) (PGROUNDDOWN (va + sz - 1)) pa perm"

text \<open>\<open>deallocuvm\<close>: on a missing page table the loop jumps to the next page directory entry.\<close>

fun dealloc_loop :: "nat \<Rightarrow> u32 \<Rightarrow> u32 \<Rightarrow> u32 \<Rightarrow> ('z kstate_scheme, unit) km" where
  "dealloc_loop 0 pd a oldsz = (\<lambda>s. Spin s)"
| "dealloc_loop (Suc fuel) pd a oldsz =
     (if \<not> a < oldsz then retK ()
      else bindK (walkpgdir pd a False) (\<lambda>pte.
        if pte = 0 then dealloc_loop fuel pd (PGADDR (PDX a + 1) 0 0 - PGSIZE + PGSIZE) oldsz
        else bindK (getK (\<lambda>s. load32 (memory s) pte)) (\<lambda>v.
          thenK (whenK (v AND PTE_P \<noteq> 0)
            (let pa = PTE_ADDR v in
             thenK (assertK (pa \<noteq> 0) ''kfree'')
            (thenK (kfree (P2V pa))
             (modK (\<lambda>s. s\<lparr>memory := store32 pte 0 (memory s)\<rparr>)))))
          (dealloc_loop fuel pd (a + PGSIZE) oldsz))))"

definition deallocuvm :: "u32 \<Rightarrow> u32 \<Rightarrow> u32 \<Rightarrow> ('z kstate_scheme, u32) km" where
  "deallocuvm pd oldsz newsz =
     (if newsz \<ge> oldsz then retK oldsz
      else thenK (dealloc_loop (2 ^ 20 + 1) pd (PGROUNDUP newsz) oldsz) (retK newsz))"

fun freevm_loop :: "nat \<Rightarrow> u32 \<Rightarrow> u32 \<Rightarrow> ('z kstate_scheme, unit) km" where
  "freevm_loop 0 pd i = retK ()"
| "freevm_loop (Suc k) pd i = bindK (getK (\<lambda>s. load32 (memory s) (entry pd i))) (\<lambda>v.
     thenK (whenK (v AND PTE_P \<noteq> 0) (kfree (P2V (PTE_ADDR v)))) (freevm_loop k pd (i + 1)))"

definition freevm :: "u32 \<Rightarrow> ('z kstate_scheme, unit) km" where
  "freevm pd = thenK (assertK (pd \<noteq> 0) ''freevm: no pgdir'')
    (thenK (deallocuvm pd KERNBASE 0)
    (thenK (freevm_loop 1024 pd 0)
     (kfree pd)))"

section \<open>The kernel part\<close>

record kmap_entry =
  km_virt :: u32
  km_start :: u32
  km_end :: u32
  km_perm :: u32

definition kmap :: "u32 \<Rightarrow> kmap_entry list" where
  "kmap data = [
     \<lparr>km_virt = KERNBASE, km_start = 0, km_end = EXTMEM, km_perm = PTE_W\<rparr>,
     \<lparr>km_virt = KERNLINK, km_start = V2P KERNLINK, km_end = V2P data, km_perm = 0\<rparr>,
     \<lparr>km_virt = data, km_start = V2P data, km_end = PHYSTOP, km_perm = PTE_W\<rparr>,
     \<lparr>km_virt = DEVSPACE, km_start = DEVSPACE, km_end = 0, km_perm = PTE_W\<rparr>]"

fun setupkvm_loop :: "u32 \<Rightarrow> kmap_entry list \<Rightarrow> ('z kstate_scheme, u32) km" where
  "setupkvm_loop pd [] = retK pd"
| "setupkvm_loop pd (k # ks) =
     bindK (mappages pd (km_virt k) (km_end k - km_start k) (km_start k) (km_perm k)) (\<lambda>r.
     if r < 0 then thenK (freevm pd) (retK 0) else setupkvm_loop pd ks)"

definition setupkvm :: "('z kstate_scheme, u32) km" where
  "setupkvm = bindK kalloc (\<lambda>pd. if pd = 0 then retK 0 else
     thenK (modK (\<lambda>s. s\<lparr>memory := memset pd 0 PGSIZE (memory s)\<rparr>))
    (thenK (assertK (\<not> P2V PHYSTOP > DEVSPACE) ''PHYSTOP too high'')
    (bindK (getK kdata) (\<lambda>data. setupkvm_loop pd (kmap data)))))"

definition switchkvm :: "('z kstate_scheme, unit) km" where
  "switchkvm = modK (\<lambda>s. s\<lparr>cr3 := V2P (kpgdir s)\<rparr>)"

definition kvmalloc :: "('z kstate_scheme, unit) km" where
  "kvmalloc = bindK setupkvm (\<lambda>p. thenK (modK (\<lambda>s. s\<lparr>kpgdir := p\<rparr>)) switchkvm)"

text \<open>\<open>switchuvm\<close>: the task state segment it also loads is a hardware format that is not modelled.\<close>

definition switchuvm :: "nat option \<Rightarrow> ('z kstate_scheme, unit) km" where
  "switchuvm mp = (case mp of None \<Rightarrow> panicK ''switchuvm: no process'' | Some i \<Rightarrow>
     bindK (getK (\<lambda>s. ptable s ! i)) (\<lambda>p.
     thenK (assertK (kstack p \<noteq> 0) ''switchuvm: no kstack'')
    (thenK (assertK (pgdir p \<noteq> 0) ''switchuvm: no pgdir'')
     (modK (\<lambda>s. s\<lparr>cr3 := V2P (pgdir p)\<rparr>)))))"

section \<open>The user part\<close>

text \<open>A copy of bytes into memory.\<close>

fun store_bytes :: "u32 \<Rightarrow> u8 list \<Rightarrow> bytes \<Rightarrow> bytes" where
  "store_bytes a [] m = m"
| "store_bytes a (b # bs) m = store_bytes (a + 1) bs (m(a := b))"

definition inituvm :: "u32 \<Rightarrow> u8 list \<Rightarrow> ('z kstate_scheme, unit) km" where
  "inituvm pd init =
     thenK (assertK (\<not> of_nat (length init) \<ge> PGSIZE) ''inituvm: more than a page'')
    (bindK kalloc (\<lambda>mem.
     thenK (modK (\<lambda>s. s\<lparr>memory := memset mem 0 PGSIZE (memory s)\<rparr>))
    (thenK (mappages pd 0 PGSIZE (V2P mem) (PTE_W OR PTE_U))
     (modK (\<lambda>s. s\<lparr>memory := store_bytes mem init (memory s)\<rparr>)))))"

fun loaduvm_loop :: "'z istate_scheme devsw list \<Rightarrow> nat \<Rightarrow> u32 \<Rightarrow> u32 \<Rightarrow> nat \<Rightarrow> u32 \<Rightarrow> u32 \<Rightarrow> u32 \<Rightarrow> ('z istate_scheme, int) km" where
  "loaduvm_loop dv 0 pd addr ip offset sz i = (\<lambda>s. Spin s)"
| "loaduvm_loop dv (Suc fuel) pd addr ip offset sz i =
     (if \<not> i < sz then retK 0
      else bindK (walkpgdir pd (addr + i) False) (\<lambda>pte.
        thenK (assertK (pte \<noteq> 0) ''loaduvm: address should exist'')
       (bindK (getK (\<lambda>s. PTE_ADDR (load32 (memory s) pte))) (\<lambda>pa.
        let n = (if sz - i < PGSIZE then sz - i else PGSIZE) in
        bindK (readi dv ip (offset + i) n) (\<lambda>(r, cs).
        thenK (modK (\<lambda>s. s\<lparr>memory := store_bytes (P2V pa) cs (memory s)\<rparr>))
        (if word_of_int r \<noteq> n then retK (-1)
         else loaduvm_loop dv fuel pd addr ip offset sz (i + PGSIZE)))))))"

definition loaduvm :: "'z istate_scheme devsw list \<Rightarrow> u32 \<Rightarrow> u32 \<Rightarrow> nat \<Rightarrow> u32 \<Rightarrow> u32 \<Rightarrow> ('z istate_scheme, int) km" where
  "loaduvm dv pd addr ip offset sz =
     thenK (assertK (\<not> addr mod PGSIZE \<noteq> 0) ''loaduvm: addr must be page aligned'')
     (loaduvm_loop dv (2 ^ 20 + 1) pd addr ip offset sz 0)"

fun allocuvm_loop :: "nat \<Rightarrow> u32 \<Rightarrow> u32 \<Rightarrow> u32 \<Rightarrow> u32 \<Rightarrow> ('z kstate_scheme, u32) km" where
  "allocuvm_loop 0 pd a oldsz newsz = (\<lambda>s. Spin s)"
| "allocuvm_loop (Suc fuel) pd a oldsz newsz =
     (if \<not> a < newsz then retK newsz
      else bindK kalloc (\<lambda>mem.
        if mem = 0 then thenK (deallocuvm pd newsz oldsz) (retK 0)
        else thenK (modK (\<lambda>s. s\<lparr>memory := memset mem 0 PGSIZE (memory s)\<rparr>))
         (bindK (mappages pd a PGSIZE (V2P mem) (PTE_W OR PTE_U)) (\<lambda>r.
          if r < 0 then thenK (deallocuvm pd newsz oldsz) (thenK (kfree mem) (retK 0))
          else allocuvm_loop fuel pd (a + PGSIZE) oldsz newsz))))"

definition allocuvm :: "u32 \<Rightarrow> u32 \<Rightarrow> u32 \<Rightarrow> ('z kstate_scheme, u32) km" where
  "allocuvm pd oldsz newsz =
     (if newsz \<ge> KERNBASE then retK 0
      else if newsz < oldsz then retK oldsz
      else allocuvm_loop (2 ^ 20 + 1) pd (PGROUNDUP oldsz) oldsz newsz)"

definition clearpteu :: "u32 \<Rightarrow> u32 \<Rightarrow> ('z kstate_scheme, unit) km" where
  "clearpteu pd uva = bindK (walkpgdir pd uva False) (\<lambda>pte.
     thenK (assertK (pte \<noteq> 0) ''clearpteu'')
     (modK (\<lambda>s. s\<lparr>memory := store32 pte (load32 (memory s) pte AND NOT PTE_U) (memory s)\<rparr>)))"

fun copyuvm_loop :: "nat \<Rightarrow> u32 \<Rightarrow> u32 \<Rightarrow> u32 \<Rightarrow> u32 \<Rightarrow> ('z kstate_scheme, u32) km" where
  "copyuvm_loop 0 pd d sz i = (\<lambda>s. Spin s)"
| "copyuvm_loop (Suc fuel) pd d sz i =
     (if \<not> i < sz then retK d
      else bindK (walkpgdir pd i False) (\<lambda>pte.
        thenK (assertK (pte \<noteq> 0) ''copyuvm: pte should exist'')
       (bindK (getK (\<lambda>s. load32 (memory s) pte)) (\<lambda>v.
        thenK (assertK (\<not> v AND PTE_P = 0) ''copyuvm: page not present'')
       (bindK kalloc (\<lambda>mem.
        if mem = 0 then thenK (freevm d) (retK 0)
        else thenK (modK (\<lambda>s. s\<lparr>memory := memmove mem (P2V (PTE_ADDR v)) PGSIZE (memory s)\<rparr>))
         (bindK (mappages d i PGSIZE (V2P mem) (PTE_FLAGS v)) (\<lambda>r.
          if r < 0 then thenK (kfree mem) (thenK (freevm d) (retK 0))
          else copyuvm_loop fuel pd d sz (i + PGSIZE)))))))))"

definition copyuvm :: "u32 \<Rightarrow> u32 \<Rightarrow> ('z kstate_scheme, u32) km" where
  "copyuvm pd sz = bindK setupkvm (\<lambda>d. if d = 0 then retK 0 else copyuvm_loop (2 ^ 20 + 1) pd d sz 0)"

text \<open>
  \<open>uva2ka\<close> reads the entry without testing that there is one: a missing page table makes it read
  address 0, where the model stops.
\<close>

definition uva2ka :: "u32 \<Rightarrow> u32 \<Rightarrow> ('z kstate_scheme, u32) km" where
  "uva2ka pd uva = bindK (walkpgdir pd uva False) (\<lambda>pte.
     if pte = 0 then panicK ''uva2ka: null entry'' else
     bindK (getK (\<lambda>s. load32 (memory s) pte)) (\<lambda>v.
     retK (if v AND PTE_P = 0 then 0 else if v AND PTE_U = 0 then 0 else P2V (PTE_ADDR v))))"

definition page_chunk :: "u32 \<Rightarrow> nat \<Rightarrow> nat" where
  "page_chunk va len = min len (unat (PGSIZE - (va - PGROUNDDOWN va)))"

lemma unat_page_off: "unat (va - PGROUNDDOWN va) = unat va mod 4096"
proof -
  have "PGROUNDDOWN va \<le> va" by (simp add: word_le_nat_alt unat_PGROUNDDOWN)
  then show ?thesis by (simp add: unat_sub unat_PGROUNDDOWN minus_div_mult_eq_mod)
qed

lemma page_chunk_val: "page_chunk va len = min len (4096 - unat va mod 4096)"
proof -
  have "va - PGROUNDDOWN va \<le> PGSIZE" by (simp add: word_le_nat_alt unat_page_off less_imp_le)
  then show ?thesis by (simp add: page_chunk_def unat_sub unat_page_off)
qed

lemma page_chunk_pos: "0 < len \<Longrightarrow> 0 < page_chunk va len"
  by (simp add: page_chunk_val)

function copyout :: "u32 \<Rightarrow> u32 \<Rightarrow> u8 list \<Rightarrow> ('z kstate_scheme, int) km" where
  "copyout pd va buf = (if buf = [] then retK 0 else
     (let va0 = PGROUNDDOWN va in
      bindK (uva2ka pd va0) (\<lambda>pa0. if pa0 = 0 then retK (-1) else
      (let n = page_chunk va (length buf) in
       thenK (modK (\<lambda>s. s\<lparr>memory := store_bytes (pa0 + (va - va0)) (take n buf) (memory s)\<rparr>))
       (copyout pd (va0 + PGSIZE) (drop n buf))))))"
  by pat_completeness auto
termination
  by (relation "measure (\<lambda>(pd, va, buf). length buf)") (auto simp: page_chunk_pos)

declare copyout.simps [simp del]

end
