(* ===== verification/Proc.thy ===== *)
theory Proc
  imports File Vm
begin

text \<open>
  \<open>proc.c\<close>: creating, ending, waiting for, killing and scheduling processes.
\<close>

section \<open>State\<close>

text \<open>\<open>fork_first\<close>: the static \<open>first\<close> of \<open>forkret\<close>.\<close>

record pstate = fstate +
  fork_first :: bool

definition zero_tf :: trapframe where
  "zero_tf = \<lparr>tf_edi = 0, tf_esi = 0, tf_ebp = 0, tf_oesp = 0, tf_ebx = 0, tf_edx = 0, tf_ecx = 0, tf_eax = 0,
     tf_gs = 0, tf_fs = 0, tf_es = 0, tf_ds = 0, tf_trapno = 0, tf_err = 0, tf_eip = 0, tf_cs = 0, tf_eflags = 0,
     tf_esp = 0, tf_ss = 0\<rparr>"

abbreviation (input) DPL_USER :: u16 where "DPL_USER \<equiv> 3"
abbreviation (input) SEG_UCODE :: u16 where "SEG_UCODE \<equiv> 3"
abbreviation (input) SEG_UDATA :: u16 where "SEG_UDATA \<equiv> 4"
abbreviation (input) FL_IF :: u32 where "FL_IF \<equiv> 0x200"

section \<open>Creating processes\<close>

definition pinit :: "('z kbase_scheme, unit) km" where
  "pinit = modK (\<lambda>s. s\<lparr>held := held s - {LkPtable}\<rparr>)"

text \<open>
  \<open>allocproc\<close>. The trap frame and the context lie in the new stack page; the context is cleared but
  for its \<open>eip\<close>, the trap frame keeps what the page held. They are fields of the process here and not
  bytes of \<open>memory\<close>, and so is \<open>trapret\<close>, the return address above the context, which is the same for
  every process. Process numbers are words: \<open>nextpid++\<close> wraps.
\<close>

definition allocproc :: "('z kstate_scheme, nat option) km" where
  "allocproc = thenK (lk_acquire LkPtable) (bindK (getK ptable) (\<lambda>ps.
     case find (\<lambda>i. pstate (ps ! i) = UNUSED) [0..<NPROC] of
       None \<Rightarrow> thenK (lk_release LkPtable) (retK None)
     | Some i \<Rightarrow>
         bindK (getK nextpid) (\<lambda>n.
         thenK (modK (upd_proc i (\<lambda>p. p\<lparr>pstate := EMBRYO, pid := n\<rparr>)))
        (thenK (modK (\<lambda>s. s\<lparr>nextpid := n + 1\<rparr>))
        (thenK (lk_release LkPtable)
        (bindK kalloc (\<lambda>k.
         thenK (modK (upd_proc i (\<lambda>p. p\<lparr>kstack := k\<rparr>)))
         (if k = 0 then thenK (modK (upd_proc i (\<lambda>p. p\<lparr>pstate := UNUSED\<rparr>))) (retK None)
          else thenK (modK (upd_proc i (\<lambda>p. p\<lparr>ctx_eip := ForkRet\<rparr>))) (retK (Some i))))))))))"

definition set_runnable :: "nat \<Rightarrow> ('z kbase_scheme, unit) km" where
  "set_runnable i = thenK (lk_acquire LkPtable)
    (thenK (modK (upd_proc i (\<lambda>p. p\<lparr>pstate := RUNNABLE\<rparr>))) (lk_release LkPtable))"

definition user_tf :: trapframe where
  "user_tf = zero_tf\<lparr>tf_cs := push_bit 3 SEG_UCODE OR DPL_USER, tf_ds := push_bit 3 SEG_UDATA OR DPL_USER,
     tf_es := push_bit 3 SEG_UDATA OR DPL_USER, tf_ss := push_bit 3 SEG_UDATA OR DPL_USER, tf_eflags := FL_IF,
     tf_esp := PGSIZE, tf_eip := 0\<rparr>"

text \<open>\<open>userinit\<close>: \<open>initcode\<close> is the image the build makes of \<open>initcode.S\<close>. The line it prints is left out.\<close>

definition userinit :: "u8 list \<Rightarrow> ('z pstate_scheme, unit) km" where
  "userinit initcode = bindK allocproc (\<lambda>mp.
     thenK (modK (\<lambda>s. s\<lparr>initproc := mp\<rparr>))
     (case mp of None \<Rightarrow> panicK ''trap'' | Some i \<Rightarrow>
       bindK setupkvm (\<lambda>pd.
       thenK (modK (upd_proc i (\<lambda>p. p\<lparr>pgdir := pd\<rparr>)))
      (thenK (assertK (pd \<noteq> 0) ''userinit: out of memory?'')
      (thenK (inituvm pd initcode)
      (thenK (modK (upd_proc i (\<lambda>p. p\<lparr>psz := PGSIZE, ptf := user_tf,
           pname := safestrcpyL (map of_char ''initcode'') 15\<rparr>)))
      (bindK (namei devsw_table [slash]) (\<lambda>ip.
       thenK (modK (upd_proc i (\<lambda>p. p\<lparr>cwd := ip\<rparr>)))
       (set_runnable i)))))))))"

definition growproc :: "int \<Rightarrow> ('z kstate_scheme, int) km" where
  "growproc n = bindK curproc (\<lambda>c. bindK (getK (\<lambda>s. ptable s ! c)) (\<lambda>p.
     bindK (if n > 0 then allocuvm (pgdir p) (psz p) (psz p + word_of_int n)
            else if n < 0 then deallocuvm (pgdir p) (psz p) (psz p + word_of_int n)
            else retK (psz p)) (\<lambda>sz.
     if n \<noteq> 0 \<and> sz = 0 then retK (-1)
     else thenK (modK (upd_proc c (\<lambda>p. p\<lparr>psz := sz\<rparr>)))
         (thenK (switchuvm (Some c)) (retK 0)))))"

fun fork_files :: "nat \<Rightarrow> nat \<Rightarrow> nat \<Rightarrow> nat \<Rightarrow> ('z fstate_scheme, unit) km" where
  "fork_files c np 0 i = retK ()"
| "fork_files c np (Suc k) i = bindK (getK (\<lambda>s. ofile (ptable s ! c) ! i)) (\<lambda>f.
     thenK (case f of None \<Rightarrow> retK () | Some f \<Rightarrow>
       bindK (filedup f) (\<lambda>f. modK (upd_proc np (\<lambda>p. p\<lparr>ofile := (ofile p)[i := Some f]\<rparr>))))
     (fork_files c np k (Suc i)))"

definition fork :: "('z fstate_scheme, int) km" where
  "fork = bindK curproc (\<lambda>c. bindK allocproc (\<lambda>mp. case mp of None \<Rightarrow> retK (-1) | Some np \<Rightarrow>
     bindK (getK (\<lambda>s. ptable s ! c)) (\<lambda>cp.
     bindK (copyuvm (pgdir cp) (psz cp)) (\<lambda>pd.
     thenK (modK (upd_proc np (\<lambda>p. p\<lparr>pgdir := pd\<rparr>)))
     (if pd = 0 then
        bindK (getK (\<lambda>s. kstack (ptable s ! np))) (\<lambda>k.
        thenK (kfree k)
       (thenK (modK (upd_proc np (\<lambda>p. p\<lparr>kstack := 0, pstate := UNUSED\<rparr>))) (retK (-1))))
      else
        thenK (modK (upd_proc np (\<lambda>p. p\<lparr>psz := psz cp, parent := Some c, ptf := (ptf cp)\<lparr>tf_eax := 0\<rparr>\<rparr>)))
       (thenK (fork_files c np NOFILE 0)
       (bindK (case cwd cp of None \<Rightarrow> panicK ''trap'' | Some d \<Rightarrow> idup d) (\<lambda>d.
        thenK (modK (upd_proc np (\<lambda>p. p\<lparr>cwd := Some d, pname := safestrcpyL (pname cp) 15\<rparr>)))
       (bindK (getK (\<lambda>s. pid (ptable s ! np))) (\<lambda>n.
        thenK (set_runnable np) (retK (sint n))))))))))))"

section \<open>Ending processes\<close>

fun close_files :: "nat \<Rightarrow> nat \<Rightarrow> nat \<Rightarrow> ('z fstate_scheme, unit) km" where
  "close_files c 0 fd = retK ()"
| "close_files c (Suc k) fd = bindK (getK (\<lambda>s. ofile (ptable s ! c) ! fd)) (\<lambda>f.
     thenK (case f of None \<Rightarrow> retK () | Some f \<Rightarrow>
       thenK (fileclose f) (modK (upd_proc c (\<lambda>p. p\<lparr>ofile := (ofile p)[fd := None]\<rparr>))))
     (close_files c k (Suc fd)))"

text \<open>The loop of \<open>exit\<close> that passes abandoned children to \<open>init\<close>.\<close>

fun reparent :: "nat \<Rightarrow> nat \<Rightarrow> nat \<Rightarrow> ('z kbase_scheme, unit) km" where
  "reparent c 0 i = retK ()"
| "reparent c (Suc k) i = bindK (getK (\<lambda>s. ptable s ! i)) (\<lambda>p. bindK (getK initproc) (\<lambda>ini.
     thenK (whenK (parent p = Some c)
       (thenK (modK (upd_proc i (\<lambda>p. p\<lparr>parent := ini\<rparr>)))
        (whenK (pstate p = ZOMBIE) (case ini of None \<Rightarrow> retK () | Some j \<Rightarrow> wakeup1 (ChProc j)))))
     (reparent c k (Suc i))))"

text \<open>The two halves of \<open>exit\<close>: closing the files and leaving the directory, and the part that holds \<open>ptable.lock\<close>.\<close>

definition exit_files :: "nat \<Rightarrow> ('z fstate_scheme, unit) km" where
  "exit_files c = thenK (close_files c NOFILE 0)
    (thenK begin_op
    (bindK (getK (\<lambda>s. cwd (ptable s ! c))) (\<lambda>d.
     thenK (case d of None \<Rightarrow> panicK ''trap'' | Some i \<Rightarrow> iput i)
    (thenK end_op
     (modK (upd_proc c (\<lambda>p. p\<lparr>cwd := None\<rparr>)))))))"

definition exit_locked :: "nat \<Rightarrow> ('z kbase_scheme, unit) km" where
  "exit_locked c = thenK (lk_acquire LkPtable)
    (bindK (getK (\<lambda>s. parent (ptable s ! c))) (\<lambda>pp.
     thenK (case pp of None \<Rightarrow> retK () | Some j \<Rightarrow> wakeup1 (ChProc j))
    (thenK (reparent c NPROC 0)
    (thenK (modK (upd_proc c (\<lambda>p. p\<lparr>pstate := ZOMBIE\<rparr>)))
    (thenK (sched ChNone)
     (panicK ''zombie exit''))))))"

definition exit :: "('z fstate_scheme, unit) km" where
  "exit = bindK curproc (\<lambda>c. bindK (getK initproc) (\<lambda>ini.
     thenK (assertK (\<not> Some c = ini) ''init exiting'')
    (thenK (exit_files c) (exit_locked c))))"

text \<open>The scan of \<open>wait\<close>: the first exited child, and whether there is a child at all.\<close>

definition is_child :: "nat \<Rightarrow> proc list \<Rightarrow> nat \<Rightarrow> bool" where
  "is_child c ps i \<longleftrightarrow> parent (ps ! i) = Some c"

definition zombie_child :: "nat \<Rightarrow> proc list \<Rightarrow> nat option" where
  "zombie_child c ps = find (\<lambda>i. is_child c ps i \<and> pstate (ps ! i) = ZOMBIE) [0..<NPROC]"

definition havekids :: "nat \<Rightarrow> proc list \<Rightarrow> bool" where
  "havekids c ps \<longleftrightarrow> list_ex (is_child c ps) [0..<NPROC]"

definition wait :: "('z kstate_scheme, int) km" where
  "wait = bindK curproc (\<lambda>c. thenK (lk_acquire LkPtable) (bindK (getK ptable) (\<lambda>ps.
     case zombie_child c ps of
       Some i \<Rightarrow>
         thenK (kfree (kstack (ps ! i)))
        (thenK (modK (upd_proc i (\<lambda>p. p\<lparr>kstack := 0\<rparr>)))
        (thenK (freevm (pgdir (ps ! i)))
        (thenK (modK (upd_proc i (\<lambda>p. p\<lparr>pid := 0, parent := None, pname := (pname p)[0 := 0], killed := False,
             pstate := UNUSED\<rparr>)))
        (thenK (lk_release LkPtable)
         (retK (sint (pid (ps ! i))))))))
     | None \<Rightarrow>
         if \<not> havekids c ps \<or> killed (ps ! c) then thenK (lk_release LkPtable) (retK (-1))
         else thenK (sleep (ChProc c) LkPtable) (retK (-1)))))"

definition kill :: "u32 \<Rightarrow> ('z kbase_scheme, int) km" where
  "kill n = thenK (lk_acquire LkPtable) (bindK (getK ptable) (\<lambda>ps.
     case find (\<lambda>i. pid (ps ! i) = n) [0..<NPROC] of
       Some i \<Rightarrow>
         thenK (modK (upd_proc i (\<lambda>p. p\<lparr>killed := True, pstate := (if pstate p = SLEEPING then RUNNABLE else pstate p)\<rparr>)))
        (thenK (lk_release LkPtable) (retK 0))
     | None \<Rightarrow> thenK (lk_release LkPtable) (retK (-1))))"

section \<open>Scheduling\<close>

text \<open>
  One turn of the inner loop of \<open>scheduler\<close> at table entry \<open>i\<close>, with \<open>ptable.lock\<close> held. \<open>run\<close> is
  what happens between the two halves of the context switch: the process runs until it enters
  \<open>sched\<close>, still holding the lock.
\<close>

definition sched_enter :: "nat \<Rightarrow> ('z kstate_scheme, unit) km" where
  "sched_enter i = thenK (modK (\<lambda>s. s\<lparr>cur := Some i\<rparr>))
    (thenK (switchuvm (Some i)) (modK (upd_proc i (\<lambda>p. p\<lparr>pstate := RUNNING\<rparr>))))"

definition sched_leave :: "('z kstate_scheme, unit) km" where
  "sched_leave = thenK switchkvm (modK (\<lambda>s. s\<lparr>cur := None\<rparr>))"

definition scheduler_turn :: "(nat \<Rightarrow> ('z kstate_scheme, unit) km) \<Rightarrow> nat \<Rightarrow> ('z kstate_scheme, unit) km" where
  "scheduler_turn run i = bindK (getK (\<lambda>s. pstate (ptable s ! i))) (\<lambda>st.
     if st \<noteq> RUNNABLE then retK ()
     else thenK (sched_enter i) (thenK (run i) sched_leave))"

text \<open>The inner loop over the table, and one turn of the outer loop.\<close>

fun scheduler_pass :: "(nat \<Rightarrow> ('z kstate_scheme, unit) km) \<Rightarrow> nat list \<Rightarrow> ('z kstate_scheme, unit) km" where
  "scheduler_pass run [] = retK ()"
| "scheduler_pass run (i # is) = thenK (scheduler_turn run i) (scheduler_pass run is)"

definition scheduler_round :: "(nat \<Rightarrow> ('z kstate_scheme, unit) km) \<Rightarrow> ('z kstate_scheme, unit) km" where
  "scheduler_round run = thenK (lk_acquire LkPtable) (thenK (scheduler_pass run [0..<NPROC]) (lk_release LkPtable))"

definition yield :: "('z kbase_scheme, unit) km" where
  "yield = thenK (lk_acquire LkPtable) (bindK curproc (\<lambda>c.
     thenK (modK (upd_proc c (\<lambda>p. p\<lparr>pstate := RUNNABLE\<rparr>)))
    (thenK (sched ChNone) (lk_release LkPtable))))"

definition forkret :: "('z pstate_scheme, unit) km" where
  "forkret = thenK (lk_release LkPtable) (bindK (getK fork_first) (\<lambda>first.
     whenK first
       (thenK (modK (\<lambda>s. s\<lparr>fork_first := False\<rparr>))
       (thenK (iinit ROOTDEV) (initlog ROOTDEV)))))"

section \<open>The scheduler serves every process\<close>

text \<open>
  A process that may run has a kernel stack and a page directory. What the processes do is observed
  through \<open>tr\<close>, some part of the state that the scheduler itself has no access to.

  \<open>run_ok tr run\<close> is what the scheduler relies on when it switches to a process with its page table
  loaded: \<open>run i\<close> is process \<open>i\<close> running, which \<open>tr\<close> shows; it comes back, holding \<open>ptable.lock\<close> and nothing
  else; a process that was runnable still is, since only the scheduler takes a process out of that state,
  and has a stack and a page directory.
\<close>

definition can_run :: "proc \<Rightarrow> bool" where
  "can_run p \<longleftrightarrow> (pstate p = RUNNABLE \<longrightarrow> kstack p \<noteq> 0 \<and> pgdir p \<noteq> 0)"

definition runnable :: "'z kbase_scheme \<Rightarrow> nat set" where
  "runnable s = {i. i < length (ptable s) \<and> pstate (ptable s ! i) = RUNNABLE}"

definition observer :: "('z kstate_scheme \<Rightarrow> nat list) \<Rightarrow> bool" where
  "observer tr \<longleftrightarrow> (\<forall>s h c p r. tr (s\<lparr>held := h, cur := c, ptable := p, cr3 := r\<rparr>) = tr s)"

definition dispatched :: "nat \<Rightarrow> 'z kstate_scheme \<Rightarrow> bool" where
  "dispatched i s \<longleftrightarrow> i < length (ptable s) \<and> held s = {LkPtable} \<and> cur s = Some i \<and> pstate (ptable s ! i) = RUNNING \<and>
     kstack (ptable s ! i) \<noteq> 0 \<and> pgdir (ptable s ! i) \<noteq> 0 \<and> cr3 s = V2P (pgdir (ptable s ! i)) \<and> list_all can_run (ptable s)"

definition run_ok :: "('z kstate_scheme \<Rightarrow> nat list) \<Rightarrow> (nat \<Rightarrow> ('z kstate_scheme, unit) km) \<Rightarrow> bool" where
  "run_ok tr run \<longleftrightarrow> (\<forall>i s. dispatched i s \<longrightarrow> (\<exists>t. run i s = Ret () t \<and> tr t = tr s @ [i] \<and> held t = {LkPtable} \<and>
     length (ptable t) = length (ptable s) \<and> list_all can_run (ptable t) \<and> runnable s - {i} \<subseteq> runnable t))"

definition sched_inv :: "'z kbase_scheme \<Rightarrow> bool" where
  "sched_inv s \<longleftrightarrow> held s = {LkPtable} \<and> length (ptable s) = NPROC \<and> list_all can_run (ptable s)"

lemma list_all_update: "list_all P xs \<Longrightarrow> P x \<Longrightarrow> list_all P (xs[i := x])"
  by (auto simp: list_all_iff dest!: set_update_subset_insert [THEN subsetD])

lemma observer_upd:
  assumes "observer tr"
  shows "tr (s\<lparr>cur := c, ptable := p, cr3 := r\<rparr>) = tr s" "tr (s\<lparr>cur := c, cr3 := r\<rparr>) = tr s" "tr (s\<lparr>held := h\<rparr>) = tr s"
proof -
  have o: "tr (s\<lparr>held := h, cur := c, ptable := p, cr3 := r\<rparr>) = tr s" for s h c p r
    using assms by (simp add: observer_def)
  show "tr (s\<lparr>cur := c, ptable := p, cr3 := r\<rparr>) = tr s" using o [where s = s and h = "held s"] by simp
  show "tr (s\<lparr>cur := c, cr3 := r\<rparr>) = tr s" using o [where s = s and h = "held s" and p = "ptable s"] by simp
  show "tr (s\<lparr>held := h\<rparr>) = tr s" using o [where s = s and c = "cur s" and p = "ptable s" and r = "cr3 s"] by simp
qed

lemma turn_ok:
  assumes tr: "observer tr" and run: "run_ok tr run" and s: "sched_inv s" and i: "i < NPROC"
  shows "\<exists>t. scheduler_turn run i s = Ret () t \<and> tr t = tr s @ (if i \<in> runnable s then [i] else []) \<and> sched_inv t \<and>
    runnable s - {i} \<subseteq> runnable t"
proof (cases "i \<in> runnable s")
  case False
  then show ?thesis using s i by (simp add: scheduler_turn_def sched_inv_def runnable_def km_simps)
next
  case True
  have len: "i < length (ptable s)" and st: "pstate (ptable s ! i) = RUNNABLE" using True by (simp_all add: runnable_def)
  have kp: "kstack (ptable s ! i) \<noteq> 0" "pgdir (ptable s ! i) \<noteq> 0"
    using s len st by (auto simp: sched_inv_def list_all_length can_run_def)
  let ?u = "s\<lparr>cur := Some i, ptable := (ptable s)[i := (ptable s ! i)\<lparr>pstate := RUNNING\<rparr>], cr3 := V2P (pgdir (ptable s ! i))\<rparr>"
  have e: "sched_enter i s = Ret () ?u" using kp by (simp add: sched_enter_def switchuvm_def km_simps upd_proc_def)
  have "list_all can_run (ptable ?u)"
    using s list_all_update [of can_run "ptable s" "(ptable s ! i)\<lparr>pstate := RUNNING\<rparr>" i]
    by (simp add: sched_inv_def can_run_def)
  then have "dispatched i ?u" using s len kp by (simp add: dispatched_def sched_inv_def)
  then obtain t where t: "run i ?u = Ret () t" "tr t = tr ?u @ [i]" "held t = {LkPtable}" "length (ptable t) = length (ptable s)"
    "list_all can_run (ptable t)" "runnable ?u - {i} \<subseteq> runnable t"
    using run [unfolded run_ok_def, rule_format, of i ?u] by auto
  let ?t = "t\<lparr>cur := None, cr3 := V2P (kpgdir t)\<rparr>"
  have "scheduler_turn run i s = Ret () ?t"
    using st e t(1) by (simp add: scheduler_turn_def km_simps sched_leave_def switchkvm_def)
  moreover have "tr ?t = tr s @ [i]" using t(2) by (simp add: observer_upd [OF tr])
  moreover have "runnable s - {i} \<subseteq> runnable ?u - {i}" by (auto simp: runnable_def nth_list_update)
  ultimately show ?thesis using True t s by (auto simp: sched_inv_def runnable_def)
qed

lemma pass_ok:
  assumes ok: "observer tr" "run_ok tr run" and "sched_inv s" "set is \<subseteq> {..<NPROC}" "sorted_wrt (<) is"
  shows "\<exists>rs t. scheduler_pass run is s = Ret () t \<and> tr t = tr s @ rs \<and> sched_inv t \<and> set rs \<subseteq> set is \<and>
    sorted_wrt (<) rs \<and> runnable s \<inter> set is \<subseteq> set rs"
  using assms(3-)
proof (induction "is" arbitrary: s)
  case (Cons i "is")
  let ?r = "if i \<in> runnable s then [i] else []"
  obtain t where t: "scheduler_turn run i s = Ret () t" "tr t = tr s @ ?r" "sched_inv t" "runnable s - {i} \<subseteq> runnable t"
    using turn_ok [OF ok Cons.prems(1), of i] Cons.prems(2) by auto
  obtain rs u where u: "scheduler_pass run is t = Ret () u" "tr u = tr t @ rs" "sched_inv u" "set rs \<subseteq> set is"
    "sorted_wrt (<) rs" "runnable t \<inter> set is \<subseteq> set rs"
    using Cons.IH [OF t(3)] Cons.prems by auto
  have "scheduler_pass run (i # is) s = Ret () u" using t(1) u(1) by (simp add: km_simps)
  moreover have "runnable s \<inter> set (i # is) \<subseteq> set (?r @ rs)" using u(6) t(4) Cons.prems(3) by auto
  moreover have "set (?r @ rs) \<subseteq> set (i # is)" "sorted_wrt (<) (?r @ rs)" using u(4,5) Cons.prems(3) by auto
  moreover have "tr u = tr s @ ?r @ rs" using t(2) u(2) by simp
  ultimately show ?case using u(3) by blast
qed (simp add: retK_def)

text \<open>
  C24. A round of the scheduler serves every process. If a process that is switched to comes back
  through \<open>sched\<close> and takes no other process off the runnable ones, the round ends, and the processes that
  ran in it, in the order in which they did, include every process that was runnable when it began, each
  once, in the order of the table. Each ran as the current process, with its own page table loaded, in
  state \<open>RUNNING\<close> and with \<open>ptable.lock\<close> held; afterwards the lock is free.
\<close>

theorem scheduler_fair:
  assumes ok: "observer tr" "run_ok tr run" and s: "held s = {}" "length (ptable s) = NPROC" "list_all can_run (ptable s)"
  shows "\<exists>rs t. scheduler_round run s = Ret () t \<and> tr t = tr s @ rs \<and> runnable s \<subseteq> set rs \<and> distinct rs \<and> sorted rs \<and> held t = {}"
proof -
  let ?s = "s\<lparr>held := {LkPtable}\<rparr>"
  have "sched_inv ?s" using s by (simp add: sched_inv_def)
  then obtain rs t where t: "scheduler_pass run [0..<NPROC] ?s = Ret () t" "tr t = tr ?s @ rs" "sched_inv t" "sorted_wrt (<) rs"
    "runnable ?s \<inter> {0..<NPROC} \<subseteq> set rs"
    using pass_ok [OF ok, of ?s "[0..<NPROC]"] by fastforce
  have "scheduler_round run s = Ret () (t\<lparr>held := {}\<rparr>)"
    using s t(1,3) by (simp add: scheduler_round_def km_simps sched_inv_def)
  moreover have "runnable s \<subseteq> set rs" using t(5) s(2) by (auto simp: runnable_def)
  moreover have "distinct rs" "sorted rs"
    using t(4) by (simp_all add: strict_sorted_iff)
  moreover have "tr (t\<lparr>held := {}\<rparr>) = tr s @ rs" using t(2) by (simp add: observer_upd [OF ok(1)])
  ultimately show ?thesis by auto
qed

section \<open>Exit\<close>

text \<open>
  What the loop of \<open>exit\<close> makes of an entry: a child of \<open>c\<close> goes to \<open>init\<close>, and if one of them had already
  exited, \<open>init\<close> is woken in case it waits.
\<close>

definition adopt :: "nat \<Rightarrow> nat \<Rightarrow> proc \<Rightarrow> proc" where
  "adopt c ini p = (if parent p = Some c then p\<lparr>parent := Some ini\<rparr> else p)"

definition wake_if :: "bool \<Rightarrow> chan \<Rightarrow> proc \<Rightarrow> proc" where
  "wake_if b c p = (if b then wakeup_proc c p else p)"

lemma wake_if_simps:
  "parent (wake_if b ch p) = parent p" "pstate (wake_if b ch p) = ZOMBIE \<longleftrightarrow> pstate p = ZOMBIE"
  "adopt c ini (wake_if b ch p) = wake_if b ch (adopt c ini p)" "wake_if b ch (wake_if b' ch p) = wake_if (b \<or> b') ch p"
  "parent (adopt c ini p) = (if parent p = Some c then Some ini else parent p)" "pstate (adopt c ini p) = pstate p"
  by (auto simp: wake_if_def wakeup_proc_def adopt_def)

lemma wake_if_fun: "wake_if True ch = wakeup_proc ch" "wake_if False ch = id"
  by (simp_all add: wake_if_def fun_eq_iff)

lemma reparent_eval:
  assumes "initproc s = Some ini" "i + k \<le> length (ptable s)" "ini \<noteq> c"
  shows "\<exists>pt. reparent c k i s = Ret () (s\<lparr>ptable := pt\<rparr>) \<and> length pt = length (ptable s) \<and>
    (\<forall>n < length pt. pt ! n =
       wake_if (\<exists>m. i \<le> m \<and> m < i + k \<and> parent (ptable s ! m) = Some c \<and> pstate (ptable s ! m) = ZOMBIE) (ChProc ini)
        (if i \<le> n \<and> n < i + k then adopt c ini (ptable s ! n) else ptable s ! n))"
  using assms(1,2)
proof (induction k arbitrary: i s)
  case 0
  then show ?case by (intro exI [of _ "ptable s"]) (auto simp: retK_def wake_if_def)
next
  case (Suc k)
  let ?p = "ptable s ! i"
  define z where "z \<longleftrightarrow> parent ?p = Some c \<and> pstate ?p = ZOMBIE"
  define ps where "ps = map (wake_if z (ChProc ini)) ((ptable s)[i := adopt c ini ?p])"
  have step: "reparent c (Suc k) i s = reparent c k (Suc i) (s\<lparr>ptable := ps\<rparr>)"
    using Suc.prems(1) by (cases "parent ?p = Some c"; cases "pstate ?p = ZOMBIE")
      (simp_all add: km_simps upd_proc_def wakeup1_def ps_def z_def adopt_def wake_if_fun)
  have i: "i < length (ptable s)" using Suc.prems(2) by simp
  have ps: "ps ! n = wake_if z (ChProc ini) (if n = i then adopt c ini ?p else ptable s ! n)" if "n < length (ptable s)" for n
    using that i by (simp add: ps_def nth_list_update)
  obtain pt where pt: "reparent c k (Suc i) (s\<lparr>ptable := ps\<rparr>) = Ret () (s\<lparr>ptable := pt\<rparr>)" "length pt = length ps"
    "\<And>n. n < length pt \<Longrightarrow> pt ! n =
       wake_if (\<exists>m. Suc i \<le> m \<and> m < Suc i + k \<and> parent (ps ! m) = Some c \<and> pstate (ps ! m) = ZOMBIE) (ChProc ini)
        (if Suc i \<le> n \<and> n < Suc i + k then adopt c ini (ps ! n) else ps ! n)"
    using Suc.IH [of "s\<lparr>ptable := ps\<rparr>" "Suc i"] Suc.prems by (auto simp: ps_def)
  have ex: "(\<exists>m. Suc i \<le> m \<and> m < Suc i + k \<and> parent (ps ! m) = Some c \<and> pstate (ps ! m) = ZOMBIE) \<or> z \<longleftrightarrow>
    (\<exists>m. i \<le> m \<and> m < i + Suc k \<and> parent (ptable s ! m) = Some c \<and> pstate (ptable s ! m) = ZOMBIE)"
  proof -
    have "parent (ps ! m) = parent (ptable s ! m) \<and> (pstate (ps ! m) = ZOMBIE \<longleftrightarrow> pstate (ptable s ! m) = ZOMBIE)"
      if "Suc i \<le> m" "m < Suc i + k" for m
      using ps [of m] that Suc.prems(2) by (simp add: wake_if_simps)
    then have "(\<exists>m. Suc i \<le> m \<and> m < Suc i + k \<and> parent (ps ! m) = Some c \<and> pstate (ps ! m) = ZOMBIE) \<longleftrightarrow>
      (\<exists>m. Suc i \<le> m \<and> m < Suc i + k \<and> parent (ptable s ! m) = Some c \<and> pstate (ptable s ! m) = ZOMBIE)" by metis
    moreover have "i \<le> m \<and> m < i + Suc k \<longleftrightarrow> m = i \<or> Suc i \<le> m \<and> m < Suc i + k" for m by auto
    ultimately show ?thesis unfolding z_def by metis
  qed
  show ?case
  proof (intro exI conjI allI impI)
    show "reparent c (Suc k) i s = Ret () (s\<lparr>ptable := pt\<rparr>)" using step pt(1) by simp
    show "length pt = length (ptable s)" using pt(2) by (simp add: ps_def)
    fix n assume n: "n < length pt"
    then have n': "n < length (ptable s)" using pt(2) by (simp add: ps_def)
    show "pt ! n = wake_if (\<exists>m. i \<le> m \<and> m < i + Suc k \<and> parent (ptable s ! m) = Some c \<and> pstate (ptable s ! m) = ZOMBIE) (ChProc ini)
        (if i \<le> n \<and> n < i + Suc k then adopt c ini (ptable s ! n) else ptable s ! n)"
      unfolding pt(3) [OF n] ex [symmetric] using ps [OF n'] by (auto simp: wake_if_simps)
  qed
qed

lemma exit_locked_eval:
  assumes s: "held s = {}" "cur s = Some c" "length (ptable s) = NPROC" "c < NPROC"
    and ini: "initproc s = Some ini" "ini \<noteq> c" and pp: "parent (ptable s ! c) = Some pa" "pa \<noteq> c"
  shows "\<exists>pt. exit_locked c s = Sleep ChNone (s\<lparr>held := {LkPtable}, ptable := pt\<rparr>) \<and> length pt = NPROC \<and>
    pt ! c = (ptable s ! c)\<lparr>pstate := ZOMBIE\<rparr> \<and>
    (\<forall>n < NPROC. n \<noteq> c \<longrightarrow> pt ! n = wake_if (\<exists>m < NPROC. parent (ptable s ! m) = Some c \<and> pstate (ptable s ! m) = ZOMBIE) (ChProc ini)
       (adopt c ini (wakeup_proc (ChProc pa) (ptable s ! n))))"
proof -
  let ?s = "s\<lparr>held := {LkPtable}, ptable := map (wakeup_proc (ChProc pa)) (ptable s)\<rparr>"
  define F where "F \<longleftrightarrow> (\<exists>m < NPROC. parent (ptable s ! m) = Some c \<and> pstate (ptable s ! m) = ZOMBIE)"
  have zw: "pstate (wakeup_proc ch p) = ZOMBIE \<longleftrightarrow> pstate p = ZOMBIE" for ch p by (simp add: wakeup_proc_def)
  obtain pt where pt: "reparent c NPROC 0 ?s = Ret () (?s\<lparr>ptable := pt\<rparr>)" "length pt = NPROC"
    "\<And>n. n < NPROC \<Longrightarrow> pt ! n = wake_if F (ChProc ini) (adopt c ini (wakeup_proc (ChProc pa) (ptable s ! n)))"
    using reparent_eval [of ?s ini 0 NPROC c] s(3) ini by (auto simp: F_def zw cong: conj_cong)
  let ?pt = "pt[c := (pt ! c)\<lparr>pstate := ZOMBIE\<rparr>]"
  have "exit_locked c s = Sleep ChNone (s\<lparr>held := {LkPtable}, ptable := ?pt\<rparr>)"
    using s pp pt(1,2) by (simp add: exit_locked_def km_simps wakeup1_def upd_proc_def sched_def)
  moreover have "?pt ! c = (ptable s ! c)\<lparr>pstate := ZOMBIE\<rparr>"
    using s(4) pt(2) pt(3) [OF s(4)] pp by (simp add: wake_if_def adopt_def wakeup_proc_def)
  moreover have "?pt ! n = wake_if F (ChProc ini) (adopt c ini (wakeup_proc (ChProc pa) (ptable s ! n)))"
    if "n < NPROC" "n \<noteq> c" for n using that pt by simp
  ultimately show ?thesis unfolding F_def [symmetric] using pt(2) by (intro exI [of _ ?pt]) simp
qed

text \<open>
  C25. A process that exits leaves nobody behind. Once it has closed its files and left its directory,
  \<open>exit\<close> does not return: the CPU goes to the scheduler with \<open>ptable.lock\<close> held. The entry of the process is
  a zombie, with all else it had, for the parent to find. Of every other entry two things may have changed:
  a child of the process is now a child of \<open>init\<close>; and a process asleep in \<open>wait\<close> is runnable if it is the
  parent, or if it is \<open>init\<close> and one of the children it got has already exited. Nothing else in the kernel
  changes.
\<close>

theorem exit_hands_over:
  assumes s: "cur s = Some c" "initproc s = Some ini" "ini \<noteq> c" and closed: "exit_files c s = Ret () u"
    and u: "held u = {}" "cur u = Some c" "length (ptable u) = NPROC" "c < NPROC" "initproc u = Some ini"
    and pp: "parent (ptable u ! c) = Some pa" "pa \<noteq> c"
  shows "\<exists>pt. exit s = Sleep ChNone (u\<lparr>held := {LkPtable}, ptable := pt\<rparr>) \<and> length pt = NPROC \<and>
    pt ! c = (ptable u ! c)\<lparr>pstate := ZOMBIE\<rparr> \<and>
    (\<forall>n < NPROC. n \<noteq> c \<longrightarrow> pt ! n = (ptable u ! n)
      \<lparr>parent := (if parent (ptable u ! n) = Some c then Some ini else parent (ptable u ! n)),
       pstate := (if pstate (ptable u ! n) = SLEEPING \<and> (pchan (ptable u ! n) = Some (ChProc pa) \<or>
           pchan (ptable u ! n) = Some (ChProc ini) \<and>
           (\<exists>m < NPROC. parent (ptable u ! m) = Some c \<and> pstate (ptable u ! m) = ZOMBIE))
         then RUNNABLE else pstate (ptable u ! n))\<rparr>)"
proof -
  have e: "exit s = exit_locked c u" using s closed by (simp add: exit_def km_simps)
  have w: "wake_if F (ChProc ini) (adopt c ini (wakeup_proc (ChProc pa) p)) =
    p\<lparr>parent := (if parent p = Some c then Some ini else parent p),
      pstate := (if pstate p = SLEEPING \<and> (pchan p = Some (ChProc pa) \<or> pchan p = Some (ChProc ini) \<and> F) then RUNNABLE else pstate p)\<rparr>"
    for F p by (auto simp: wake_if_def adopt_def wakeup_proc_def)
  show ?thesis using exit_locked_eval [OF u(1-5) s(3) pp] unfolding e w .
qed

section \<open>Process numbers\<close>

text \<open>The numbers of live processes are distinct, not 0, and all were given out already.\<close>

definition pid_inv :: "'z kbase_scheme \<Rightarrow> bool" where
  "pid_inv s \<longleftrightarrow> (\<forall>i < length (ptable s). pstate (ptable s ! i) \<noteq> UNUSED \<longrightarrow>
       0 < unat (pid (ptable s ! i)) \<and> unat (pid (ptable s ! i)) < unat (nextpid s)) \<and>
     (\<forall>i < length (ptable s). \<forall>j < length (ptable s). pstate (ptable s ! i) \<noteq> UNUSED \<longrightarrow> pstate (ptable s ! j) \<noteq> UNUSED \<longrightarrow>
       pid (ptable s ! i) = pid (ptable s ! j) \<longrightarrow> i = j)"

lemma find_upt: "find P [0..<n] = Some i \<longleftrightarrow> i < n \<and> P i \<and> (\<forall>j < i. \<not> P j)"
  by (auto simp: find_Some_iff)

lemma find_upt_None: "find P [0..<n] = None \<longleftrightarrow> (\<forall>j < n. \<not> P j)"
  by (auto simp: find_None_iff)

lemma allocproc_eval:
  assumes "held s = {}" "length (ptable s) = NPROC"
  shows "allocproc s = (case find (\<lambda>i. pstate (ptable s ! i) = UNUSED) [0..<NPROC] of None \<Rightarrow> Ret None s
    | Some i \<Rightarrow> if freelist s = 0
        then Ret None (s\<lparr>ptable := (ptable s)[i := (ptable s ! i)\<lparr>pid := nextpid s, kstack := 0, pstate := UNUSED\<rparr>], nextpid := nextpid s + 1\<rparr>)
        else Ret (Some i) (s\<lparr>ptable := (ptable s)[i := (ptable s ! i)\<lparr>pstate := EMBRYO, pid := nextpid s, kstack := freelist s, ctx_eip := ForkRet\<rparr>],
          nextpid := nextpid s + 1, freelist := load32 (memory s) (freelist s)\<rparr>))"
proof (cases "find (\<lambda>i. pstate (ptable s ! i) = UNUSED) [0..<NPROC]")
  case None
  have "s\<lparr>held := {}\<rparr> = s" using assms by simp
  then show ?thesis using None assms by (simp add: allocproc_def km_simps)
next
  case (Some i)
  then have i: "i < length (ptable s)" using assms by (simp add: find_upt)
  show ?thesis
  proof (cases "freelist s = 0")
    case True
    show ?thesis using Some i assms True
      by (simp add: allocproc_def km_simps upd_proc_def kalloc_eval)
  next
    case False
    show ?thesis using Some i assms False
      by (simp add: allocproc_def km_simps upd_proc_def kalloc_eval)
  qed
qed

text \<open>
  C26. \<open>allocproc\<close> keeps process numbers apart. As long as the counter has not wrapped, an allocation that
  succeeds gives the first unused entry a number no live process has; the numbers of live processes stay
  distinct whether it succeeds, finds no entry or finds no memory for the kernel stack, and no other entry
  changes.
\<close>

theorem allocproc_pids:
  assumes s: "held s = {}" "length (ptable s) = NPROC" "pid_inv s" and n: "0 < unat (nextpid s)" "unat (nextpid s) + 1 < 2 ^ 32"
  shows "\<exists>r t. allocproc s = Ret r t \<and> pid_inv t \<and>
    (case r of None \<Rightarrow> (\<forall>i < NPROC. pstate (ptable s ! i) \<noteq> UNUSED) \<or> freelist s = 0
     | Some i \<Rightarrow> i < NPROC \<and> pstate (ptable s ! i) = UNUSED \<and> (\<forall>j < i. pstate (ptable s ! j) \<noteq> UNUSED) \<and>
         pstate (ptable t ! i) = EMBRYO \<and> pid (ptable t ! i) = nextpid s \<and>
         (\<forall>j < NPROC. pstate (ptable s ! j) \<noteq> UNUSED \<longrightarrow> pid (ptable s ! j) \<noteq> nextpid s)) \<and>
    (\<forall>j < NPROC. pstate (ptable s ! j) \<noteq> UNUSED \<longrightarrow> ptable t ! j = ptable s ! j)"
proof (cases "find (\<lambda>i. pstate (ptable s ! i) = UNUSED) [0..<NPROC]")
  case None
  moreover have "\<forall>j < NPROC. pstate (ptable s ! j) \<noteq> UNUSED" using None by (simp add: find_upt_None)
  ultimately show ?thesis using s by (intro exI [of _ None] exI [of _ s]) (simp add: allocproc_eval)
next
  case (Some i)
  then have i: "i < NPROC" "pstate (ptable s ! i) = UNUSED" "\<forall>j < i. pstate (ptable s ! j) \<noteq> UNUSED" by (auto simp: find_upt)
  have n1: "unat (nextpid s + 1) = unat (nextpid s) + 1" using n(2) unat_add_u32 [of "nextpid s" 1] by simp
  have old: "unat (pid (ptable s ! j)) < unat (nextpid s)" "0 < unat (pid (ptable s ! j))"
    if "j < NPROC" "pstate (ptable s ! j) \<noteq> UNUSED" for j using s that by (auto simp: pid_inv_def)
  then have fresh: "\<forall>j < NPROC. pstate (ptable s ! j) \<noteq> UNUSED \<longrightarrow> pid (ptable s ! j) \<noteq> nextpid s" by fastforce
  have inv: "pid_inv (s\<lparr>ptable := (ptable s)[i := q], nextpid := nextpid s + 1, freelist := x\<rparr>)"
    if "pid q = nextpid s" for q x
  proof -
    let ?t = "s\<lparr>ptable := (ptable s)[i := q], nextpid := nextpid s + 1, freelist := x\<rparr>"
    have t: "ptable ?t ! j = (if j = i then q else ptable s ! j)" if "j < NPROC" for j using that s(2) by (simp add: nth_list_update)
    have "0 < unat (pid (ptable ?t ! j)) \<and> unat (pid (ptable ?t ! j)) < unat (nextpid ?t)"
      if "j < NPROC" "pstate (ptable ?t ! j) \<noteq> UNUSED" for j
      using t [of j] that old [of j] n(1) n1 \<open>pid q = _\<close> by (cases "j = i") simp_all
    moreover have "j = k" if "j < NPROC" "k < NPROC" "pstate (ptable ?t ! j) \<noteq> UNUSED" "pstate (ptable ?t ! k) \<noteq> UNUSED"
      "pid (ptable ?t ! j) = pid (ptable ?t ! k)" for j k
      using t [of j] t [of k] that fresh s(2,3) \<open>pid q = _\<close> by (cases "j = i"; cases "k = i") (auto simp: pid_inv_def)
    ultimately show ?thesis using s(2) by (simp add: pid_inv_def)
  qed
  show ?thesis
  proof (cases "freelist s = 0")
    case True
    have "pid_inv (s\<lparr>ptable := (ptable s)[i := q], nextpid := nextpid s + 1\<rparr>)" if "pid q = nextpid s" for q
      using inv [OF that, of "freelist s"] by (simp add: pid_inv_def)
    then show ?thesis using Some s i True by (auto simp: allocproc_eval nth_list_update)
  next
    case False
    then show ?thesis using Some s i inv fresh by (auto simp: allocproc_eval nth_list_update)
  qed
qed

section \<open>Kill\<close>

text \<open>
  C34. \<open>kill(0)\<close> succeeds and poisons an unused entry. Unused entries have process number 0, which \<open>kill\<close>
  does not exclude, and \<open>allocproc\<close> does not reset the flag: the next process made in that entry is born
  killed.
\<close>

theorem kill_zero_poisons:
  assumes s: "held s = {}" "length (ptable s) = NPROC" "freelist s \<noteq> 0"
    and i: "i < NPROC" "pid (ptable s ! i) = 0" "pstate (ptable s ! i) = UNUSED"
    and first: "\<forall>j < i. pid (ptable s ! j) \<noteq> 0 \<and> pstate (ptable s ! j) \<noteq> UNUSED"
  shows "\<exists>t u. kill 0 s = Ret 0 t \<and> allocproc t = Ret (Some i) u \<and> killed (ptable u ! i) \<and> pstate (ptable u ! i) = EMBRYO"
proof -
  have f: "find (\<lambda>i. pid (ptable s ! i) = 0) [0..<NPROC] = Some i" using i first by (simp add: find_upt)
  let ?t = "s\<lparr>ptable := (ptable s)[i := (ptable s ! i)\<lparr>killed := True\<rparr>]\<rparr>"
  have p: "(ptable s ! i)\<lparr>killed := True, pstate := UNUSED\<rparr> = (ptable s ! i)\<lparr>killed := True\<rparr>" by (simp add: i(3))
  have k: "kill 0 s = Ret 0 ?t" using s f i(3)
    by (simp add: kill_def km_simps upd_proc_def p)
  have "find (\<lambda>j. pstate (ptable ?t ! j) = UNUSED) [0..<NPROC] = Some i"
    using i first s(2) by (simp add: find_upt nth_list_update)
  then have "allocproc ?t = Ret (Some i) (?t\<lparr>ptable := (ptable ?t)[i := (ptable ?t ! i)\<lparr>pstate := EMBRYO, pid := nextpid s,
      kstack := freelist s, ctx_eip := ForkRet\<rparr>], nextpid := nextpid s + 1, freelist := load32 (memory s) (freelist s)\<rparr>)"
    using allocproc_eval [of ?t] s by simp
  then show ?thesis using k i(1) s(2) by (intro exI conjI) (assumption, assumption, simp_all)
qed

section \<open>Witnesses\<close>

definition idle_proc :: proc where
  "idle_proc = demo_proc\<lparr>pstate := UNUSED, pid := 0\<rparr>"

definition demo_table :: "proc list" where
  "demo_table = [demo_proc\<lparr>pstate := SLEEPING, pchan := Some (ChProc 0)\<rparr>,
     demo_proc\<lparr>pid := 2, parent := Some 0, pstate := RUNNABLE, kstack := 0x80400000, pgdir := 0x80401000, cwd := Some 0\<rparr>,
     demo_proc\<lparr>pid := 3, parent := Some 1, pstate := ZOMBIE\<rparr>] @ replicate 61 idle_proc"

definition demo_kernel :: kstate where
  "demo_kernel = boot_kstate\<lparr>held := {}, cur := Some 1, ptable := demo_table, nextpid := 4, initproc := Some 0,
     freelist := 0x80500000\<rparr>"

lemma demo_kernel_fields:
  "held demo_kernel = {}" "cur demo_kernel = Some 1" "ptable demo_kernel = demo_table" "nextpid demo_kernel = 4"
  "initproc demo_kernel = Some 0" "freelist demo_kernel \<noteq> 0"
  by (simp_all add: demo_kernel_def)

lemma demo_table_nth:
  "length demo_table = NPROC" "demo_table ! 0 = demo_proc\<lparr>pstate := SLEEPING, pchan := Some (ChProc 0)\<rparr>"
  "demo_table ! 1 = demo_proc\<lparr>pid := 2, parent := Some 0, pstate := RUNNABLE, kstack := 0x80400000, pgdir := 0x80401000, cwd := Some 0\<rparr>"
  "demo_table ! 2 = demo_proc\<lparr>pid := 3, parent := Some 1, pstate := ZOMBIE\<rparr>"
  "3 \<le> i \<Longrightarrow> i < NPROC \<Longrightarrow> demo_table ! i = idle_proc"
  by (simp_all add: demo_table_def nth_append)

lemmas demo_slots = demo_kernel_fields demo_table_nth(1-4) demo_table_nth(3) [simplified] demo_proc_def

text \<open>
  A process that leaves \<open>sched\<close> at the end of \<open>yield\<close>, and whose next time slice ends at once: it releases
  the lock and yields again. The processes are listed in an extra component of the state.
\<close>

definition until_sched :: "('s, unit) km \<Rightarrow> ('s, unit) km" where
  "until_sched m s = (case m s of Sleep c t \<Rightarrow> Ret () t | r \<Rightarrow> r)"

definition slice :: "nat \<Rightarrow> (nat list kstate_scheme, unit) km" where
  "slice i = until_sched (thenK (modK (kstate.more_update (\<lambda>is. is @ [i]))) (thenK (lk_release LkPtable) yield))"

lemma slice_ok: "observer kstate.more" "run_ok kstate.more slice"
proof -
  show "observer kstate.more" by (simp add: observer_def)
  show "run_ok kstate.more slice" unfolding run_ok_def
  proof (intro allI impI)
    fix i and s :: "nat list kstate_scheme"
    assume d: "dispatched i s"
    let ?p = "(ptable s ! i)\<lparr>pstate := RUNNABLE\<rparr>"
    let ?t = "kstate.more_update (\<lambda>is. is @ [i]) (s\<lparr>ptable := (ptable s)[i := ?p]\<rparr>)"
    have "slice i s = Ret () ?t"
      using d by (simp add: slice_def until_sched_def yield_def sched_def dispatched_def km_simps upd_proc_def)
    moreover have "runnable s - {i} \<subseteq> runnable ?t" by (auto simp: runnable_def)
    ultimately show "\<exists>t. slice i s = Ret () t \<and> kstate.more t = kstate.more s @ [i] \<and> held t = {LkPtable} \<and>
       length (ptable t) = length (ptable s) \<and> list_all can_run (ptable t) \<and> runnable s - {i} \<subseteq> runnable t"
      using d by (intro exI [of _ ?t]) (simp add: dispatched_def list_all_update can_run_def)
  qed
qed

definition demo_sched :: "nat list kstate_scheme" where
  "demo_sched = kstate.extend demo_kernel []"

theorem scheduler_fair_witness:
  "\<exists>t. scheduler_round slice demo_sched = Ret () t \<and> 1 \<in> set (kstate.more t) \<and> held t = {}"
proof -
  have d: "held demo_sched = {}" "ptable demo_sched = demo_table"
    by (simp_all add: demo_sched_def demo_kernel_def kstate.defs)
  have "list_all can_run (ptable demo_sched)"
    by (simp add: d demo_table_def can_run_def idle_proc_def demo_proc_def list_all_iff)
  moreover have "1 \<in> runnable demo_sched" by (simp add: runnable_def d demo_slots)
  ultimately show ?thesis
    using scheduler_fair [OF slice_ok d(1)] by (auto simp: d demo_table_nth)
qed

text \<open>A process with no open file whose directory is in use elsewhere too.\<close>

lemma close_none: "\<forall>fd. fd < n \<longrightarrow> ofile (ptable s ! c) ! fd = None \<Longrightarrow> k + i \<le> n \<Longrightarrow> close_files c k i s = Ret () s"
  by (induction k arbitrary: i) (simp_all add: km_simps)

definition demo_exit :: fstate where
  "demo_exit = pipestate.extend (demo_pipe\<lparr>ptable := demo_table, cur := Some 1, initproc := Some 0, outstanding := 0,
     inodes := [zero_inode\<lparr>iref := 2\<rparr>]\<rparr>) (fstate.fields [])"

theorem exit_hands_over_witness:
  "\<exists>t. exit demo_exit = Sleep ChNone t \<and> pstate (ptable t ! 1) = ZOMBIE \<and> pstate (ptable t ! 0) = RUNNABLE \<and>
    parent (ptable t ! 2) = Some 0"
proof -
  have d: "cur demo_exit = Some 1" "initproc demo_exit = Some 0" "ptable demo_exit = demo_table" "held demo_exit = {}"
    "outstanding demo_exit = 0" "\<not> committing demo_exit" "lh_n demo_exit = 0" "inodes demo_exit = [zero_inode\<lparr>iref := 2\<rparr>]"
    "\<not> locked (slocks demo_exit (SlkInode 0))"
    by (simp_all add: demo_exit_def demo_pipe_def demo_con_def demo_fs_def demo_log_def demo_ready_def demo_cache_def demo_bstate_def
        pipestate.defs fstate.defs cstate.defs istate.defs lstate.defs bstate.defs)
  obtain u where u: "exit_files 1 demo_exit = Ret () u" "held u = {}" "cur u = Some 1" "initproc u = Some 0"
    "ptable u = demo_table[1 := (demo_table ! 1)\<lparr>cwd := None\<rparr>]"
  proof -
    have w: "map (wakeup_proc (ChSlk (SlkInode 0))) demo_table = demo_table" "map (wakeup_proc ChLog) demo_table = demo_table"
      by (simp_all add: demo_table_def wakeup_proc_def idle_proc_def demo_proc_def)
    have "close_files 1 NOFILE 0 demo_exit = Ret () demo_exit"
      by (rule close_none [of NOFILE]) (simp_all add: d demo_slots)
    moreover have "begin_op demo_exit = Ret () (demo_exit\<lparr>outstanding := 1\<rparr>)" using d by (simp add: begin_op_def km_simps)
    moreover have rs: "held x = {} \<Longrightarrow> releasesleep (SlkInode 0) x = Ret () (x\<lparr>slocks := (slocks x)(SlkInode 0 := \<lparr>locked = False, slpid = 0\<rparr>),
      ptable := map (wakeup_proc (ChSlk (SlkInode 0))) (ptable x)\<rparr>)" for x :: fstate
      by (simp add: ret_iff)
    obtain v where v: "iput 0 (demo_exit\<lparr>outstanding := 1\<rparr>) = Ret () v" "held v = {}" "cur v = Some 1" "initproc v = Some 0"
      "ptable v = demo_table" "outstanding v = 1" "\<not> committing v" "lh_n v = 0"
      using d w by (simp add: iput_def km_simps rs demo_slots zero_inode_def upd_ino_def)
    moreover have "end_op v = Ret () (v\<lparr>outstanding := 0, committing := False\<rparr>)"
      using v(2,5-8) w by (simp add: end_op_def commit_def km_simps Let_def)
    ultimately have "\<exists>u. exit_files 1 demo_exit = Ret () u \<and> held u = {} \<and> cur u = Some 1 \<and> initproc u = Some 0 \<and>
        ptable u = demo_table[1 := (demo_table ! 1)\<lparr>cwd := None\<rparr>]"
      using d v by (simp add: exit_files_def km_simps demo_slots upd_proc_def)
    then show ?thesis using that by blast
  qed
  obtain pt where pt: "exit demo_exit = Sleep ChNone (u\<lparr>held := {LkPtable}, ptable := pt\<rparr>)"
    "pt ! 1 = (ptable u ! 1)\<lparr>pstate := ZOMBIE\<rparr>"
    "\<And>n. n < NPROC \<Longrightarrow> n \<noteq> 1 \<Longrightarrow> parent (pt ! n) = (if parent (ptable u ! n) = Some 1 then Some 0 else parent (ptable u ! n)) \<and>
       (pstate (ptable u ! n) = SLEEPING \<and> pchan (ptable u ! n) = Some (ChProc 0) \<longrightarrow> pstate (pt ! n) = RUNNABLE)"
    using exit_hands_over [OF d(1,2) _ u(1), of 0] u by (auto simp: demo_slots)
  show ?thesis using pt(1,2) pt(3) [of 0] pt(3) [of 2] by (simp add: u demo_slots)
qed

lemma demo_first: "j < 3 \<Longrightarrow> unat (pid (demo_table ! j)) = j + 1 \<and> pid (demo_table ! j) \<noteq> 0 \<and> pstate (demo_table ! j) \<noteq> UNUSED"
proof -
  assume "j < 3"
  then consider "j = 0" | "j = 1" | "j = 2" by linarith
  then show ?thesis by cases (simp_all add: demo_slots)
qed

lemma demo_used: "i < NPROC \<Longrightarrow> pstate (demo_table ! i) \<noteq> UNUSED \<longleftrightarrow> i < 3"
  using demo_first [of i] demo_table_nth(5) [of i] by (cases "i < 3") (simp_all add: idle_proc_def)

lemma demo_pids: "pid_inv demo_kernel"
proof -
  have u: "i < 3 \<and> unat (pid (demo_table ! i)) = i + 1" if "i < NPROC" "pstate (demo_table ! i) \<noteq> UNUSED" for i
    using demo_used [OF that(1)] demo_first [of i] that(2) by blast
  show ?thesis
    unfolding pid_inv_def demo_kernel_fields demo_table_nth(1)
  proof (intro conjI allI impI)
    fix i assume i: "i < NPROC" "pstate (demo_table ! i) \<noteq> UNUSED"
    show "0 < unat (pid (demo_table ! i))" using u [OF i] by linarith
    have "unat (4 :: 32 word) = 4" by simp
    then show "unat (pid (demo_table ! i)) < unat (4 :: 32 word)" using u [OF i] by linarith
    fix j assume j: "j < NPROC" "pstate (demo_table ! j) \<noteq> UNUSED" "pid (demo_table ! i) = pid (demo_table ! j)"
    show "i = j" using u [OF i] u [OF j(1,2)] unfolding j(3) by linarith
  qed
qed

theorem allocproc_pids_witness:
  "\<exists>t. allocproc demo_kernel = Ret (Some 3) t \<and> pid (ptable t ! 3) = 4 \<and> pid_inv t"
proof -
  obtain r t where a: "allocproc demo_kernel = Ret r t" "pid_inv t"
    and n: "r = None \<Longrightarrow> (\<forall>i < NPROC. pstate (demo_table ! i) \<noteq> UNUSED) \<or> freelist demo_kernel = 0"
    and i: "\<And>i. r = Some i \<Longrightarrow> i < NPROC \<and> pstate (demo_table ! i) = UNUSED \<and> (\<forall>j < i. pstate (demo_table ! j) \<noteq> UNUSED) \<and>
      pid (ptable t ! i) = nextpid demo_kernel"
  proof -
    obtain r t where "allocproc demo_kernel = Ret r t \<and> pid_inv t \<and> case_option
        ((\<forall>i < NPROC. pstate (demo_table ! i) \<noteq> UNUSED) \<or> freelist demo_kernel = 0)
        (\<lambda>i. i < NPROC \<and> pstate (demo_table ! i) = UNUSED \<and> (\<forall>j < i. pstate (demo_table ! j) \<noteq> UNUSED) \<and>
           pstate (ptable t ! i) = EMBRYO \<and> pid (ptable t ! i) = nextpid demo_kernel \<and>
           (\<forall>j < NPROC. pstate (demo_table ! j) \<noteq> UNUSED \<longrightarrow> pid (demo_table ! j) \<noteq> nextpid demo_kernel)) r"
      using allocproc_pids [of demo_kernel, unfolded demo_kernel_fields(1,3) demo_table_nth(1), OF refl refl demo_pids]
      unfolding demo_kernel_fields(4) by auto
    then show ?thesis using that by (cases r) auto
  qed
  have u: "pstate (demo_table ! 3) = UNUSED" using demo_used [of 3] by simp
  with n demo_kernel_fields(6) have "r \<noteq> None" by force
  then obtain k where k: "r = Some k" by auto
  have "\<not> k < 3" using i [OF k] demo_used [of k] by simp
  moreover have "\<not> 3 < k" using i [OF k] u by blast
  ultimately have "k = 3" by simp
  then show ?thesis using a i [OF k] k by (simp add: demo_kernel_fields)
qed

theorem kill_zero_poisons_witness:
  "\<exists>t u. kill 0 demo_kernel = Ret 0 t \<and> allocproc t = Ret (Some 3) u \<and> killed (ptable u ! 3)"
  using kill_zero_poisons [of demo_kernel 3] demo_table_nth(5) [of 3] demo_first
  by (simp add: demo_kernel_fields demo_table_nth(1) idle_proc_def) blast

end
