(* ===== verification/Syscall.thy ===== *)
theory Syscall
  imports Proc
begin

text \<open>
  Arguments of system calls (\<open>syscall.c\<close>), \<open>exec.c\<close>, the handlers of \<open>sysproc.c\<close> and \<open>sysfile.c\<close>, the
  dispatch of \<open>syscall\<close>, and \<open>trap.c\<close>.
\<close>

section \<open>User memory\<close>

text \<open>
  The kernel reads and writes user addresses through the page table in \<open>cr3\<close>. An address that is
  not mapped faults inside the kernel, which panics.
\<close>

definition user_ka :: "'z kstate_scheme \<Rightarrow> u32 \<Rightarrow> u32 option" where
  "user_ka s va = (let pde = load32 (memory s) (entry (P2V (cr3 s)) (PDX va)) in
     if pde AND PTE_P = 0 then None
     else let pte = load32 (memory s) (entry (P2V (PTE_ADDR pde)) (PTX va)) in
       if pte AND PTE_P = 0 then None else Some (P2V (PTE_ADDR pte) + (va AND 0xFFF)))"

definition uload :: "u32 \<Rightarrow> ('z kstate_scheme, u8) km" where
  "uload va = bindK (getK id) (\<lambda>s. case user_ka s va of None \<Rightarrow> panicK ''trap'' | Some a \<Rightarrow> retK (memory s a))"

definition ustore :: "u32 \<Rightarrow> u8 \<Rightarrow> ('z kstate_scheme, unit) km" where
  "ustore va b = bindK (getK id) (\<lambda>s. case user_ka s va of None \<Rightarrow> panicK ''trap''
     | Some a \<Rightarrow> modK (\<lambda>s. s\<lparr>memory := (memory s)(a := b)\<rparr>))"

fun uloads :: "u32 \<Rightarrow> nat \<Rightarrow> ('z kstate_scheme, u8 list) km" where
  "uloads va 0 = retK []"
| "uloads va (Suc n) = bindK (uload va) (\<lambda>b. bindK (uloads (va + 1) n) (\<lambda>bs. retK (b # bs)))"

fun ustores :: "u32 \<Rightarrow> u8 list \<Rightarrow> ('z kstate_scheme, unit) km" where
  "ustores va [] = retK ()"
| "ustores va (b # bs) = thenK (ustore va b) (ustores (va + 1) bs)"

definition uload32 :: "u32 \<Rightarrow> ('z kstate_scheme, u32) km" where
  "uload32 va = bindK (uloads va 4) (\<lambda>bs. retK (get32 bs 0))"

definition ustore32 :: "u32 \<Rightarrow> u32 \<Rightarrow> ('z kstate_scheme, unit) km" where
  "ustore32 va w = ustores va (put32 [0, 0, 0, 0] 0 w)"

section \<open>syscall.c: arguments\<close>

text \<open>The result -1 is \<open>None\<close>; otherwise the value stored through the pointer.\<close>

definition fetchint :: "u32 \<Rightarrow> ('z kstate_scheme, u32 option) km" where
  "fetchint addr = bindK curproc (\<lambda>c. bindK (getK (\<lambda>s. psz (ptable s ! c))) (\<lambda>sz.
     if addr \<ge> sz \<or> addr + 4 > sz then retK None
     else bindK (uload32 addr) (\<lambda>w. retK (Some w))))"

text \<open>The scan of \<open>fetchstr\<close>: the string before the NUL, if one comes before \<open>sz\<close>.\<close>

fun fetchstr_loop :: "nat \<Rightarrow> u32 \<Rightarrow> ('z kstate_scheme, u8 list option) km" where
  "fetchstr_loop 0 a = retK None"
| "fetchstr_loop (Suc k) a = bindK (uload a) (\<lambda>b.
     if b = 0 then retK (Some [])
     else bindK (fetchstr_loop k (a + 1)) (\<lambda>r. retK (map_option (\<lambda>bs. b # bs) r)))"

definition fetchstr :: "u32 \<Rightarrow> ('z kstate_scheme, u8 list option) km" where
  "fetchstr addr = bindK curproc (\<lambda>c. bindK (getK (\<lambda>s. psz (ptable s ! c))) (\<lambda>sz.
     if addr \<ge> sz then retK None else fetchstr_loop (unat (sz - addr)) addr))"

definition argint :: "nat \<Rightarrow> ('z kstate_scheme, u32 option) km" where
  "argint n = bindK curproc (\<lambda>c. bindK (getK (\<lambda>s. tf_esp (ptf (ptable s ! c)))) (\<lambda>esp.
     fetchint (esp + 4 + 4 * of_nat n)))"

definition argptr :: "nat \<Rightarrow> int \<Rightarrow> ('z kstate_scheme, u32 option) km" where
  "argptr n size' = bindK curproc (\<lambda>c. bindK (argint n) (\<lambda>mi. case mi of None \<Rightarrow> retK None | Some i \<Rightarrow>
     bindK (getK (\<lambda>s. psz (ptable s ! c))) (\<lambda>sz.
     retK (if size' < 0 \<or> i \<ge> sz \<or> i + word_of_int size' > sz then None else Some i))))"

definition argstr :: "nat \<Rightarrow> ('z kstate_scheme, u8 list option) km" where
  "argstr n = bindK (argint n) (\<lambda>ma. case ma of None \<Rightarrow> retK None | Some addr \<Rightarrow> fetchstr addr)"

section \<open>exec.c\<close>

abbreviation (input) MAXARG :: nat where "MAXARG \<equiv> 32"
abbreviation (input) ELF_MAGIC :: u32 where "ELF_MAGIC \<equiv> 0x464C457F"

text \<open>\<open>struct elfhdr\<close> has 52 bytes: magic at 0, entry at 24, phoff at 28, phnum at 44.\<close>

record elfhdr =
  e_magic :: u32
  e_entry :: u32
  e_phoff :: u32
  e_phnum :: u16

definition decode_elf :: "u8 list \<Rightarrow> elfhdr" where
  "decode_elf d = \<lparr>e_magic = get32 d 0, e_entry = get32 d 24, e_phoff = get32 d 28, e_phnum = get16 d 44\<rparr>"

text \<open>\<open>struct proghdr\<close>: eight words.\<close>

record proghdr =
  p_type :: u32
  p_off :: u32
  p_vaddr :: u32
  p_filesz :: u32
  p_memsz :: u32

definition decode_ph :: "u8 list \<Rightarrow> proghdr" where
  "decode_ph d = \<lparr>p_type = get32 d 0, p_off = get32 d 4, p_vaddr = get32 d 8, p_filesz = get32 d 16, p_memsz = get32 d 20\<rparr>"

text \<open>The loop over the program headers: the size of the image, or \<open>None\<close> for \<open>goto bad\<close>.\<close>

fun exec_load :: "nat \<Rightarrow> u32 \<Rightarrow> nat \<Rightarrow> u32 \<Rightarrow> u32 \<Rightarrow> ('z cstate_scheme, u32 option) km" where
  "exec_load 0 pd ip off sz = retK (Some sz)"
| "exec_load (Suc k) pd ip off sz = bindK (readi devsw_table ip off 32) (\<lambda>(r, d).
     if r \<noteq> 32 then retK None else
     let ph = decode_ph d in
     if p_type ph \<noteq> 1 then exec_load k pd ip (off + 32) sz
     else if p_memsz ph < p_filesz ph then retK None
     else if p_vaddr ph + p_memsz ph < p_vaddr ph then retK None
     else bindK (allocuvm pd sz (p_vaddr ph + p_memsz ph)) (\<lambda>sz.
       if sz = 0 then retK None
       else if p_vaddr ph mod PGSIZE \<noteq> 0 then retK None
       else bindK (loaduvm devsw_table pd (p_vaddr ph) ip (p_off ph) (p_filesz ph)) (\<lambda>r.
         if r < 0 then retK None else exec_load k pd ip (off + 32) sz)))"

definition arg_sp :: "u32 \<Rightarrow> u8 list \<Rightarrow> u32" where
  "arg_sp sp a = (sp - (of_nat (length a) + 1)) AND NOT 3"

text \<open>The loop over the arguments: the stack pointer and the addresses of the strings.\<close>

fun exec_args :: "u32 \<Rightarrow> u8 list list \<Rightarrow> nat \<Rightarrow> u32 \<Rightarrow> ('z kstate_scheme, (u32 \<times> u32 list) option) km" where
  "exec_args pd [] argc sp = retK (Some (sp, []))"
| "exec_args pd (a # as) argc sp =
     (if argc \<ge> MAXARG then retK None
      else let sp = arg_sp sp a in
        bindK (copyout pd sp (a @ [0])) (\<lambda>r. if r < 0 then retK None else
        bindK (exec_args pd as (Suc argc) sp) (\<lambda>r. retK (map_option (\<lambda>(sp', ps). (sp', sp # ps)) r))))"

definition word_bytes :: "u32 \<Rightarrow> u8 list" where
  "word_bytes w = put32 [0, 0, 0, 0] 0 w"

definition ustack :: "u32 \<Rightarrow> u32 list \<Rightarrow> u32 list" where
  "ustack sp ps = [0xffffffff, of_nat (length ps), sp - (of_nat (length ps) + 1) * 4] @ ps @ [0]"

definition last_elem :: "u8 list \<Rightarrow> u8 list" where
  "last_elem path = rev (takeWhile (\<lambda>c. c \<noteq> slash) (rev path))"

definition exec_bad :: "u32 \<Rightarrow> nat option \<Rightarrow> ('z cstate_scheme, int) km" where
  "exec_bad pd ip =
     thenK (whenK (pd \<noteq> 0) (freevm pd))
    (thenK (case ip of None \<Rightarrow> retK () | Some i \<Rightarrow> thenK (iunlockput i) end_op) (retK (-1)))"

text \<open>The part of \<open>exec\<close> after the image is loaded and the inode is released.\<close>

definition exec_stack :: "u8 list \<Rightarrow> u8 list list \<Rightarrow> elfhdr \<Rightarrow> u32 \<Rightarrow> u32 \<Rightarrow> ('z cstate_scheme, int) km" where
  "exec_stack path argv elf pd sz = bindK curproc (\<lambda>c. let sz = PGROUNDUP sz in
     bindK (allocuvm pd sz (sz + 2 * PGSIZE)) (\<lambda>sz. if sz = 0 then exec_bad pd None else
     thenK (clearpteu pd (sz - 2 * PGSIZE))
    (bindK (exec_args pd argv 0 sz) (\<lambda>r. case r of None \<Rightarrow> exec_bad pd None | Some (sp, ps) \<Rightarrow>
     let sp' = sp - (3 + of_nat (length ps) + 1) * 4 in
     bindK (copyout pd sp' (concat (map word_bytes (ustack sp ps)))) (\<lambda>r. if r < 0 then exec_bad pd None else
     bindK (getK (\<lambda>s. pgdir (ptable s ! c))) (\<lambda>oldpgdir.
     thenK (modK (upd_proc c (\<lambda>p. p\<lparr>pname := safestrcpyL (last_elem path) 15, pgdir := pd, psz := sz,
         ptf := (ptf p)\<lparr>tf_eip := e_entry elf, tf_esp := sp'\<rparr>\<rparr>)))
    (thenK (switchuvm (Some c))
    (thenK (freevm oldpgdir) (retK 0)))))))))"

definition exec :: "u8 list \<Rightarrow> u8 list list \<Rightarrow> ('z cstate_scheme, int) km" where
  "exec path argv = thenK begin_op (bindK (namei devsw_table path) (\<lambda>mip. case mip of
     None \<Rightarrow> thenK end_op (retK (-1))
   | Some ip \<Rightarrow>
       thenK (ilock (Some ip))
      (bindK (readi devsw_table ip 0 52) (\<lambda>(r, d).
       if r \<noteq> 52 then exec_bad 0 (Some ip)
       else let elf = decode_elf d in
       if e_magic elf \<noteq> ELF_MAGIC then exec_bad 0 (Some ip)
       else bindK setupkvm (\<lambda>pd. if pd = 0 then exec_bad 0 (Some ip) else
         bindK (exec_load (unat (e_phnum elf)) pd ip (e_phoff elf) 0) (\<lambda>r. case r of
           None \<Rightarrow> exec_bad pd (Some ip)
         | Some sz \<Rightarrow>
             thenK (iunlockput ip)
            (thenK end_op
             (exec_stack path argv elf pd sz))))))))"

section \<open>sysproc.c\<close>

definition sys_fork :: "('z fstate_scheme, int) km" where
  "sys_fork = fork"

definition sys_exit :: "('z fstate_scheme, int) km" where
  "sys_exit = thenK exit (retK 0)"

definition sys_wait :: "('z kstate_scheme, int) km" where
  "sys_wait = wait"

definition sys_kill :: "('z kstate_scheme, int) km" where
  "sys_kill = bindK (argint 0) (\<lambda>n. case n of None \<Rightarrow> retK (-1) | Some n \<Rightarrow> kill n)"

definition sys_getpid :: "('z kbase_scheme, int) km" where
  "sys_getpid = bindK curproc (\<lambda>c. bindK (getK (\<lambda>s. pid (ptable s ! c))) (\<lambda>n. retK (sint n)))"

definition sys_sbrk :: "('z kstate_scheme, int) km" where
  "sys_sbrk = bindK (argint 0) (\<lambda>n. case n of None \<Rightarrow> retK (-1) | Some n \<Rightarrow>
     bindK curproc (\<lambda>c. bindK (getK (\<lambda>s. psz (ptable s ! c))) (\<lambda>addr.
     bindK (growproc (sint n)) (\<lambda>r. retK (if r < 0 then -1 else sint addr)))))"

text \<open>\<open>sys_sleep\<close>: the comparison of \<open>ticks - ticks0\<close> with the \<open>int\<close> \<open>n\<close> is unsigned.\<close>

definition sleep_ticks :: "u32 \<Rightarrow> u32 \<Rightarrow> ('z kbase_scheme, int) km" where
  "sleep_ticks ticks0 n = bindK (getK ticks) (\<lambda>t.
     if t - ticks0 < n then
       bindK curproc (\<lambda>c. bindK (getK (\<lambda>s. killed (ptable s ! c))) (\<lambda>k.
       if k then thenK (lk_release LkTicks) (retK (-1))
       else thenK (sleep ChTicks LkTicks) (retK (-1))))
     else thenK (lk_release LkTicks) (retK 0))"

definition sys_sleep :: "('z kstate_scheme, int) km" where
  "sys_sleep = bindK (argint 0) (\<lambda>n. case n of None \<Rightarrow> retK (-1) | Some n \<Rightarrow>
     thenK (lk_acquire LkTicks) (bindK (getK ticks) (\<lambda>t0. sleep_ticks t0 n)))"

definition sys_uptime :: "('z kbase_scheme, int) km" where
  "sys_uptime = thenK (lk_acquire LkTicks) (bindK (getK ticks) (\<lambda>t.
     thenK (lk_release LkTicks) (retK (sint t))))"

section \<open>sysfile.c\<close>

definition argfd :: "nat \<Rightarrow> ('z kstate_scheme, (nat \<times> nat) option) km" where
  "argfd n = bindK (argint n) (\<lambda>mfd. case mfd of None \<Rightarrow> retK None | Some fd \<Rightarrow>
     if sint fd < 0 \<or> sint fd \<ge> int NOFILE then retK None
     else bindK curproc (\<lambda>c. bindK (getK (\<lambda>s. ofile (ptable s ! c) ! unat fd)) (\<lambda>f.
       retK (map_option (\<lambda>f. (unat fd, f)) f))))"

definition fdalloc :: "nat \<Rightarrow> ('z kbase_scheme, nat option) km" where
  "fdalloc f = bindK curproc (\<lambda>c. bindK (getK (\<lambda>s. ofile (ptable s ! c))) (\<lambda>fs.
     case find (\<lambda>fd. fs ! fd = None) [0..<NOFILE] of
       None \<Rightarrow> retK None
     | Some fd \<Rightarrow> thenK (modK (upd_proc c (\<lambda>p. p\<lparr>ofile := (ofile p)[fd := Some f]\<rparr>))) (retK (Some fd))))"

definition sys_dup :: "('z fstate_scheme, int) km" where
  "sys_dup = bindK (argfd 0) (\<lambda>mf. case mf of None \<Rightarrow> retK (-1) | Some (_, f) \<Rightarrow>
     bindK (fdalloc f) (\<lambda>mfd. case mfd of None \<Rightarrow> retK (-1) | Some fd \<Rightarrow>
     thenK (filedup f) (retK (int fd))))"

definition sys_read :: "('z fstate_scheme, int) km" where
  "sys_read = bindK (argfd 0) (\<lambda>mf. case mf of None \<Rightarrow> retK (-1) | Some (_, f) \<Rightarrow>
     bindK (argint 2) (\<lambda>mn. case mn of None \<Rightarrow> retK (-1) | Some n \<Rightarrow>
     bindK (argptr 1 (sint n)) (\<lambda>mp. case mp of None \<Rightarrow> retK (-1) | Some p \<Rightarrow>
     bindK (fileread f (sint n)) (\<lambda>(r, bs). thenK (ustores p bs) (retK r)))))"

definition sys_write :: "('z fstate_scheme, int) km" where
  "sys_write = bindK (argfd 0) (\<lambda>mf. case mf of None \<Rightarrow> retK (-1) | Some (_, f) \<Rightarrow>
     bindK (argint 2) (\<lambda>mn. case mn of None \<Rightarrow> retK (-1) | Some n \<Rightarrow>
     bindK (argptr 1 (sint n)) (\<lambda>mp. case mp of None \<Rightarrow> retK (-1) | Some p \<Rightarrow>
     bindK (uloads p (unat n)) (\<lambda>bs. filewrite f bs))))"

definition sys_close :: "('z fstate_scheme, int) km" where
  "sys_close = bindK (argfd 0) (\<lambda>mf. case mf of None \<Rightarrow> retK (-1) | Some (fd, f) \<Rightarrow>
     bindK curproc (\<lambda>c.
     thenK (modK (upd_proc c (\<lambda>p. p\<lparr>ofile := (ofile p)[fd := None]\<rparr>)))
    (thenK (fileclose f) (retK 0))))"

text \<open>\<open>struct stat\<close> in memory: type, padding, dev, ino, nlink, padding, size.\<close>

definition stat_bytes :: "stat \<Rightarrow> u8 list \<Rightarrow> u8 list" where
  "stat_bytes st d = put32 (put16 (put32 (put32 (put16 d 0 (st_type st)) 4 (st_dev st)) 8 (st_ino st)) 12 (st_nlink st)) 16 (st_size st)"

definition sys_fstat :: "('z fstate_scheme, int) km" where
  "sys_fstat = bindK (argfd 0) (\<lambda>mf. case mf of None \<Rightarrow> retK (-1) | Some (_, f) \<Rightarrow>
     bindK (argptr 1 20) (\<lambda>mp. case mp of None \<Rightarrow> retK (-1) | Some p \<Rightarrow>
     bindK (filestat f) (\<lambda>(r, st). case st of None \<Rightarrow> retK r | Some st \<Rightarrow>
     bindK (uloads p 20) (\<lambda>d. thenK (ustores p (stat_bytes st d)) (retK r)))))"

definition sys_link_bad :: "nat \<Rightarrow> ('z istate_scheme, int) km" where
  "sys_link_bad ip = thenK (ilock (Some ip))
    (thenK (modK (upd_ino ip (\<lambda>n. n\<lparr>nlink := nlink n - 1\<rparr>)))
    (thenK (iupdate ip)
    (thenK (iunlockput ip)
    (thenK end_op (retK (-1))))))"

definition link :: "u8 list \<Rightarrow> u8 list \<Rightarrow> ('z cstate_scheme, int) km" where
  "link old new = thenK begin_op (bindK (namei devsw_table old) (\<lambda>mip. case mip of
     None \<Rightarrow> thenK end_op (retK (-1))
   | Some ip \<Rightarrow> thenK (ilock (Some ip)) (bindK (getK (ino ip)) (\<lambda>n.
       if itype n = T_DIR then thenK (iunlockput ip) (thenK end_op (retK (-1)))
       else thenK (modK (upd_ino ip (\<lambda>n. n\<lparr>nlink := nlink n + 1\<rparr>)))
        (thenK (iupdate ip)
        (thenK (iunlock (Some ip))
        (bindK (nameiparent devsw_table new) (\<lambda>(mdp, name). case mdp of
           None \<Rightarrow> sys_link_bad ip
         | Some dp \<Rightarrow> thenK (ilock (Some dp)) (bindK (getK (ino dp)) (\<lambda>d. bindK (getK (ino ip)) (\<lambda>n.
             bindK (if i_dev d \<noteq> i_dev n then retK (-1) else dirlink devsw_table dp name (inum n)) (\<lambda>r.
             if r < 0 then thenK (iunlockput dp) (sys_link_bad ip)
             else thenK (iunlockput dp)
              (thenK (iput ip)
              (thenK end_op (retK 0)))))))))))))))"

definition sys_link :: "('z cstate_scheme, int) km" where
  "sys_link = bindK (argstr 0) (\<lambda>mo. case mo of None \<Rightarrow> retK (-1) | Some old \<Rightarrow>
     bindK (argstr 1) (\<lambda>mn. case mn of None \<Rightarrow> retK (-1) | Some new \<Rightarrow> link old new))"

fun isdirempty_loop :: "'z istate_scheme devsw list \<Rightarrow> nat \<Rightarrow> nat \<Rightarrow> u32 \<Rightarrow> ('z istate_scheme, bool) km" where
  "isdirempty_loop dv 0 dp off = retK True"
| "isdirempty_loop dv (Suc k) dp off = bindK (readi dv dp off 16) (\<lambda>(r, de).
     thenK (assertK (\<not> r \<noteq> 16) ''isdirempty: readi'')
     (if de_inum de \<noteq> 0 then retK False else isdirempty_loop dv k dp (off + 16)))"

definition isdirempty :: "'z istate_scheme devsw list \<Rightarrow> nat \<Rightarrow> ('z istate_scheme, bool) km" where
  "isdirempty dv dp = bindK (getK (ino dp)) (\<lambda>d. isdirempty_loop dv (dir_entries (isize d) - 2) dp 32)"

definition unlink_bad :: "nat \<Rightarrow> ('z istate_scheme, int) km" where
  "unlink_bad dp = thenK (iunlockput dp) (thenK end_op (retK (-1)))"

definition unlink :: "u8 list \<Rightarrow> ('z cstate_scheme, int) km" where
  "unlink path = thenK begin_op (bindK (nameiparent devsw_table path) (\<lambda>(mdp, name). case mdp of
     None \<Rightarrow> thenK end_op (retK (-1))
   | Some dp \<Rightarrow> thenK (ilock (Some dp))
      (if namecmp name [0x2E] = 0 \<or> namecmp name [0x2E, 0x2E] = 0 then unlink_bad dp
       else bindK (dirlookup devsw_table dp name) (\<lambda>r. case r of
         None \<Rightarrow> unlink_bad dp
       | Some (ip, off) \<Rightarrow> thenK (ilock (Some ip)) (bindK (getK (ino ip)) (\<lambda>n.
           thenK (assertK (\<not> sint (nlink n) < 1) ''unlink: nlink < 1'')
          (bindK (if itype n = T_DIR then bindK (isdirempty devsw_table ip) (\<lambda>e. retK (\<not> e)) else retK False) (\<lambda>full.
           if full then thenK (iunlockput ip) (unlink_bad dp)
           else bindK (writei devsw_table dp (replicate 16 0) off) (\<lambda>r.
             thenK (assertK (\<not> r \<noteq> 16) ''unlink: writei'')
            (thenK (whenK (itype n = T_DIR)
               (thenK (modK (upd_ino dp (\<lambda>d. d\<lparr>nlink := nlink d - 1\<rparr>))) (iupdate dp)))
            (thenK (iunlockput dp)
            (thenK (modK (upd_ino ip (\<lambda>n. n\<lparr>nlink := nlink n - 1\<rparr>)))
            (thenK (iupdate ip)
            (thenK (iunlockput ip)
            (thenK end_op (retK 0))))))))))))))))"

definition sys_unlink :: "('z cstate_scheme, int) km" where
  "sys_unlink = bindK (argstr 0) (\<lambda>mp. case mp of None \<Rightarrow> retK (-1) | Some path \<Rightarrow> unlink path)"

definition create :: "u8 list \<Rightarrow> u16 \<Rightarrow> u16 \<Rightarrow> u16 \<Rightarrow> ('z cstate_scheme, nat option) km" where
  "create path ty maj mnr = bindK (nameiparent devsw_table path) (\<lambda>(mdp, name). case mdp of
     None \<Rightarrow> retK None
   | Some dp \<Rightarrow> thenK (ilock (Some dp)) (bindK (dirlookup devsw_table dp name) (\<lambda>r. case r of
       Some (ip, _) \<Rightarrow>
         thenK (iunlockput dp)
        (thenK (ilock (Some ip)) (bindK (getK (ino ip)) (\<lambda>n.
         if ty = T_FILE \<and> itype n = T_FILE then retK (Some ip)
         else thenK (iunlockput ip) (retK None))))
     | None \<Rightarrow> bindK (getK (ino dp)) (\<lambda>d. bindK (ialloc (i_dev d) ty) (\<lambda>ip.
         thenK (ilock (Some ip))
        (thenK (modK (upd_ino ip (\<lambda>n. n\<lparr>imajor := maj, iminor := mnr, nlink := 1\<rparr>)))
        (thenK (iupdate ip)
        (bindK (getK (\<lambda>s. inum (ino ip s))) (\<lambda>n.
         thenK (whenK (ty = T_DIR)
           (thenK (modK (upd_ino dp (\<lambda>d. d\<lparr>nlink := nlink d + 1\<rparr>)))
           (thenK (iupdate dp)
           (bindK (dirlink devsw_table ip [0x2E] n) (\<lambda>r.
            thenK (assertK (\<not> r < 0) ''create dots'')
           (bindK (getK (\<lambda>s. inum (ino dp s))) (\<lambda>dn.
            bindK (dirlink devsw_table ip [0x2E, 0x2E] dn) (\<lambda>r.
            assertK (\<not> r < 0) ''create dots''))))))))
        (bindK (dirlink devsw_table dp name n) (\<lambda>r.
         thenK (assertK (\<not> r < 0) ''create: dirlink'')
        (thenK (iunlockput dp) (retK (Some ip))))))))))))))"

abbreviation (input) O_WRONLY :: u32 where "O_WRONLY \<equiv> 1"
abbreviation (input) O_RDWR :: u32 where "O_RDWR \<equiv> 2"
abbreviation (input) O_CREATE :: u32 where "O_CREATE \<equiv> 0x200"

text \<open>The part of \<open>sys_open\<close> after the inode is found and locked.\<close>

definition open_file :: "nat \<Rightarrow> u32 \<Rightarrow> ('z fstate_scheme, int) km" where
  "open_file ip omode = bindK filealloc (\<lambda>mf.
     bindK (case mf of None \<Rightarrow> retK None | Some f \<Rightarrow> fdalloc f) (\<lambda>mfd. case mfd of
       None \<Rightarrow>
         thenK (case mf of None \<Rightarrow> retK () | Some f \<Rightarrow> fileclose f)
        (thenK (iunlockput ip) (thenK end_op (retK (-1))))
     | Some fd \<Rightarrow>
         thenK (iunlock (Some ip))
        (thenK end_op
        (thenK (modK (upd_file (the mf) (\<lambda>f. f\<lparr>ftype := FD_INODE, fip := Some ip, foff := 0,
             freadable := \<not> omode AND O_WRONLY \<noteq> 0,
             fwritable := omode AND O_WRONLY \<noteq> 0 \<or> omode AND O_RDWR \<noteq> 0\<rparr>)))
         (retK (int fd))))))"

definition open_path :: "u8 list \<Rightarrow> u32 \<Rightarrow> ('z fstate_scheme, int) km" where
  "open_path path omode = thenK begin_op
     (if omode AND O_CREATE \<noteq> 0 then
        bindK (create path T_FILE 0 0) (\<lambda>mip. case mip of
          None \<Rightarrow> thenK end_op (retK (-1)) | Some ip \<Rightarrow> open_file ip omode)
      else bindK (namei devsw_table path) (\<lambda>mip. case mip of
          None \<Rightarrow> thenK end_op (retK (-1))
        | Some ip \<Rightarrow> thenK (ilock (Some ip)) (bindK (getK (ino ip)) (\<lambda>n.
            if itype n = T_DIR \<and> omode \<noteq> 0 then thenK (iunlockput ip) (thenK end_op (retK (-1)))
            else open_file ip omode))))"

definition sys_open :: "('z fstate_scheme, int) km" where
  "sys_open = bindK (argstr 0) (\<lambda>mp. case mp of None \<Rightarrow> retK (-1) | Some path \<Rightarrow>
     bindK (argint 1) (\<lambda>mo. case mo of None \<Rightarrow> retK (-1) | Some omode \<Rightarrow> open_path path omode))"

definition sys_mkdir :: "('z cstate_scheme, int) km" where
  "sys_mkdir = thenK begin_op (bindK (argstr 0) (\<lambda>mp.
     bindK (case mp of None \<Rightarrow> retK None | Some path \<Rightarrow> create path T_DIR 0 0) (\<lambda>mip. case mip of
       None \<Rightarrow> thenK end_op (retK (-1))
     | Some ip \<Rightarrow> thenK (iunlockput ip) (thenK end_op (retK 0)))))"

definition sys_mknod :: "('z cstate_scheme, int) km" where
  "sys_mknod = thenK begin_op (bindK (argstr 0) (\<lambda>mp.
     bindK (case mp of None \<Rightarrow> retK None | Some path \<Rightarrow>
       bindK (argint 1) (\<lambda>ma. case ma of None \<Rightarrow> retK None | Some ma \<Rightarrow>
       bindK (argint 2) (\<lambda>mi. case mi of None \<Rightarrow> retK None | Some mi \<Rightarrow>
       create path T_DEV (ucast ma) (ucast mi)))) (\<lambda>mip. case mip of
       None \<Rightarrow> thenK end_op (retK (-1))
     | Some ip \<Rightarrow> thenK (iunlockput ip) (thenK end_op (retK 0)))))"

definition sys_chdir :: "('z cstate_scheme, int) km" where
  "sys_chdir = bindK curproc (\<lambda>c. thenK begin_op (bindK (argstr 0) (\<lambda>mp.
     bindK (case mp of None \<Rightarrow> retK None | Some path \<Rightarrow> namei devsw_table path) (\<lambda>mip. case mip of
       None \<Rightarrow> thenK end_op (retK (-1))
     | Some ip \<Rightarrow> thenK (ilock (Some ip)) (bindK (getK (ino ip)) (\<lambda>n.
         if itype n \<noteq> T_DIR then thenK (iunlockput ip) (thenK end_op (retK (-1)))
         else thenK (iunlock (Some ip)) (bindK (getK (\<lambda>s. cwd (ptable s ! c))) (\<lambda>d.
           thenK (case d of None \<Rightarrow> panicK ''trap'' | Some d \<Rightarrow> iput d)
          (thenK end_op
          (thenK (modK (upd_proc c (\<lambda>p. p\<lparr>cwd := Some ip\<rparr>))) (retK 0)))))))))))"

text \<open>The loop of \<open>sys_exec\<close> over the argument vector.\<close>

fun exec_argv :: "nat \<Rightarrow> u32 \<Rightarrow> ('z kstate_scheme, u8 list list option) km" where
  "exec_argv 0 a = retK None"
| "exec_argv (Suc k) a = bindK (fetchint a) (\<lambda>mu. case mu of None \<Rightarrow> retK None | Some uarg \<Rightarrow>
     if uarg = 0 then retK (Some [])
     else bindK (fetchstr uarg) (\<lambda>ms. case ms of None \<Rightarrow> retK None | Some str \<Rightarrow>
       bindK (exec_argv k (a + 4)) (\<lambda>r. retK (map_option (\<lambda>as. str # as) r))))"

definition sys_exec :: "('z cstate_scheme, int) km" where
  "sys_exec = bindK (argstr 0) (\<lambda>mp. case mp of None \<Rightarrow> retK (-1) | Some path \<Rightarrow>
     bindK (argint 1) (\<lambda>mu. case mu of None \<Rightarrow> retK (-1) | Some uargv \<Rightarrow>
     bindK (exec_argv MAXARG uargv) (\<lambda>r. case r of None \<Rightarrow> retK (-1) | Some argv \<Rightarrow> exec path argv)))"

definition sys_pipe :: "('z fstate_scheme, int) km" where
  "sys_pipe = bindK (argptr 0 8) (\<lambda>mp. case mp of None \<Rightarrow> retK (-1) | Some fd \<Rightarrow>
     bindK pipealloc (\<lambda>r. case r of None \<Rightarrow> retK (-1) | Some (rf, wfl) \<Rightarrow>
     bindK curproc (\<lambda>c. bindK (fdalloc rf) (\<lambda>fd0.
     bindK (case fd0 of None \<Rightarrow> retK None | Some _ \<Rightarrow> fdalloc wfl) (\<lambda>fd1. case fd1 of
       None \<Rightarrow>
         thenK (case fd0 of None \<Rightarrow> retK () | Some fd0 \<Rightarrow>
           modK (upd_proc c (\<lambda>p. p\<lparr>ofile := (ofile p)[fd0 := None]\<rparr>)))
        (thenK (fileclose rf) (thenK (fileclose wfl) (retK (-1))))
     | Some fd1 \<Rightarrow>
         thenK (ustore32 fd (of_nat (the fd0)))
        (thenK (ustore32 (fd + 4) (of_nat fd1)) (retK 0)))))))"

definition sys_swapread :: "('z bstate_scheme, int) km" where
  "sys_swapread = bindK (argptr 0 4096) (\<lambda>mp. case mp of None \<Rightarrow> retK (-1) | Some ptr \<Rightarrow>
     bindK (argint 1) (\<lambda>mb. case mb of None \<Rightarrow> retK (-1) | Some blkno \<Rightarrow>
     bindK (swapread (sint blkno)) (\<lambda>bs. thenK (ustores ptr bs) (retK 0))))"

definition sys_swapwrite :: "('z bstate_scheme, int) km" where
  "sys_swapwrite = bindK (argptr 0 4096) (\<lambda>mp. case mp of None \<Rightarrow> retK (-1) | Some ptr \<Rightarrow>
     bindK (argint 1) (\<lambda>mb. case mb of None \<Rightarrow> retK (-1) | Some blkno \<Rightarrow>
     bindK (uloads ptr 4096) (\<lambda>bs. thenK (swapwrite bs (sint blkno)) (retK 0))))"

section \<open>syscall\<close>

text \<open>The table \<open>syscalls\<close>, by the numbers of \<open>syscall.h\<close>.\<close>

definition syscalls :: "int \<Rightarrow> ('z pstate_scheme, int) km option" where
  "syscalls num =
     (if num = 1 then Some sys_fork else if num = 2 then Some sys_exit else if num = 3 then Some sys_wait
      else if num = 4 then Some sys_pipe else if num = 5 then Some sys_read else if num = 6 then Some sys_kill
      else if num = 7 then Some sys_exec else if num = 8 then Some sys_fstat else if num = 9 then Some sys_chdir
      else if num = 10 then Some sys_dup else if num = 11 then Some sys_getpid else if num = 12 then Some sys_sbrk
      else if num = 13 then Some sys_sleep else if num = 14 then Some sys_uptime else if num = 15 then Some sys_open
      else if num = 16 then Some sys_write else if num = 17 then Some sys_mknod else if num = 18 then Some sys_unlink
      else if num = 19 then Some sys_link else if num = 20 then Some sys_mkdir else if num = 21 then Some sys_close
      else if num = 22 then Some sys_swapread else if num = 23 then Some sys_swapwrite else None)"

definition set_eax :: "nat \<Rightarrow> u32 \<Rightarrow> ('z kbase_scheme, unit) km" where
  "set_eax c w = modK (upd_proc c (\<lambda>p. p\<lparr>ptf := (ptf p)\<lparr>tf_eax := w\<rparr>\<rparr>))"

definition syscall :: "('z pstate_scheme, unit) km" where
  "syscall = bindK curproc (\<lambda>c. bindK (getK (\<lambda>s. sint (tf_eax (ptf (ptable s ! c))))) (\<lambda>num.
     case (if num > 0 \<and> num < 24 then syscalls num else None) of
       Some f \<Rightarrow> bindK f (\<lambda>r. set_eax c (word_of_int r))
     | None \<Rightarrow> set_eax c (-1)))"

section \<open>trap.c\<close>

abbreviation (input) T_SYSCALL :: u32 where "T_SYSCALL \<equiv> 64"
abbreviation (input) T_IRQ0 :: u32 where "T_IRQ0 \<equiv> 32"
abbreviation (input) IRQ_TIMER :: u32 where "IRQ_TIMER \<equiv> 0"
abbreviation (input) IRQ_KBD :: u32 where "IRQ_KBD \<equiv> 1"
abbreviation (input) IRQ_COM1 :: u32 where "IRQ_COM1 \<equiv> 4"
abbreviation (input) IRQ_IDE :: u32 where "IRQ_IDE \<equiv> 14"
abbreviation (input) IRQ_SPURIOUS :: u32 where "IRQ_SPURIOUS \<equiv> 31"

text \<open>The tick of the clock on CPU 0.\<close>

definition timer_tick :: "('z kbase_scheme, unit) km" where
  "timer_tick = thenK (lk_acquire LkTicks)
    (thenK (modK (\<lambda>s. s\<lparr>ticks := ticks s + 1\<rparr>))
    (thenK (wakeup ChTicks) (lk_release LkTicks)))"

definition cur_is :: "(proc \<Rightarrow> bool) \<Rightarrow> ('z kbase_scheme, bool) km" where
  "cur_is P = bindK (getK id) (\<lambda>s. retK (case cur s of None \<Rightarrow> False | Some c \<Rightarrow> P (ptable s ! c)))"

definition from_user :: "trapframe \<Rightarrow> bool" where
  "from_user tf \<longleftrightarrow> tf_cs tf AND 3 = DPL_USER"

text \<open>The \<open>switch\<close> of \<open>trap\<close>; \<open>cpu\<close> is \<open>cpuid()\<close>. Acknowledging the interrupt controller and the messages are left out.\<close>

definition trap_dispatch :: "nat \<Rightarrow> trapframe \<Rightarrow> ('z pstate_scheme, unit) km" where
  "trap_dispatch cpu tf = (let n = tf_trapno tf in
     if n = T_IRQ0 + IRQ_TIMER then whenK (cpu = 0) timer_tick
     else if n = T_IRQ0 + IRQ_IDE then ideintr
     else if n = T_IRQ0 + IRQ_IDE + 1 then retK ()
     else if n = T_IRQ0 + IRQ_KBD then kbdintr
     else if n = T_IRQ0 + IRQ_COM1 then uartintr
     else if n = T_IRQ0 + 7 \<or> n = T_IRQ0 + IRQ_SPURIOUS then retK ()
     else bindK (getK cur) (\<lambda>mc. case mc of
         None \<Rightarrow> panicK ''trap''
       | Some c \<Rightarrow> if tf_cs tf AND 3 = 0 then panicK ''trap''
           else modK (upd_proc c (\<lambda>p. p\<lparr>killed := True\<rparr>))))"

definition trap :: "nat \<Rightarrow> trapframe \<Rightarrow> ('z pstate_scheme, unit) km" where
  "trap cpu tf =
     (if tf_trapno tf = T_SYSCALL then
        bindK curproc (\<lambda>c. bindK (getK (\<lambda>s. killed (ptable s ! c))) (\<lambda>k.
        thenK (whenK k exit)
       (thenK (modK (upd_proc c (\<lambda>p. p\<lparr>ptf := tf\<rparr>)))
       (thenK syscall
       (bindK (getK (\<lambda>s. killed (ptable s ! c))) (\<lambda>k. whenK k exit))))))
      else
        thenK (trap_dispatch cpu tf)
       (bindK (cur_is killed) (\<lambda>k.
        thenK (whenK (k \<and> from_user tf) exit)
       (bindK (cur_is (\<lambda>p. pstate p = RUNNING)) (\<lambda>r.
        thenK (whenK (r \<and> tf_trapno tf = T_IRQ0 + IRQ_TIMER) yield)
       (bindK (cur_is killed) (\<lambda>k. whenK (k \<and> from_user tf) exit)))))))"

section \<open>Arguments stay inside the process\<close>

text \<open>
  The memory of the current process is mapped when the page table in \<open>cr3\<close> translates every address below
  its size. \<open>ubytes s a n\<close> is then the \<open>n\<close> bytes of it at \<open>a\<close>.
\<close>

definition umapped :: "'z kstate_scheme \<Rightarrow> u32 \<Rightarrow> bool" where
  "umapped s sz \<longleftrightarrow> (\<forall>va < sz. user_ka s va \<noteq> None)"

definition ubytes :: "'z kstate_scheme \<Rightarrow> u32 \<Rightarrow> nat \<Rightarrow> u8 list" where
  "ubytes s a n = map (\<lambda>i. memory s (the (user_ka s (a + of_nat i)))) [0..<n]"

lemma ubytes_Suc: "ubytes s a (Suc n) = memory s (the (user_ka s a)) # ubytes s (a + 1) n"
  by (simp add: ubytes_def upt_conv_Cons map_Suc_upt [symmetric] add.assoc del: upt_Suc map_Suc_upt)

lemma word_room:
  fixes a sz :: u32
  assumes "unat a + n \<le> unat sz" "i < n"
  shows "a + of_nat i < sz"
proof -
  have "unat a + i < 4294967296" using assms unat_u32_less [of sz] by linarith
  then show ?thesis using assms by (simp add: word_less_nat_alt unat_word_ariths(1) unat_of_nat)
qed

lemma word_step:
  fixes a sz :: u32
  assumes "unat a + Suc n \<le> unat sz"
  shows "unat (a + 1) + n \<le> unat sz"
proof -
  have "unat a + 1 < 4294967296" using assms unat_u32_less [of sz] by linarith
  then show ?thesis using assms by (simp add: unat_word_ariths(1))
qed

lemma uload_ok:
  assumes "umapped s sz" "unat a + Suc n \<le> unat sz"
  shows "uload a s = Ret (memory s (the (user_ka s a))) s"
  using assms word_room [of a "Suc n" sz 0] by (auto simp: uload_def umapped_def km_simps)

lemma uloads_ok: "umapped s sz \<Longrightarrow> unat a + n \<le> unat sz \<Longrightarrow> uloads a n s = Ret (ubytes s a n) s"
proof (induction n arbitrary: a)
  case 0
  then show ?case by (simp add: ubytes_def km_simps)
next
  case (Suc n)
  have "uloads (a + 1) n s = Ret (ubytes s (a + 1) n) s" using Suc.IH [OF Suc.prems(1) word_step [OF Suc.prems(2)]] .
  then show ?case using uload_ok [OF Suc.prems] by (simp add: km_simps ubytes_Suc)
qed

lemma fetchstr_loop_ok:
  "umapped s sz \<Longrightarrow> unat a + n \<le> unat sz \<Longrightarrow>
   fetchstr_loop n a s = Ret (if 0 \<in> set (ubytes s a n) then Some (takeWhile (\<lambda>b. b \<noteq> 0) (ubytes s a n)) else None) s"
proof (induction n arbitrary: a)
  case 0
  then show ?case by (simp add: ubytes_def km_simps)
next
  case (Suc n)
  note IH = Suc.IH [OF Suc.prems(1) word_step [OF Suc.prems(2)]]
  show ?case using uload_ok [OF Suc.prems] IH by (simp add: km_simps ubytes_Suc)
qed

text \<open>The guards of \<open>fetchint\<close> and \<open>argptr\<close> on the sum with the length do not wrap: processes end below \<open>KERNBASE\<close>.\<close>

lemma guard_iff:
  fixes a sz n :: u32
  assumes "sz \<le> KERNBASE" "unat n < 2147483648"
  shows "\<not> (a \<ge> sz \<or> a + n > sz) \<longleftrightarrow> a < sz \<and> unat a + unat n \<le> unat sz"
proof (cases "a < sz")
  case True
  have z: "unat sz \<le> 2147483648" using assms(1) by (simp add: word_le_nat_alt)
  have "unat (a + n) = unat a + unat n" using True z assms(2) by (intro unat_add_u32) (simp add: word_less_nat_alt)
  then show ?thesis using True by (auto simp: word_less_nat_alt word_le_nat_alt)
qed (simp add: not_less)

lemma fetchint_ok:
  assumes "cur s = Some c" "psz (ptable s ! c) = sz" "sz \<le> KERNBASE" "umapped s sz"
  shows "fetchint a s = Ret (if unat a + 4 \<le> unat sz then Some (get32 (ubytes s a 4) 0) else None) s"
proof -
  have g: "(a \<ge> sz \<or> a + 4 > sz) \<longleftrightarrow> \<not> unat a + 4 \<le> unat sz"
    using guard_iff [OF assms(3), of 4 a] by (auto simp: word_less_nat_alt)
  show ?thesis unfolding fetchint_def
    using assms uloads_ok [OF assms(4), of a 4] g by (simp add: km_simps uload32_def)
qed

lemma fetchstr_ok:
  assumes "cur s = Some c" "psz (ptable s ! c) = sz" "umapped s sz"
  shows "fetchstr a s = Ret (let bs = ubytes s a (unat sz - unat a) in
    if 0 \<in> set bs then Some (takeWhile (\<lambda>b. b \<noteq> 0) bs) else None) s"
proof (cases "a \<ge> sz")
  case True
  then have "unat sz - unat a = 0" by (simp add: word_le_nat_alt)
  then show ?thesis using assms True by (simp add: fetchstr_def km_simps ubytes_def)
next
  case False
  then have "unat (sz - a) = unat sz - unat a" "unat a + (unat sz - unat a) \<le> unat sz"
    by (simp_all add: unat_sub word_le_nat_alt)
  then show ?thesis using assms False fetchstr_loop_ok [OF assms(3), of a "unat sz - unat a"] by (simp add: fetchstr_def km_simps Let_def)
qed

text \<open>
  C35. A system call can only name memory of the calling process. In a process that ends at or below
  \<open>KERNBASE\<close> and whose memory is mapped, the functions that fetch arguments return, change nothing and never
  fault. \<open>fetchint\<close> gives the word at an address exactly when all four bytes lie inside the process.
  \<open>fetchstr\<close> gives the bytes up to the first NUL exactly when one comes before the end of the process.
  \<open>argptr\<close> with a size that is negative fails, and otherwise gives the pointer on the user stack exactly when
  it lies inside the process and so does the whole buffer; reading that buffer cannot fault.
\<close>

theorem args_inside:
  assumes c: "cur s = Some c" and sz: "psz (ptable s ! c) = sz" "sz \<le> KERNBASE" and m: "umapped s sz"
    and k: "- (2 ^ 31) \<le> k" "k < 2 ^ 31"
  shows "fetchint a s = Ret (if unat a + 4 \<le> unat sz then Some (get32 (ubytes s a 4) 0) else None) s \<and>
    fetchstr a s = Ret (let bs = ubytes s a (unat sz - unat a) in if 0 \<in> set bs then Some (takeWhile (\<lambda>b. b \<noteq> 0) bs) else None) s \<and>
    (\<exists>r. argptr n k s = Ret r s \<and>
      (\<forall>p. r = Some p \<longleftrightarrow> argint n s = Ret (Some p) s \<and> 0 \<le> k \<and> p < sz \<and> unat p + nat k \<le> unat sz) \<and>
      (\<forall>p. r = Some p \<longrightarrow> uloads p (nat k) s = Ret (ubytes s p (nat k)) s))"
proof -
  let ?e = "tf_esp (ptf (ptable s ! c)) + 4 + 4 * of_nat n"
  have ai: "argint n s = fetchint ?e s" using c by (simp add: argint_def km_simps)
  obtain mi where mi: "argint n s = Ret mi s" using fetchint_ok [OF c sz m] ai by auto
  let ?r = "case mi of None \<Rightarrow> None | Some i \<Rightarrow> if k < 0 \<or> i \<ge> sz \<or> i + word_of_int k > sz then None else Some i"
  have ap: "argptr n k s = Ret ?r s" using c mi sz(1) by (simp add: argptr_def km_simps split: option.splits)
  have g: "\<not> (i \<ge> sz \<or> i + word_of_int k > sz) \<longleftrightarrow> i < sz \<and> unat i + nat k \<le> unat sz" if "0 \<le> k" for i
  proof -
    have "uint (word_of_int k :: u32) = k" using that k by (simp add: uint_word_of_int take_bit_int_eq_self)
    then have "unat (word_of_int k :: u32) = nat k" by (simp only: unat_eq_nat_uint)
    then show ?thesis using guard_iff [OF sz(2), of "word_of_int k" i] k by simp
  qed
  have r: "?r = Some p \<longleftrightarrow> argint n s = Ret (Some p) s \<and> 0 \<le> k \<and> p < sz \<and> unat p + nat k \<le> unat sz" for p
    using mi g [of p] by (cases mi) auto
  moreover have "uloads p (nat k) s = Ret (ubytes s p (nat k)) s" if "?r = Some p" for p
    using uloads_ok [OF m] that r by blast
  ultimately show ?thesis using fetchint_ok [OF c sz m] fetchstr_ok [OF c sz(1) m] ap by blast
qed

text \<open>A process of sixteen bytes, with its page directory, page table and page, whose first argument is the address 8.\<close>

definition demo_user :: kstate where
  "demo_user = demo_kernel\<lparr>cr3 := 0x100000, ptable := [demo_proc\<lparr>psz := 16\<rparr>], cur := Some 0,
     memory := (\<lambda>_. 0)(0x80100000 := 7, 0x80100001 := 0x10, 0x80100002 := 0x10, 0x80101000 := 7, 0x80101001 := 0x20, 0x80101002 := 0x10,
       0x80102004 := 8)\<rparr>"

lemma demo_user_ka: "va < 16 \<Longrightarrow> user_ka demo_user va = Some (0x80102000 + (va AND 0xFFF))"
proof -
  assume "va < 16"
  then have v: "unat va < 16" by (simp add: word_less_nat_alt)
  then have "drop_bit 22 va = 0" "drop_bit 12 va = 0"
    by (simp_all add: drop_bit_eq_div word_unat_eq_iff unat_div)
  then have "PDX va = 0" "PTX va = 0" by (simp_all add: PDX_def PTX_def)
  then show ?thesis
    by (simp add: user_ka_def demo_user_def entry_def P2V_def PTE_ADDR_def load32_def)
qed

theorem args_inside_witness:
  "argptr 0 8 demo_user = Ret (Some 8) demo_user \<and> argptr 0 9 demo_user = Ret None demo_user"
proof -
  have d: "cur demo_user = Some 0" "ptable demo_user ! 0 = demo_proc\<lparr>psz := 16\<rparr>" by (simp_all add: demo_user_def)
  have m: "umapped demo_user 16" using demo_user_ka by (simp add: umapped_def)
  note A = args_inside [OF d(1) _ _ m, where n = 0 and a = 4]
  have "ubytes demo_user 4 4 = [8, 0, 0, 0]"
    by (simp add: ubytes_def upt_rec demo_user_ka) (simp add: demo_user_def)
  then have i: "argint 0 demo_user = Ret (Some 8) demo_user"
    using A [of 8] d by (simp add: argint_def km_simps demo_proc_def get32_def)
  obtain r where r: "argptr 0 8 demo_user = Ret r demo_user"
    "r = Some 8 \<longleftrightarrow> argint 0 demo_user = Ret (Some 8) demo_user \<and> (8 :: u32) < 16 \<and> unat (8 :: u32) + 8 \<le> unat (16 :: u32)"
    using A [of 8] d(2) by auto
  obtain q where q: "argptr 0 9 demo_user = Ret q demo_user"
    "\<And>p. q = Some p \<longleftrightarrow> argint 0 demo_user = Ret (Some p) demo_user \<and> p < 16 \<and> unat p + 9 \<le> unat (16 :: u32)"
    using A [of 9] d(2) by auto
  have "q \<noteq> Some p" for p using q(2) i by auto
  then show ?thesis using r i q(1) by (cases q) auto
qed

end
