(* ===== verification/Ulib.thy ===== *)
theory Ulib
  imports CString Numerals
begin

text \<open>
  The user library: \<open>ulib.c\<close>, \<open>printf.c\<close> and the programs \<open>wc.c\<close>, \<open>cat.c\<close> and \<open>echo.c\<close> built on it.
  Strings of unbounded length are the lists of their bytes before the NUL. A file that is read is the
  list of the results of the successive \<open>read\<close> calls: the bytes of each, none at the end of the file,
  \<open>None\<close> for an error. What is written is the list of bytes.
\<close>

section \<open>ulib.c\<close>

partial_function (option) u_strcpy_loop :: "u32 \<Rightarrow> u32 \<Rightarrow> bytes \<Rightarrow> bytes option" where
  "u_strcpy_loop s t m = (let m' = m(s := m t) in
     if m t \<noteq> 0 then u_strcpy_loop (s + 1) (t + 1) m' else Some m')"

definition u_strcpy :: "u32 \<Rightarrow> u32 \<Rightarrow> bytes \<Rightarrow> bytes option" where
  "u_strcpy s t m = u_strcpy_loop s t m"

fun u_strcmp :: "u8 list \<Rightarrow> u8 list \<Rightarrow> int" where
  "u_strcmp [] q = - uint (hd0 q)"
| "u_strcmp (c # p) q = (if c = hd0 q then u_strcmp p (tl q) else uint c - uint (hd0 q))"

partial_function (option) u_strlen_loop :: "bytes \<Rightarrow> u32 \<Rightarrow> nat \<Rightarrow> nat option" where
  "u_strlen_loop m s n = (if m (s + of_nat n) = 0 then Some n else u_strlen_loop m s (Suc n))"

definition u_strlen :: "bytes \<Rightarrow> u32 \<Rightarrow> nat option" where
  "u_strlen m s = u_strlen_loop m s 0"

definition u_memset :: "u32 \<Rightarrow> u32 \<Rightarrow> u32 \<Rightarrow> bytes \<Rightarrow> bytes" where
  "u_memset dst c n m = stosb dst (ucast c) (unat n) m"

text \<open>\<open>strchr\<close>: the rest of the string from the first occurrence on.\<close>

fun strchr :: "u8 list \<Rightarrow> u8 \<Rightarrow> u8 list option" where
  "strchr [] c = None"
| "strchr (x # s) c = (if x = c then Some (x # s) else strchr s c)"

text \<open>
  \<open>gets\<close>: \<open>k\<close> is the room \<open>max - 1 - i\<close>; the input is the bytes that the single-byte reads return. The
  line, and what is left of the input.
\<close>

fun gets_loop :: "nat \<Rightarrow> u8 list \<Rightarrow> u8 list \<times> u8 list" where
  "gets_loop 0 inp = ([], inp)"
| "gets_loop (Suc k) [] = ([], [])"
| "gets_loop (Suc k) (c # inp) =
     (if c = 10 \<or> c = 13 then ([c], inp)
      else case gets_loop k inp of (l, r) \<Rightarrow> (c # l, r))"

definition gets :: "nat \<Rightarrow> u8 list \<Rightarrow> u8 list \<times> u8 list" where
  "gets max' inp = gets_loop (max' - 1) inp"

fun atoi_loop :: "u32 \<Rightarrow> u8 list \<Rightarrow> u32" where
  "atoi_loop n [] = n"
| "atoi_loop n (c # s) = (if 0x30 \<le> c \<and> c \<le> 0x39 then atoi_loop (n * 10 + ucast c - 0x30) s else n)"

definition atoi :: "u8 list \<Rightarrow> u32" where
  "atoi s = atoi_loop 0 s"

definition u_memmove :: "u32 \<Rightarrow> u32 \<Rightarrow> int \<Rightarrow> bytes \<Rightarrow> bytes" where
  "u_memmove dst src n m = copy_up dst src (nat n) m"

section \<open>printf.c\<close>

definition u_digit :: "u32 \<Rightarrow> u8" where
  "u_digit d = (if d < 10 then 0x30 + ucast d else 0x41 + ucast (d - 10))"

text \<open>The digit loop of \<open>printint\<close>, lowest digit first; the first argument is the room left in \<open>buf\<close>.\<close>

fun u_digits :: "nat \<Rightarrow> u32 \<Rightarrow> u32 \<Rightarrow> u8 list option" where
  "u_digits 0 x base = None"
| "u_digits (Suc room) x base =
     (if x div base = 0 then Some [u_digit (x mod base)]
      else map_option (\<lambda>ds. u_digit (x mod base) # ds) (u_digits room (x div base) base))"

definition u_printint :: "u32 \<Rightarrow> u32 \<Rightarrow> bool \<Rightarrow> u8 list option" where
  "u_printint xx base sg = (let neg = (sg \<and> sint xx < 0); x = (if neg then - xx else xx) in
     case u_digits 16 x base of None \<Rightarrow> None
     | Some ds \<Rightarrow> if neg then (if length ds < 16 then Some (0x2D # rev ds) else None) else Some (rev ds))"

interpretation uprint: int_printer u_digit u_digits u_printint
  by unfold_locales (simp_all add: u_printint_def)

datatype uarg = UInt u32 | UStr "u8 list"

text \<open>
  The loop of \<open>printf\<close>; the flag says that the last character was a percent sign. \<open>None\<close>: the format
  asks for an argument that is missing or of the other kind.
\<close>

fun u_printf :: "bool \<Rightarrow> u8 list \<Rightarrow> uarg list \<Rightarrow> u8 list option" where
  "u_printf pct [] args = Some []"
| "u_printf False (c # fmt) args =
     (if c = 0x25 then u_printf True fmt args else map_option (\<lambda>r. c # r) (u_printf False fmt args))"
| "u_printf True (c # fmt) args =
     (if c = 0x64 then (case args of UInt w # as \<Rightarrow>
          (case u_printint w 10 True of None \<Rightarrow> None | Some ds \<Rightarrow> map_option (\<lambda>r. ds @ r) (u_printf False fmt as)) | _ \<Rightarrow> None)
      else if c = 0x78 \<or> c = 0x70 then (case args of UInt w # as \<Rightarrow>
          (case u_printint w 16 False of None \<Rightarrow> None | Some ds \<Rightarrow> map_option (\<lambda>r. ds @ r) (u_printf False fmt as)) | _ \<Rightarrow> None)
      else if c = 0x73 then (case args of
          UStr str # as \<Rightarrow> map_option (\<lambda>r. str @ r) (u_printf False fmt as)
        | UInt w # as \<Rightarrow> if w = 0 then map_option (\<lambda>r. map of_char ''(null)'' @ r) (u_printf False fmt as) else None
        | [] \<Rightarrow> None)
      else if c = 0x63 then (case args of UInt w # as \<Rightarrow> map_option (\<lambda>r. ucast w # r) (u_printf False fmt as) | _ \<Rightarrow> None)
      else if c = 0x25 then map_option (\<lambda>r. c # r) (u_printf False fmt args)
      else map_option (\<lambda>r. 0x25 # c # r) (u_printf False fmt args))"

section \<open>wc.c, cat.c, echo.c\<close>

record wc_state =
  wc_l :: u32
  wc_w :: u32
  wc_c :: u32
  inword :: bool

definition wc_char :: "wc_state \<Rightarrow> u8 \<Rightarrow> wc_state" where
  "wc_char s b = (let s = s\<lparr>wc_c := wc_c s + 1\<rparr>;
       s = (if b = 10 then s\<lparr>wc_l := wc_l s + 1\<rparr> else s) in
     if strchr [32, 13, 9, 10, 11] b \<noteq> None then s\<lparr>inword := False\<rparr>
     else if \<not> inword s then s\<lparr>wc_w := wc_w s + 1, inword := True\<rparr> else s)"

text \<open>\<open>wc\<close>: the three counts, or \<open>None\<close> for a read error.\<close>

fun wc_loop :: "wc_state \<Rightarrow> u8 list option list \<Rightarrow> wc_state option" where
  "wc_loop s [] = Some s"
| "wc_loop s (None # rs) = None"
| "wc_loop s (Some b # rs) = (if b = [] then Some s else wc_loop (foldl wc_char s b) rs)"

definition wc :: "u8 list option list \<Rightarrow> wc_state option" where
  "wc rs = wc_loop \<lparr>wc_l = 0, wc_w = 0, wc_c = 0, inword = False\<rparr> rs"

text \<open>
  \<open>cat\<close>: each turn of the loop has what \<open>read\<close> returned, \<open>None\<close> for -1, and what \<open>write\<close> then returns. The result
  is the bytes written and how the loop ended; the two errors print their message and exit.
\<close>

datatype cat_end = CatEof | CatReadError | CatWriteError

fun cat :: "(u8 list option \<times> int) list \<Rightarrow> u8 list \<times> cat_end" where
  "cat [] = ([], CatEof)"
| "cat ((None, w) # rs) = ([], CatReadError)"
| "cat ((Some b, w) # rs) =
     (if b = [] then ([], CatEof)
      else if w \<noteq> int (length b) then (take (nat w) b, CatWriteError)
      else case cat rs of (out, e) \<Rightarrow> (b @ out, e))"

fun echo_main :: "u8 list list \<Rightarrow> u8 list" where
  "echo_main [] = []"
| "echo_main [a] = a @ [10]"
| "echo_main (a # b # as) = a @ [32] @ echo_main (b # as)"

section \<open>Word counts\<close>

definition white :: "u8 \<Rightarrow> bool" where
  "white b \<longleftrightarrow> b \<in> {32, 13, 9, 10, 11}"

text \<open>The positions where a word starts: a character that is not white space and does not follow one.\<close>

definition word_starts :: "u8 list \<Rightarrow> nat set" where
  "word_starts t = {i. i < length t \<and> \<not> white (t ! i) \<and> (i = 0 \<or> white (t ! (i - 1)))}"

lemma strchr_white: "strchr [32, 13, 9, 10, 11] b \<noteq> None \<longleftrightarrow> white b"
  by (auto simp: white_def)

lemma finite_starts [simp]: "finite (word_starts t)"
  unfolding word_starts_def by (rule finite_subset [of _ "{..<length t}"]) auto

lemma starts_snoc:
  "word_starts (t @ [c]) = word_starts t \<union> (if \<not> white c \<and> (t = [] \<or> white (last t)) then {length t} else {})"
proof (rule set_eqI)
  fix i
  show "i \<in> word_starts (t @ [c]) \<longleftrightarrow>
    i \<in> word_starts t \<union> (if \<not> white c \<and> (t = [] \<or> white (last t)) then {length t} else {})"
  proof (cases "i < length t")
    case True
    then show ?thesis by (auto simp: word_starts_def nth_append)
  next
    case False
    then show ?thesis by (cases "i = length t"; cases t rule: rev_cases) (auto simp: word_starts_def nth_append)
  qed
qed

lemma card_starts_snoc:
  "card (word_starts (t @ [c])) = card (word_starts t) + (if \<not> white c \<and> (t = [] \<or> white (last t)) then 1 else 0)"
proof -
  have "length t \<notin> word_starts t" by (simp add: word_starts_def)
  then show ?thesis by (simp add: starts_snoc)
qed

abbreviation wc_zero :: wc_state where
  "wc_zero \<equiv> \<lparr>wc_l = 0, wc_w = 0, wc_c = 0, inword = False\<rparr>"

lemma wc_char_eq:
  "wc_char s b = \<lparr>wc_l = wc_l s + (if b = 10 then 1 else 0), wc_w = wc_w s + (if \<not> white b \<and> \<not> inword s then 1 else 0),
     wc_c = wc_c s + 1, inword = (\<not> white b)\<rparr>"
  unfolding wc_char_def strchr_white Let_def by simp

lemma wc_fold:
  "foldl wc_char wc_zero t = \<lparr>wc_l = of_nat (count_list t 10), wc_w = of_nat (card (word_starts t)),
     wc_c = of_nat (length t), inword = (t \<noteq> [] \<and> \<not> white (last t))\<rparr>"
proof (induction t rule: rev_induct)
  case Nil
  then show ?case by (simp add: word_starts_def)
next
  case (snoc c t)
  then show ?case using card_starts_snoc [of t c] by (cases "t = []") (simp_all add: wc_char_eq)
qed

lemma wc_loop_foldl:
  "[] \<notin> set rs \<Longrightarrow> wc_loop s (map Some rs @ [Some []]) = Some (foldl wc_char s (concat rs))"
  by (induction rs arbitrary: s) auto

text \<open>
  C32. \<open>wc\<close> counts right however the reads cut the file: newlines, characters, and the positions where a
  word starts, in \<open>int\<close>s that wrap.
\<close>

theorem wc_counts:
  assumes "[] \<notin> set rs"
  shows "\<exists>st. wc (map Some rs @ [Some []]) = Some st \<and>
     wc_l st = of_nat (count_list (concat rs) 10) \<and>
     wc_w st = of_nat (card (word_starts (concat rs))) \<and>
     wc_c st = of_nat (length (concat rs))"
  using assms by (simp add: wc_def wc_loop_foldl wc_fold)

theorem wc_counts_witness:
  "\<exists>st. wc (map Some [[0x61], [0x62, 10], [32, 0x63]] @ [Some []]) = Some st \<and> wc_l st = 1 \<and> wc_w st = 2 \<and> wc_c st = 5"
proof -
  have w: "word_starts [0x61, 0x62, 10, 32, 0x63] = {0, 4}"
  proof (rule set_eqI)
    fix i
    show "i \<in> word_starts [0x61, 0x62, 10, 32, 0x63] \<longleftrightarrow> i \<in> {0, 4}"
    proof (cases "i < 5")
      case True
      then have "i = 0 \<or> i = 1 \<or> i = 2 \<or> i = 3 \<or> i = 4" by linarith
      then show ?thesis by (elim disjE) (simp_all add: word_starts_def white_def)
    qed (simp add: word_starts_def)
  qed
  have "[] \<notin> set [[0x61], [0x62, 10], [32, 0x63 :: u8]]" by simp
  from wc_counts [OF this] show ?thesis by (simp add: w)
qed

section \<open>Numbers and their text\<close>

lemma atoi_loop_append:
  "(\<forall>c\<in>set ds. 0x30 \<le> c \<and> c \<le> 0x39) \<Longrightarrow> atoi_loop n (ds @ s) = atoi_loop (atoi_loop n ds) s"
  by (induction ds arbitrary: n) auto

lemma u_digit_decimal:
  assumes "d < 10"
  shows "0x30 \<le> u_digit (of_nat d)" "u_digit (of_nat d) \<le> 0x39" "ucast (u_digit (of_nat d)) - 0x30 = (of_nat d :: u32)"
proof -
  have w: "unat (of_nat d :: u32) = d" and v: "unat (of_nat d :: u8) = d" using assms by (simp_all add: unat_of_nat)
  have u: "u_digit (of_nat d) = 0x30 + of_nat d"
    using assms w word_less_nat_alt [of "of_nat d" "10 :: u32"] of_nat_unat [where 'a = "8 word", of "of_nat d :: u32"]
    by (simp add: u_digit_def)
  have n: "unat (0x30 + of_nat d :: u8) = 48 + d" using assms v by (simp add: unat_word_ariths)
  show "0x30 \<le> u_digit (of_nat d)" "u_digit (of_nat d) \<le> 0x39"
    using assms n unfolding u by (simp_all add: word_le_nat_alt)
  have "ucast (0x30 + of_nat d :: u8) = (of_nat (48 + d) :: u32)"
    using of_nat_unat [where 'a = "32 word", of "0x30 + of_nat d :: u8"] unfolding n by simp
  then show "ucast (u_digit (of_nat d)) - 0x30 = (of_nat d :: u32)" unfolding u by simp
qed

abbreviation decimal :: "nat \<Rightarrow> u8 list" where
  "decimal n \<equiv> positional (\<lambda>d. u_digit (of_nat d)) 10 n"

lemma decimal_digits: "c \<in> set (decimal n) \<Longrightarrow> 0x30 \<le> c \<and> c \<le> 0x39"
proof (induction n rule: less_induct)
  case (less n)
  show ?case
  proof (cases "n < 10")
    case True
    then show ?thesis using less(2) u_digit_decimal [of n] by (simp add: positional.simps)
  next
    case False
    then have "decimal n = decimal (n div 10) @ [u_digit (of_nat (n mod 10))]" by (subst positional.simps) simp
    then show ?thesis using less(1) [of "n div 10"] less(2) False u_digit_decimal [of "n mod 10"] by auto
  qed
qed

lemma atoi_decimal: "atoi_loop 0 (decimal n) = of_nat n"
proof (induction n rule: less_induct)
  case (less n)
  show ?case
  proof (cases "n < 10")
    case True
    then show ?thesis using u_digit_decimal [of n] by (simp add: positional.simps)
  next
    case False
    then have d: "decimal n = decimal (n div 10) @ [u_digit (of_nat (n mod 10))]" by (subst positional.simps) simp
    have "atoi_loop 0 (decimal n) = of_nat (n div 10) * 10 + ucast (u_digit (of_nat (n mod 10))) - 0x30"
      unfolding d using less [of "n div 10"] False u_digit_decimal [of "n mod 10"]
      by (subst atoi_loop_append) (auto dest: decimal_digits)
    also have "\<dots> = of_nat (n div 10) * 10 + (of_nat (n mod 10) :: u32)"
      using u_digit_decimal(3) [of "n mod 10"] by (simp add: add_diff_eq [symmetric])
    also have "\<dots> = of_nat (n div 10 * 10 + n mod 10)" by (simp only: of_nat_add of_nat_mult of_nat_numeral)
    finally show ?thesis by (simp only: div_mult_mod_eq)
  qed
qed

text \<open>
  C33. Printing and reading back: \<open>printint\<close> prints every \<open>int\<close> in base 10 inside its buffer of 16
  characters, using at most 11; \<open>atoi\<close> reads the digits of a number that is not negative back to the
  number, and the digits after the sign of a negative one to its negation, also for the smallest \<open>int\<close>.
\<close>

theorem printint_atoi:
  "\<exists>cs. u_printint xx 10 True = Some cs \<and> length cs \<le> 11 \<and>
     (if sint xx < 0 then hd cs = 0x2D \<and> - atoi (tl cs) = xx else atoi cs = xx)"
proof -
  have ten: "unat (10 :: u32) = 10" by simp
  obtain cs where cs: "u_printint xx 10 True = Some cs" "length cs \<le> 11"
    using uprint.chars_fit [of 10 xx True] by auto
  have "cs = (if sint xx < 0 then 0x2D # decimal (nat (- sint xx)) else decimal (unat xx))"
    using cs(1) uprint.chars_pos [of 10 xx True] unfolding ten by simp
  moreover have "- of_nat (nat (- sint xx)) = xx" if "sint xx < 0"
  proof -
    have "(of_nat (nat (- sint xx)) :: u32) = of_int (- sint xx)" using that by simp
    then show ?thesis by simp
  qed
  ultimately show ?thesis using cs by (simp add: atoi_def atoi_decimal)
qed

end
