(* ===== verification/Grep.thy ===== *)
theory Grep
  imports Ulib
begin

text \<open>
  \<open>grep.c\<close>: the regular expression matcher and the line loop.
\<close>

section \<open>The matcher\<close>

text \<open>
  The three mutually recursive functions, on lists of bytes before the NUL. \<open>re[1]\<close> of a pattern of
  one byte is its NUL.
\<close>

function (sequential) matchhere :: "u8 list \<Rightarrow> u8 list \<Rightarrow> bool"
  and matchstar :: "u8 \<Rightarrow> u8 list \<Rightarrow> u8 list \<Rightarrow> bool" where
  "matchhere re text' =
     (if re = [] then True
      else if hd0 (tl re) = 0x2A then matchstar (hd0 re) (tl (tl re)) text'
      else if hd0 re = 0x24 \<and> tl re = [] then text' = []
      else if text' \<noteq> [] \<and> (hd0 re = 0x2E \<or> hd0 re = hd0 text') then matchhere (tl re) (tl text')
      else False)"
| "matchstar c re text' =
     (if matchhere re text' then True
      else if text' \<noteq> [] \<and> (hd0 text' = c \<or> c = 0x2E) then matchstar c re (tl text')
      else False)"
  by pat_completeness auto
termination
  by (relation "inv_image (less_than <*lex*> less_than <*lex*> less_than)
      (\<lambda>x. case x of Inl (re, t) \<Rightarrow> (length re, length t, 0 :: nat) | Inr (c, re, t) \<Rightarrow> (length re, length t, 1))")
    (auto simp: hd0_def neq_Nil_conv split: list.splits)

declare matchhere.simps [simp del] matchstar.simps [simp del]

text \<open>The loop of \<open>match\<close> tries every suffix of the text, the empty one included.\<close>

fun match_loop :: "u8 list \<Rightarrow> u8 list \<Rightarrow> bool" where
  "match_loop re [] = matchhere re []"
| "match_loop re (c # text') = (matchhere re (c # text') \<or> match_loop re text')"

definition match :: "u8 list \<Rightarrow> u8 list \<Rightarrow> bool" where
  "match re text' = (if hd0 re = 0x5E then matchhere (tl re) text' else match_loop re text')"

section \<open>The line loop\<close>

text \<open>
  The inner loop of \<open>grep\<close> over the filled part of \<open>buf\<close>: what it writes and what is left after the
  last newline. \<open>strchr\<close> and \<open>match\<close> stop at a NUL in the data.
\<close>

definition c_str :: "u8 list \<Rightarrow> u8 list" where
  "c_str p = takeWhile (\<lambda>c. c \<noteq> 0) p"

lemma strchr_shorter: "strchr s c = Some q \<Longrightarrow> q \<noteq> [] \<and> length q \<le> length s"
  by (induction s) (auto split: if_splits)

function grep_lines :: "u8 list \<Rightarrow> u8 list \<Rightarrow> u8 list \<times> u8 list" where
  "grep_lines re p = (case strchr (c_str p) 10 of
     None \<Rightarrow> ([], p)
   | Some q \<Rightarrow>
       let n = length (c_str p) - length q; line = take n p in
       (case grep_lines re (drop (Suc n) p) of (out, rest) \<Rightarrow>
          (if match re line then line @ [10] @ out else out, rest)))"
  by pat_completeness auto
termination
proof (relation "measure (\<lambda>(re, p). length p)")
  fix re p q n line
  assume a: "strchr (c_str p) 10 = Some q" "n = length (c_str p) - length q"
  have "length (c_str p) \<le> length p" unfolding c_str_def by (rule length_takeWhile_le)
  moreover have "0 < length q" "length q \<le> length (c_str p)" using strchr_shorter [OF a(1)] by auto
  ultimately have "n < length p" using a(2) by linarith
  then show "((re, drop (Suc n) p), re, p) \<in> measure (\<lambda>(re, p). length p)" by simp
qed simp

declare grep_lines.simps [simp del]

text \<open>
  The outer loop: \<open>rs\<close> is the bytes each \<open>read\<close> returns, of any length, and \<open>part\<close> the \<open>m\<close> bytes kept at
  the start of the buffer. When no newline was found, \<open>p == buf\<close> and the bytes are dropped.
\<close>

fun grep_loop :: "u8 list \<Rightarrow> u8 list \<Rightarrow> u8 list list \<Rightarrow> u8 list" where
  "grep_loop re part [] = []"
| "grep_loop re part (r # rs) = (if r = [] then [] else
     let buf = part @ r in
     case grep_lines re buf of (out, rest) \<Rightarrow>
       out @ grep_loop re (if length rest = length buf then [] else rest) rs)"

definition grep :: "u8 list \<Rightarrow> u8 list list \<Rightarrow> u8 list" where
  "grep re rs = grep_loop re [] rs"

text \<open>
  The same loop on a regular file, where \<open>read\<close> returns as many bytes as the rest of the buffer and the rest
  of the file have: \<open>sizeof(buf)-m-1\<close> of the 1024 at most.
\<close>

lemma drop_shorter: "take n xs \<noteq> [] \<Longrightarrow> length (drop n xs) < length xs"
  by (cases xs; cases n) simp_all

function grep_file :: "u8 list \<Rightarrow> u8 list \<Rightarrow> u8 list \<Rightarrow> u8 list" where
  "grep_file re part text' = (let r = take (1023 - length part) text' in
     if r = [] then []
     else let buf = part @ r in
       case grep_lines re buf of (out, rest) \<Rightarrow>
         out @ grep_file re (if length rest = length buf then [] else rest) (drop (1023 - length part) text'))"
  by pat_completeness auto
termination
  by (relation "measure (\<lambda>(re, part, text'). length text')") (simp_all add: drop_shorter del: length_drop take_eq_Nil)

declare grep_file.simps [simp del]

section \<open>What a pattern means\<close>

text \<open>
  A pattern is a sequence of single characters and of starred ones, a dot standing for any character,
  with an optional anchor at the end.
\<close>

datatype item = One u8 | Star u8

definition fits :: "u8 \<Rightarrow> u8 \<Rightarrow> bool" where
  "fits c x \<longleftrightarrow> c = 0x2E \<or> c = x"

fun items :: "u8 list \<Rightarrow> item list" where
  "items [] = []"
| "items [c] = (if c = 0x24 then [] else [One c])"
| "items (c # d # re) = (if d = 0x2A then Star c # items re else One c # items (d # re))"

fun anchored :: "u8 list \<Rightarrow> bool" where
  "anchored [] = False"
| "anchored [c] = (c = 0x24)"
| "anchored (c # d # re) = (if d = 0x2A then anchored re else anchored (d # re))"

fun lang :: "item list \<Rightarrow> u8 list set" where
  "lang [] = {[]}"
| "lang (One c # is) = {x # w |x w. fits c x \<and> w \<in> lang is}"
| "lang (Star c # is) = {u @ w |u w. (\<forall>x\<in>set u. fits c x) \<and> w \<in> lang is}"

definition front :: "item list \<Rightarrow> bool \<Rightarrow> u8 list \<Rightarrow> bool" where
  "front is e t \<longleftrightarrow> (\<exists>mid post. t = mid @ post \<and> mid \<in> lang is \<and> (e \<longrightarrow> post = []))"

lemma front_Nil: "front [] e t \<longleftrightarrow> (e \<longrightarrow> t = [])"
  by (auto simp: front_def)

lemma front_One: "front (One c # is) e t \<longleftrightarrow> (\<exists>x v. t = x # v \<and> fits c x \<and> front is e v)"
proof
  assume "front (One c # is) e t"
  then obtain x w post where "t = (x # w) @ post" "fits c x" "w \<in> lang is" "e \<longrightarrow> post = []"
    unfolding front_def lang.simps by blast
  then show "\<exists>x v. t = x # v \<and> fits c x \<and> front is e v" unfolding front_def by simp blast
next
  assume "\<exists>x v. t = x # v \<and> fits c x \<and> front is e v"
  then obtain x mid post where "t = (x # mid) @ post" "fits c x" "mid \<in> lang is" "e \<longrightarrow> post = []"
    unfolding front_def by auto
  then show "front (One c # is) e t" unfolding front_def lang.simps by blast
qed

lemma front_Star:
  "front (Star c # is) e t \<longleftrightarrow> front is e t \<or> (\<exists>x v. t = x # v \<and> fits c x \<and> front (Star c # is) e v)"
    (is "?l \<longleftrightarrow> ?n \<or> ?s")
proof
  assume ?l
  then obtain u w post where t: "t = (u @ w) @ post" "\<forall>x\<in>set u. fits c x" "w \<in> lang is" "e \<longrightarrow> post = []"
    unfolding front_def lang.simps by blast
  show "?n \<or> ?s"
  proof (cases u)
    case Nil
    then show ?thesis using t unfolding front_def by auto
  next
    case (Cons x v)
    then have "\<forall>x\<in>set v. fits c x" "fits c x" using t(2) by simp_all
    then have "front (Star c # is) e ((v @ w) @ post)" unfolding front_def lang.simps using t(3,4) by blast
    then show ?thesis using t(1) Cons \<open>fits c x\<close> by simp
  qed
next
  show "?l" if "?n \<or> ?s" using that
  proof
    assume ?n
    then obtain mid post where "t = ([] @ mid) @ post" "mid \<in> lang is" "e \<longrightarrow> post = []" by (auto simp: front_def)
    moreover have "\<forall>x\<in>set []. fits c x" by simp
    ultimately show ?l unfolding front_def lang.simps by blast
  next
    assume ?s
    then obtain x v u w post where "t = x # v" "fits c x" "v = (u @ w) @ post" "\<forall>y\<in>set u. fits c y"
      "w \<in> lang is" "e \<longrightarrow> post = []" unfolding front_def lang.simps by blast
    then have "t = ((x # u) @ w) @ post" "\<forall>y\<in>set (x # u). fits c y" by simp_all
    then show ?l unfolding front_def lang.simps using \<open>w \<in> lang is\<close> \<open>e \<longrightarrow> post = []\<close> by blast
  qed
qed

lemma hd0_Cons [simp]: "hd0 (x # xs) = x"
  by (simp add: hd0_def)

lemma matchhere_Nil: "matchhere [] t"
  by (subst matchhere.simps) simp

lemma matchhere_last: "matchhere [c] t \<longleftrightarrow> (if c = 0x24 then t = [] else \<exists>x v. t = x # v \<and> fits c x)"
  by (subst matchhere.simps, cases t) (auto simp: fits_def hd0_def matchhere_Nil)

lemma matchhere_star: "matchhere (c # 0x2A # re) t = matchstar c re t"
  by (subst matchhere.simps) simp

lemma matchhere_step:
  "d \<noteq> 0x2A \<Longrightarrow> matchhere (c # d # re) t \<longleftrightarrow> (\<exists>x v. t = x # v \<and> fits c x \<and> matchhere (d # re) v)"
  by (subst matchhere.simps, cases t) (auto simp: fits_def)

lemma matchstar_step:
  "matchstar c re t \<longleftrightarrow> matchhere re t \<or> (\<exists>x v. t = x # v \<and> fits c x \<and> matchstar c re v)"
  by (subst matchstar.simps, cases t) (auto simp: fits_def)

lemma matchstar_front:
  assumes "\<And>t. matchhere re t = front (items re) (anchored re) t"
  shows "matchstar c re t = front (Star c # items re) (anchored re) t"
proof (induction t)
  case Nil
  show ?case by (subst matchstar_step, subst front_Star) (simp add: assms)
next
  case (Cons x v)
  then show ?case by (subst matchstar_step, subst front_Star) (simp add: assms)
qed

lemma matchhere_front: "matchhere re t = front (items re) (anchored re) t"
proof (induction re arbitrary: t rule: items.induct)
  case 1
  then show ?case by (simp add: matchhere_Nil front_Nil)
next
  case (2 c)
  then show ?case by (simp add: matchhere_last front_One front_Nil)
next
  case (3 c d re)
  show ?case
  proof (cases "d = 0x2A")
    case True
    then show ?thesis using 3(1) matchstar_front [of re c t] by (simp add: matchhere_star)
  next
    case False
    then show ?thesis using 3(2) by (simp add: matchhere_step front_One)
  qed
qed

lemma match_loop_suffix: "match_loop re t \<longleftrightarrow> (\<exists>pre rest. t = pre @ rest \<and> matchhere re rest)"
proof (induction t)
  case (Cons c t)
  have "(\<exists>pre rest. c # t = pre @ rest \<and> matchhere re rest) \<longleftrightarrow>
     matchhere re (c # t) \<or> (\<exists>pre rest. t = pre @ rest \<and> matchhere re rest)"
    by (auto simp: Cons_eq_append_conv)
  then show ?case using Cons by simp
qed simp

text \<open>
  C29. The matcher decides what the pattern means: \<open>match\<close> returns 1 exactly when the text contains a
  part that the pattern's sequence of characters and starred characters describes, at the start of the
  text when the pattern starts with a caret and at its end when it ends with a dollar sign.
\<close>

theorem match_iff:
  "match re text' \<longleftrightarrow> (let body = (if hd0 re = 0x5E then tl re else re) in
     \<exists>pre mid post. text' = pre @ mid @ post \<and> mid \<in> lang (items body) \<and>
       (hd0 re = 0x5E \<longrightarrow> pre = []) \<and> (anchored body \<longrightarrow> post = []))"
  unfolding match_def match_loop_suffix matchhere_front front_def Let_def by auto

theorem match_iff_witness:
  "\<exists>pre mid. [0x78, 0x61, 0x62, 0x62] = pre @ mid \<and> mid \<in> lang (items [0x61, 0x62, 0x2A, 0x24])"
proof -
  have "match [0x61, 0x62, 0x2A, 0x24] [0x78, 0x61, 0x62, 0x62]" by code_simp
  moreover have "anchored [0x61, 0x62, 0x2A, 0x24]" by code_simp
  ultimately show ?thesis using match_iff [of "[0x61, 0x62, 0x2A, 0x24]" "[0x78, 0x61, 0x62, 0x62]"]
    by (simp add: hd0_def Let_def)
qed

section \<open>The output of grep\<close>

text \<open>The lines of a text that end in a newline, and what follows the last newline.\<close>

function lines_of :: "u8 list \<Rightarrow> u8 list list" where
  "lines_of s = (if 10 \<in> set s then takeWhile (\<lambda>c. c \<noteq> 10) s # lines_of (tl (dropWhile (\<lambda>c. c \<noteq> 10) s)) else [])"
  by pat_completeness auto
termination
proof (relation "measure length")
  fix s :: "u8 list" assume "10 \<in> set s"
  then have "dropWhile (\<lambda>c. c \<noteq> 10) s \<noteq> []" by (simp add: dropWhile_eq_Nil_conv)
  then have "length (tl (dropWhile (\<lambda>c. c \<noteq> 10) s)) < length (dropWhile (\<lambda>c. c \<noteq> 10) s)" by simp
  also have "\<dots> \<le> length s" by (rule length_dropWhile_le)
  finally show "(tl (dropWhile (\<lambda>c. c \<noteq> 10) s), s) \<in> measure length" by simp
qed simp

declare lines_of.simps [simp del]

fun tail_of :: "u8 list \<Rightarrow> u8 list" where
  "tail_of [] = []"
| "tail_of (c # s) = (if 10 \<in> set (c # s) then tail_of s else c # s)"

definition printed :: "u8 list \<Rightarrow> u8 list list \<Rightarrow> u8 list" where
  "printed re ls = concat (map (\<lambda>l. l @ [10]) (filter (match re) ls))"

lemma printed_simps [simp]:
  "printed re [] = []"
  "printed re (l # ls) = (if match re l then l @ [10] @ printed re ls else printed re ls)"
  "printed re (ls @ ks) = printed re ls @ printed re ks"
  by (simp_all add: printed_def)

lemma lines_Cons:
  assumes "10 \<notin> set l"
  shows "lines_of (l @ 10 # s) = l # lines_of s"
proof -
  have a: "\<And>x. x \<in> set l \<Longrightarrow> x \<noteq> 10" using assms by blast
  show ?thesis
    by (subst lines_of.simps) (simp add: takeWhile_append2 [of l, OF a] dropWhile_append2 [of l, OF a])
qed

lemma lines_none: "10 \<notin> set l \<Longrightarrow> lines_of l = []"
  by (subst lines_of.simps) simp

lemma tail_Cons: "tail_of (l @ 10 # s) = tail_of s"
  by (induction l) simp_all


lemma tail_none: "10 \<notin> set l \<Longrightarrow> tail_of l = l"
  by (cases l) simp_all


lemma line_split: "10 \<in> set s \<Longrightarrow> \<exists>l r. s = l @ (10 :: u8) # r \<and> 10 \<notin> set l"
  by (metis split_list_first)

lemma line_induct [case_names none line]:
  assumes "\<And>s. 10 \<notin> set s \<Longrightarrow> P s"
    and "\<And>l s. 10 \<notin> set l \<Longrightarrow> P s \<Longrightarrow> P (l @ (10 :: u8) # s)"
  shows "P s"
proof (induction "length s" arbitrary: s rule: less_induct)
  case less
  show ?case
  proof (cases "10 \<in> set s")
    case True
    then obtain l r where "s = l @ 10 # r" "10 \<notin> set l" using line_split by blast
    then show ?thesis using assms(2) [of l r] less [of r] by simp
  qed (use assms(1) in blast)
qed

lemma lines_append: "lines_of (p @ q) = lines_of p @ lines_of (tail_of p @ q)"
  by (induction p rule: line_induct) (simp_all add: lines_none tail_none lines_Cons tail_Cons)

lemma tail_le: "length (tail_of p) \<le> length p"
  by (induction p) (auto intro: le_SucI)

lemma tail_short: "10 \<in> set p \<Longrightarrow> length (tail_of p) < length p"
  using tail_le [of "tl p"] by (cases p) simp_all


lemma strchr_none: "c \<notin> set s \<Longrightarrow> strchr s c = None"
  by (induction s) auto

lemma strchr_some: "c \<notin> set l \<Longrightarrow> strchr (l @ c # r) c = Some (c # r)"
  by (induction l) auto

lemma c_str_clean: "0 \<notin> set s \<Longrightarrow> c_str s = s"
  by (induction s) (simp_all add: c_str_def)


lemma grep_lines_eq: "0 \<notin> set p \<Longrightarrow> grep_lines re p = (printed re (lines_of p), tail_of p)"
proof (induction p rule: line_induct)
  case (none s)
  then show ?case by (subst grep_lines.simps) (simp add: c_str_clean strchr_none lines_none tail_none)
next
  case (line l s)
  then have c: "c_str (l @ 10 # s) = l @ 10 # s" by (intro c_str_clean) simp
  show ?case using line
    by (subst grep_lines.simps) (simp add: c strchr_some lines_Cons tail_Cons)
qed

lemma tail_clean: "0 \<notin> set p \<Longrightarrow> 0 \<notin> set (tail_of p)"
  by (induction p) simp_all


lemma tail_no_newline: "10 \<notin> set (tail_of p)"
  by (induction p) simp_all


lemma grep_loop_last:
  assumes "0 \<notin> set part" "10 \<notin> set part" "0 \<notin> set r"
  shows "grep_loop re part [r, []] = printed re (lines_of (part @ r))"
  using assms by (cases "r = []") (simp_all add: grep_lines_eq lines_none Let_def)

lemma grep_loop_eq:
  assumes "0 \<notin> set part" "10 \<notin> set part" "\<forall>r\<in>set rs. 10 \<in> set r" "0 \<notin> set (concat rs @ r)"
  shows "grep_loop re part (rs @ [r, []]) = printed re (lines_of (part @ concat rs @ r))"
  using assms
proof (induction rs arbitrary: part)
  case Nil
  then show ?case using grep_loop_last [of part r re] by simp
next
  case (Cons q rs)
  let ?b = "part @ q"
  have b: "0 \<notin> set ?b" "10 \<in> set ?b" "q \<noteq> []" using Cons.prems by auto
  have "grep_loop re (tail_of ?b) (rs @ [r, []]) = printed re (lines_of (tail_of ?b @ concat rs @ r))"
    using Cons.IH [of "tail_of ?b"] Cons.prems(3,4) tail_clean [OF b(1)] tail_no_newline [of ?b] by simp
  moreover have "lines_of (part @ concat (q # rs) @ r) = lines_of ?b @ lines_of (tail_of ?b @ concat rs @ r)"
    using lines_append [of ?b "concat rs @ r"] by simp
  ultimately show ?case using b tail_short [OF b(2)] by (simp add: grep_lines_eq [OF b(1)] Let_def)
qed

text \<open>A terminated line of at most 1022 bytes at the start of the text lies within the first 1023.\<close>

lemma newline_in_reach:
  assumes "\<forall>l\<in>set (lines_of s). length l \<le> 1022" "10 \<in> set s"
  shows "10 \<in> set (take 1023 s)"
proof -
  obtain l r where s: "s = l @ 10 # r" "10 \<notin> set l" using line_split [OF assms(2)] by blast
  then have "length l \<le> 1022" using assms(1) lines_Cons [of l r] by simp
  then show ?thesis using s(1) by (simp add: take_Cons')
qed

lemma grep_file_eq:
  assumes "0 \<notin> set (part @ s)" "10 \<notin> set part" "length part \<le> 1022" "\<forall>l\<in>set (lines_of (part @ s)). length l \<le> 1022"
  shows "grep_file re part s = printed re (lines_of (part @ s))"
  using assms
proof (induction "length s" arbitrary: part s rule: less_induct)
  case less
  let ?n = "1023 - length part"
  let ?r = "take ?n s" and ?s = "drop ?n s"
  let ?b = "part @ ?r"
  show ?case
  proof (cases "s = []")
    case True
    then show ?thesis using less.prems by (subst grep_file.simps) (simp add: lines_none)
  next
    case False
    have r: "?r \<noteq> []" "length ?s < length s" using False less.prems(3) drop_shorter [of ?n s] by simp_all
    have e: "part @ s = ?b @ ?s" by simp
    have b: "0 \<notin> set ?b" "0 \<notin> set ?s" using less.prems(1) by (auto dest: in_set_takeD in_set_dropD)
    have step: "grep_file re part s = printed re (lines_of ?b) @
        grep_file re (if length (tail_of ?b) = length ?b then [] else tail_of ?b) ?s"
      using r(1) by (subst grep_file.simps) (simp add: grep_lines_eq [OF b(1)] Let_def)
    have l: "lines_of (part @ s) = lines_of ?b @ lines_of (tail_of ?b @ ?s)" unfolding e by (rule lines_append)
    show ?thesis
    proof (cases "10 \<in> set ?b")
      case True
      have t: "length (tail_of ?b) < length ?b" by (rule tail_short [OF True])
      moreover have "length ?b \<le> 1023" using less.prems(3) by simp
      ultimately have "grep_file re (tail_of ?b) ?s = printed re (lines_of (tail_of ?b @ ?s))"
        using less.hyps [OF r(2), of "tail_of ?b"] tail_clean [OF b(1)] b(2) tail_no_newline less.prems(4) l by auto
      then show ?thesis using step t l by simp
    next
      case no: False
      have "10 \<notin> set (part @ s)"
      proof
        assume "10 \<in> set (part @ s)"
        from newline_in_reach [OF less.prems(4) this] have "10 \<in> set (take 1023 part @ ?r)" by simp
        then show False using no less.prems(3) by simp
      qed
      moreover from this have "10 \<notin> set ?s" by (auto dest: in_set_dropD)
      ultimately show ?thesis using step less.hyps [OF r(2), of "[]"] b(2) tail_none [OF no] lines_none [OF no] by (simp add: lines_none)
    qed
  qed
qed

text \<open>
  C30. The output of \<open>grep\<close> on a text without NUL bytes is the lines that the pattern matches, in order,
  each with its newline. The lines of a text are those that end in a newline: what follows the last
  newline is never printed. This holds for a regular file whose lines have at most 1022 bytes and, however
  the text is cut into reads (a pipe, a terminal), when each read but the last has a newline in it.
\<close>

theorem grep_output:
  assumes "0 \<notin> set text'"
  shows "((\<forall>l\<in>set (lines_of text'). length l \<le> 1022) \<longrightarrow>
      grep_file re [] text' = concat (map (\<lambda>l. l @ [10]) (filter (match re) (lines_of text')))) \<and>
    (\<forall>rs r. text' = concat rs @ r \<and> (\<forall>q\<in>set rs. 10 \<in> set q) \<longrightarrow>
      grep re (rs @ [r, []]) = concat (map (\<lambda>l. l @ [10]) (filter (match re) (lines_of text'))))"
proof -
  have "grep_file re [] text' = concat (map (\<lambda>l. l @ [10]) (filter (match re) (lines_of text')))"
    if "\<forall>l\<in>set (lines_of text'). length l \<le> 1022"
    using assms that grep_file_eq [of "[]" text' re] by (simp add: printed_def)
  moreover have "grep re (rs @ [r, []]) = concat (map (\<lambda>l. l @ [10]) (filter (match re) (lines_of text')))"
    if "text' = concat rs @ r" "\<forall>q\<in>set rs. 10 \<in> set q" for rs r
    using assms that grep_loop_eq [of "[]" rs r re] by (simp add: grep_def printed_def)
  ultimately show ?thesis by blast
qed

theorem grep_output_witness:
  "grep_file [0x61] [] [0x61, 10, 0x62, 10, 0x63, 0x61, 10, 0x61] = [0x61, 10, 0x63, 0x61, 10] \<and>
   grep [0x61] ([[0x61, 10, 0x62], [10, 0x63, 0x61, 10]] @ [[0x61], []]) = [0x61, 10, 0x63, 0x61, 10]"
proof -
  let ?t = "[0x61, 10, 0x62, 10, 0x63, 0x61, 10, 0x61] :: u8 list"
  have l: "lines_of ?t = [[0x61], [0x62], [0x63, 0x61]]"
    using lines_Cons [of "[0x61]"] lines_Cons [of "[0x62]"] lines_Cons [of "[0x63, 0x61]" "[0x61]"] lines_none [of "[0x61]"] by simp
  have m: "match [0x61] [0x61]" "\<not> match [0x61] [0x62]" "match [0x61] [0x63, 0x61]"
    by (simp_all add: match_def matchhere_last fits_def)
  have z: "0 \<notin> set ?t" by simp
  have "grep_file [0x61] [] ?t = [0x61, 10, 0x63, 0x61, 10]" using grep_output [OF z, of "[0x61]"] l m by simp
  moreover have "grep [0x61] ([[0x61, 10, 0x62], [10, 0x63, 0x61, 10]] @ [[0x61], []]) = [0x61, 10, 0x63, 0x61, 10]"
    using grep_output [OF z, of "[0x61]", THEN conjunct2, rule_format, of "[[0x61, 10, 0x62], [10, 0x63, 0x61, 10]]" "[0x61]"] l m by simp
  ultimately show ?thesis by blast
qed

text \<open>
  C31. \<open>grep\<close> forgets what it has read when a read brings no newline: the bytes it kept and those it got
  are dropped, and it goes on as if they were not there. So a line that arrives in two pieces, of which
  the first is part of that line only, is searched and printed without its beginning.
\<close>

theorem grep_forgets:
  assumes "0 \<notin> set part" "10 \<notin> set part" "r \<noteq> []" "10 \<notin> set r" "0 \<notin> set r"
  shows "grep_loop re part (r # rs) = grep re rs"
  using assms by (simp add: grep_lines_eq lines_none tail_none grep_def Let_def)

theorem grep_forgets_witness: "grep [0x61, 0x62] [[0x61], [0x62, 10], []] = []"
proof -
  have "grep [0x61, 0x62] [[0x61], [0x62, 10], []] = grep [0x61, 0x62] [[0x62, 10], []]"
    using grep_forgets [of "[]" "[0x61]" "[0x61, 0x62]" "[[0x62, 10], []]"] by (simp add: grep_def)
  moreover have "lines_of [0x62, 10] = [[0x62]]" using lines_Cons [of "[0x62]" "[]"] lines_none [of "[]"] by simp
  moreover have "\<not> match [0x61, 0x62] [0x62]" by (simp add: match_def matchhere_last matchhere.simps hd0_def)
  ultimately show ?thesis using grep_loop_last [of "[]" "[0x62, 10]" "[0x61, 0x62]"] by (simp add: grep_def)
qed

end
