(* ===== verification/Sh.thy ===== *)
theory Sh
  imports Ulib
begin

text \<open>
  \<open>sh.c\<close>: reading and parsing a command line. Strings of the parsed command are the parts of the line
  between the two pointers the parser keeps, which \<open>nulterminate\<close> makes into C strings.
\<close>

section \<open>Commands\<close>

datatype cmd =
    Exec "u8 list list"
  | Redir cmd "u8 list" u32 nat
  | Pipe cmd cmd
  | LList cmd cmd
  | Back cmd

abbreviation (input) MAXARGS :: nat where "MAXARGS \<equiv> 10"
abbreviation (input) RD_MODE :: u32 where "RD_MODE \<equiv> 0"
abbreviation (input) WR_MODE :: u32 where "WR_MODE \<equiv> 0x201"

section \<open>Tokens\<close>

definition is_white :: "u8 \<Rightarrow> bool" where
  "is_white c \<longleftrightarrow> strchr [32, 9, 13, 10, 11] c \<noteq> None"

definition is_symbol :: "u8 \<Rightarrow> bool" where
  "is_symbol c \<longleftrightarrow> strchr [0x3C, 0x7C, 0x3E, 0x26, 0x3B, 0x28, 0x29] c \<noteq> None"

datatype token = TEnd | TSym u8 | TAppend | TWord "u8 list"

definition skip_white :: "u8 list \<Rightarrow> u8 list" where
  "skip_white s = dropWhile is_white s"

text \<open>\<open>gettoken\<close>: the token, with the text of a word, and the rest of the line.\<close>

definition gettoken :: "u8 list \<Rightarrow> token \<times> u8 list" where
  "gettoken s = (case skip_white s of
     [] \<Rightarrow> (TEnd, [])
   | c # s' \<Rightarrow>
       if c \<in> {0x7C, 0x28, 0x29, 0x3B, 0x26, 0x3C} then (TSym c, skip_white s')
       else if c = 0x3E then
         (if hd0 s' = 0x3E then (TAppend, skip_white (tl s')) else (TSym c, skip_white s'))
       else let w = takeWhile (\<lambda>c. \<not> is_white c \<and> \<not> is_symbol c) (c # s') in
         (TWord w, skip_white (drop (length w) (c # s'))))"

definition peek :: "u8 list \<Rightarrow> u8 list \<Rightarrow> bool" where
  "peek s toks \<longleftrightarrow> (case skip_white s of [] \<Rightarrow> False | c # _ \<Rightarrow> strchr toks c \<noteq> None)"

section \<open>The parser\<close>

text \<open>\<open>Inl\<close> is a call of the shell's \<open>panic\<close>; \<open>''fuel''\<close> is the model running out of fuel.\<close>

type_synonym 'a parse = "string + ('a \<times> u8 list)"

lemma skip_white_le: "length (skip_white s) \<le> length s"
  by (simp add: skip_white_def length_dropWhile_le)

lemma skip_white_head: "skip_white s = c # s' \<Longrightarrow> \<not> is_white c"
  unfolding skip_white_def by (metis hd_dropWhile list.distinct(1) list.sel(1))

lemma is_symbol_iff: "is_symbol c \<longleftrightarrow> c \<in> {0x7C, 0x28, 0x29, 0x3B, 0x26, 0x3C} \<or> c = 0x3E"
  by (simp add: is_symbol_def disj_ac)

lemma gettoken_Nil: "skip_white s = [] \<Longrightarrow> gettoken s = (TEnd, [])"
  by (simp add: gettoken_def)

lemma gettoken_less:
  assumes g: "gettoken s = (t, r)" and ne: "skip_white s \<noteq> []"
  shows "length r < length s"
proof -
  obtain c s' where c: "skip_white s = c # s'" using ne by (cases "skip_white s") auto
  have l: "length s' < length s" using skip_white_le [of s] c by simp
  have w: "\<not> is_white c" by (rule skip_white_head [OF c])
  show ?thesis
  proof (cases "is_symbol c")
    case True
    then have "r = skip_white s' \<or> r = skip_white (tl s')"
      using g unfolding gettoken_def c is_symbol_iff
      by (cases "c \<in> {0x7C, 0x28, 0x29, 0x3B, 0x26, 0x3C}"; cases "hd0 s' = 0x3E")
        (simp_all only: list.case if_True if_False simp_thms prod.inject)
    then have "length r \<le> length s'" using skip_white_le [of s'] skip_white_le [of "tl s'"] by auto
    then show ?thesis using l by simp
  next
    case False
    let ?w = "takeWhile (\<lambda>c. \<not> is_white c \<and> \<not> is_symbol c) (c # s')"
    have "length r \<le> length (drop (length ?w) (c # s'))"
      using g False skip_white_le [of "drop (length ?w) (c # s')"] unfolding gettoken_def c is_symbol_iff Let_def by simp
    also have "\<dots> \<le> length s'" using False w by simp
    finally show ?thesis using l by simp
  qed
qed

lemma gettoken_le: "gettoken s = (t, r) \<Longrightarrow> length r \<le> length s"
  using gettoken_less [of s t r] gettoken_Nil [of s] by (cases "skip_white s = []") auto

lemma peek_nonempty: "peek s toks \<Longrightarrow> skip_white s \<noteq> []"
  by (auto simp: peek_def split: list.splits)

function parseredirs :: "cmd \<Rightarrow> u8 list \<Rightarrow> cmd parse" where
  "parseredirs cmd s = (if peek s [0x3C, 0x3E] then
     (case gettoken s of (tok, s) \<Rightarrow> (case gettoken s of
        (TWord q, s') \<Rightarrow>
          parseredirs (if tok = TSym 0x3C then Redir cmd q RD_MODE 0 else Redir cmd q WR_MODE 1) s'
      | _ \<Rightarrow> Inl ''missing file for redirection''))
     else Inr (cmd, skip_white s))"
  by pat_completeness auto
termination
proof (relation "measure (\<lambda>(cmd, s). length s)")
  fix cmd s tok s1 t2 s' q
  assume a: "peek s [0x3C, 0x3E]" "(tok, s1) = gettoken s" "(t2, s') = gettoken s1"
  have "length s1 < length s" using gettoken_less [of s tok s1] peek_nonempty [OF a(1)] a by simp
  moreover have "length s' \<le> length s1" using gettoken_le [of s1 t2 s'] a by simp
  ultimately show "((if tok = TSym 0x3C then Redir cmd q RD_MODE 0 else Redir cmd q WR_MODE 1, s'), cmd, s)
      \<in> measure (\<lambda>(cmd, s). length s)" by simp
qed simp

declare parseredirs.simps [simp del]

lemma parseredirs_le: "parseredirs cmd s = Inr (c, r) \<Longrightarrow> length r \<le> length s"
proof (induction cmd s arbitrary: c rule: parseredirs.induct)
  case (1 cmd s)
  show ?case
  proof (cases "peek s [0x3C, 0x3E]")
    case True
    obtain tok s1 where g1: "gettoken s = (tok, s1)" by (cases "gettoken s")
    obtain t2 s2 where g2: "gettoken s1 = (t2, s2)" by (cases "gettoken s1")
    obtain q where q: "t2 = TWord q" using 1(2) True g1 g2 by (subst (asm) parseredirs.simps) (cases t2; simp)
    have "parseredirs (if tok = TSym 0x3C then Redir cmd q RD_MODE 0 else Redir cmd q WR_MODE 1) s2 = Inr (c, r)"
      using 1(2) True g1 g2 q by (subst (asm) parseredirs.simps) simp
    then have "length r \<le> length s2" using 1(1) [OF True g1 [symmetric] g2 [symmetric] q] by blast
    then show ?thesis using gettoken_le [OF g1] gettoken_le [OF g2] by linarith
  next
    case False
    then show ?thesis using 1(2) skip_white_le [of s] by (subst (asm) parseredirs.simps) auto
  qed
qed

text \<open>
  The loop of \<open>parseexec\<close> over arguments and redirections: \<open>args\<close> is what \<open>argv\<close> holds. A redirection wraps
  the command built so far, whose innermost node is the \<open>execcmd\<close> that later arguments still go to; so the
  model keeps the arguments apart and puts them into that node.
\<close>

fun set_args :: "u8 list list \<Rightarrow> cmd \<Rightarrow> cmd" where
  "set_args as (Exec _) = Exec as"
| "set_args as (Redir c f m fd) = Redir (set_args as c) f m fd"
| "set_args as c = c"

function parseargs :: "u8 list list \<Rightarrow> cmd \<Rightarrow> u8 list \<Rightarrow> cmd parse" where
  "parseargs args ret s = (if peek s [0x7C, 0x29, 0x26, 0x3B] then Inr (set_args args ret, skip_white s)
     else (case gettoken s of
         (TEnd, s') \<Rightarrow> Inr (set_args args ret, s')
       | (TWord q, s') \<Rightarrow>
           let args = args @ [q] in
           if length args \<ge> MAXARGS then Inl ''too many args''
           else (case parseredirs ret s' of Inl e \<Rightarrow> Inl e | Inr (ret, s'') \<Rightarrow> parseargs args ret s'')
       | _ \<Rightarrow> Inl ''syntax''))"
  by pat_completeness auto
termination
proof (relation "measure (\<lambda>(args, ret, s). length s)")
  fix args ret s t s' q args' b ret' s''
  assume a: "(t, s') = gettoken s" "t = TWord q" "parseredirs ret s' = Inr b" "(ret', s'') = b"
  have "skip_white s \<noteq> []" using a(1,2) gettoken_Nil [of s] by auto
  then have "length s' < length s" using gettoken_less [of s t s'] a(1) by simp
  moreover have "length s'' \<le> length s'" using parseredirs_le [of ret s' ret' s''] a(3,4) by simp
  ultimately show "((args', ret', s''), args, ret, s) \<in> measure (\<lambda>(args, ret, s). length s)" by simp
qed simp

declare parseargs.simps [simp del]

text \<open>The loop of \<open>parseline\<close> over ampersands.\<close>

function parsebacks :: "cmd \<Rightarrow> u8 list \<Rightarrow> cmd \<times> u8 list" where
  "parsebacks cmd s = (if peek s [0x26] then parsebacks (Back cmd) (snd (gettoken s)) else (cmd, skip_white s))"
  by pat_completeness auto
termination
proof (relation "measure (\<lambda>(cmd, s). length s)")
  fix cmd s assume "peek s [0x26]"
  then show "((Back cmd, snd (gettoken s)), cmd, s) \<in> measure (\<lambda>(cmd, s). length s)"
    using gettoken_less [of s "fst (gettoken s)" "snd (gettoken s)"] peek_nonempty [of s "[0x26]"] by simp
qed simp

declare parsebacks.simps [simp del]

text \<open>The mutually recursive part; every call takes one unit of fuel.\<close>

fun parseline :: "nat \<Rightarrow> u8 list \<Rightarrow> cmd parse"
  and parsepipe :: "nat \<Rightarrow> u8 list \<Rightarrow> cmd parse"
  and parseblock :: "nat \<Rightarrow> u8 list \<Rightarrow> cmd parse"
  and parseexec :: "nat \<Rightarrow> u8 list \<Rightarrow> cmd parse" where
  "parseline 0 s = Inl ''fuel''"
| "parseline (Suc n) s = (case parsepipe n s of Inl e \<Rightarrow> Inl e | Inr (cmd, s) \<Rightarrow>
     (case parsebacks cmd s of (cmd, s) \<Rightarrow>
       if peek s [0x3B] then
         (case parseline n (snd (gettoken s)) of Inl e \<Rightarrow> Inl e | Inr (cmd', s) \<Rightarrow> Inr (LList cmd cmd', s))
       else Inr (cmd, skip_white s)))"
| "parsepipe 0 s = Inl ''fuel''"
| "parsepipe (Suc n) s = (case parseexec n s of Inl e \<Rightarrow> Inl e | Inr (cmd, s) \<Rightarrow>
     if peek s [0x7C] then
       (case parsepipe n (snd (gettoken s)) of Inl e \<Rightarrow> Inl e | Inr (cmd', s) \<Rightarrow> Inr (Pipe cmd cmd', s))
     else Inr (cmd, skip_white s))"
| "parseblock 0 s = Inl ''fuel''"
| "parseblock (Suc n) s = (if \<not> peek s [0x28] then Inl ''parseblock'' else
     (case parseline n (snd (gettoken s)) of Inl e \<Rightarrow> Inl e | Inr (cmd, s) \<Rightarrow>
       if \<not> peek s [0x29] then Inl ''syntax - missing )''
       else parseredirs cmd (snd (gettoken s))))"
| "parseexec 0 s = Inl ''fuel''"
| "parseexec (Suc n) s = (if peek s [0x28] then parseblock n s
     else (case parseredirs (Exec []) s of Inl e \<Rightarrow> Inl e | Inr (ret, s) \<Rightarrow> parseargs [] ret s))"

definition parsecmd :: "u8 list \<Rightarrow> string + cmd" where
  "parsecmd s = (case parseline (4 * length s + 4) s of
     Inl e \<Rightarrow> Inl e
   | Inr (cmd, s) \<Rightarrow> if skip_white s \<noteq> [] then Inl ''syntax'' else Inr cmd)"

section \<open>The main loop\<close>

text \<open>\<open>getcmd\<close>: the next line, or \<open>None\<close> at the end of the input; what is left of the input.\<close>

definition getcmd :: "nat \<Rightarrow> u8 list \<Rightarrow> u8 list option \<times> u8 list" where
  "getcmd nbuf inp = (case gets nbuf inp of (buf, inp') \<Rightarrow> (if hd0 buf = 0 then None else Some buf, inp'))"

text \<open>What \<open>main\<close> does with a line: change directory itself, or run the parsed command in a child.\<close>

datatype action = Chdir "u8 list" | Run "string + cmd"

definition sh_line :: "u8 list \<Rightarrow> action" where
  "sh_line buf = (if take 3 buf = [0x63, 0x64, 0x20] then Chdir (drop 3 (butlast buf)) else Run (parsecmd buf))"

section \<open>The recursion of the parser ends\<close>

lemma parseargs_le: "parseargs args ret s = Inr (c, r) \<Longrightarrow> length r \<le> length s"
proof (induction args ret s rule: parseargs.induct)
  case (1 args ret s)
  show ?case
  proof (cases "peek s [0x7C, 0x29, 0x26, 0x3B]")
    case True
    then show ?thesis using 1(2) skip_white_le [of s] by (subst (asm) parseargs.simps) auto
  next
    case False
    obtain t s' where g: "gettoken s = (t, s')" by (cases "gettoken s")
    show ?thesis
    proof (cases t)
      case TEnd
      then show ?thesis using 1(2) False g gettoken_le [OF g] by (subst (asm) parseargs.simps) simp
    next
      case (TWord q)
      have p: "length (args @ [q]) < 10" and "parseredirs ret s' \<noteq> Inl e" for e
        using 1(2) False g TWord by (subst (asm) parseargs.simps; force simp: Let_def split: if_splits)+
      then obtain ret' s'' where p2: "parseredirs ret s' = Inr (ret', s'')" by (cases "parseredirs ret s'") auto
      have "parseargs (args @ [q]) ret' s'' = Inr (c, r)"
        using 1(2) False g TWord p p2 by (subst (asm) parseargs.simps) simp
      then have "length r \<le> length s''" using 1(1) [OF False g [symmetric] TWord refl _ p2 refl] p by simp
      then show ?thesis using parseredirs_le [OF p2] gettoken_le [OF g] by linarith
    qed (use 1(2) False g in \<open>subst (asm) parseargs.simps, simp\<close>)+
  qed
qed

lemma parsebacks_le: "length (snd (parsebacks cmd s)) \<le> length s"
proof (induction cmd s rule: parsebacks.induct)
  case (1 cmd s)
  show ?case
  proof (cases "peek s [0x26]")
    case True
    then show ?thesis using 1 gettoken_le [of s "fst (gettoken s)" "snd (gettoken s)"]
      by (subst parsebacks.simps) simp
  next
    case False
    then show ?thesis using skip_white_le [of s] by (subst parsebacks.simps) simp
  qed
qed

lemma snd_gettoken_le: "length (snd (gettoken s)) \<le> length s"
  using gettoken_le [of s "fst (gettoken s)" "snd (gettoken s)"] by simp

lemma snd_gettoken_less: "peek s toks \<Longrightarrow> length (snd (gettoken s)) < length s"
  using gettoken_less [of s "fst (gettoken s)" "snd (gettoken s)"] peek_nonempty [of s toks] by simp

lemma parse_le:
  "parseline n s = Inr (c, r) \<Longrightarrow> length r \<le> length s"
  "parsepipe n s = Inr (c, r) \<Longrightarrow> length r \<le> length s"
  "parseblock n s = Inr (c, r) \<Longrightarrow> length r \<le> length s"
  "parseexec n s = Inr (c, r) \<Longrightarrow> length r \<le> length s"
proof (induction n arbitrary: s c r)
  case (Suc n)
  {
    case 1
    then obtain c1 s1 where p: "parsepipe n s = Inr (c1, s1)" by (cases "parsepipe n s") auto
    obtain c2 s2 where b: "parsebacks c1 s1 = (c2, s2)" by (cases "parsebacks c1 s1")
    have l: "length s2 \<le> length s" using Suc(2) [OF p] parsebacks_le [of c1 s1] b by simp
    show ?case
    proof (cases "peek s2 [0x3B]")
      case True
      then obtain c3 s3 where q: "parseline n (snd (gettoken s2)) = Inr (c3, s3)"
        using 1 p b by (cases "parseline n (snd (gettoken s2))") auto
      then have "r = s3" using 1 p b True by simp
      then show ?thesis using Suc(1) [OF q] snd_gettoken_le [of s2] l by simp
    next
      case False
      then show ?thesis using 1 p b skip_white_le [of s2] l by auto
    qed
  next
    case 2
    then obtain c1 s1 where p: "parseexec n s = Inr (c1, s1)" by (cases "parseexec n s") auto
    have l: "length s1 \<le> length s" using Suc(4) [OF p] .
    show ?case
    proof (cases "peek s1 [0x7C]")
      case True
      then obtain c3 s3 where q: "parsepipe n (snd (gettoken s1)) = Inr (c3, s3)"
        using 2 p by (cases "parsepipe n (snd (gettoken s1))") auto
      then have "r = s3" using 2 p True by simp
      then show ?thesis using Suc(2) [OF q] snd_gettoken_le [of s1] l by simp
    next
      case False
      then show ?thesis using 2 p skip_white_le [of s1] l by auto
    qed
  next
    case 3
    then have pk: "peek s [0x28]" by (auto split: if_splits)
    obtain c1 s1 where p: "parseline n (snd (gettoken s)) = Inr (c1, s1)"
      using 3 pk by (cases "parseline n (snd (gettoken s))") auto
    have "parseredirs c1 (snd (gettoken s1)) = Inr (c, r)" using 3 pk p by (auto split: if_splits)
    from parseredirs_le [OF this] show ?case
      using Suc(1) [OF p] snd_gettoken_le [of s] snd_gettoken_le [of s1] by linarith
  next
    case 4
    show ?case
    proof (cases "peek s [0x28]")
      case True
      then show ?thesis using 4 Suc(3) by simp
    next
      case False
      then obtain c1 s1 where p: "parseredirs (Exec []) s = Inr (c1, s1)"
        using 4 by (cases "parseredirs (Exec []) s") auto
      then have "parseargs [] c1 s1 = Inr (c, r)" using 4 False by simp
      from parseargs_le [OF this] show ?thesis using parseredirs_le [OF p] by linarith
    qed
  }
qed simp_all

lemma parseredirs_fuel: "parseredirs cmd s \<noteq> Inl ''fuel''"
proof (induction cmd s rule: parseredirs.induct)
  case (1 cmd s)
  obtain tok s1 where g1: "gettoken s = (tok, s1)" by (cases "gettoken s")
  obtain t2 s2 where g2: "gettoken s1 = (t2, s2)" by (cases "gettoken s1")
  show ?case
  proof (cases "peek s [0x3C, 0x3E]")
    case True
    then show ?thesis using 1 [OF True g1 [symmetric] g2 [symmetric]] g1 g2
      by (subst parseredirs.simps) (cases t2; simp)
  qed (subst parseredirs.simps, simp)
qed

lemma parseargs_fuel: "parseargs args ret s \<noteq> Inl ''fuel''"
proof (induction args ret s rule: parseargs.induct)
  case (1 args ret s)
  obtain t s' where g: "gettoken s = (t, s')" by (cases "gettoken s")
  show ?case
  proof (cases "peek s [0x7C, 0x29, 0x26, 0x3B] \<or> \<not> (\<exists>q. t = TWord q)")
    case True
    then show ?thesis using g by (subst parseargs.simps) (cases t; auto)
  next
    case False
    then obtain q where q: "t = TWord q" "\<not> peek s [0x7C, 0x29, 0x26, 0x3B]" by blast
    show ?thesis
    proof (cases "parseredirs ret s'")
      case (Inl e)
      then show ?thesis using parseredirs_fuel [of ret s'] q g by (subst parseargs.simps) (simp add: Let_def)
    next
      case (Inr b)
      obtain ret' s'' where b: "b = (ret', s'')" by (cases b)
      have "10 \<le> length (args @ [q]) \<or> parseargs (args @ [q]) ret' s'' \<noteq> Inl ''fuel''"
        using 1 [OF q(2) g [symmetric] q(1) refl _ Inr b [symmetric]] by blast
      then show ?thesis using q g Inr b by (subst parseargs.simps) (auto simp: Let_def)
    qed
  qed
qed

lemma parse_fuel:
  "4 * length s + 4 \<le> n \<Longrightarrow> n \<le> m \<Longrightarrow> parseline m s = parseline n s \<and> parseline n s \<noteq> Inl ''fuel''"
  "4 * length s + 3 \<le> n \<Longrightarrow> n \<le> m \<Longrightarrow> parsepipe m s = parsepipe n s \<and> parsepipe n s \<noteq> Inl ''fuel''"
  "4 * length s + 1 \<le> n \<Longrightarrow> n \<le> m \<Longrightarrow> parseblock m s = parseblock n s \<and> parseblock n s \<noteq> Inl ''fuel''"
  "4 * length s + 2 \<le> n \<Longrightarrow> n \<le> m \<Longrightarrow> parseexec m s = parseexec n s \<and> parseexec n s \<noteq> Inl ''fuel''"
proof (induction n arbitrary: m s)
  case (Suc n)
  {
    case 1
    then obtain m' where m: "m = Suc m'" "n \<le> m'" by (cases m) auto
    have p: "parsepipe m' s = parsepipe n s" "parsepipe n s \<noteq> Inl ''fuel''" using Suc(2) [of s m'] 1 m by simp_all
    show ?case
    proof (cases "parsepipe n s")
      case (Inr b)
      obtain c1 s1 where b: "b = (c1, s1)" by (cases b)
      obtain c2 s2 where k: "parsebacks c1 s1 = (c2, s2)" by (cases "parsebacks c1 s1")
      have l: "length s2 \<le> length s" using parse_le(2) [of n s c1 s1] Inr b parsebacks_le [of c1 s1] k by simp
      show ?thesis
      proof (cases "peek s2 [0x3B]")
        case True
        have "4 * length (snd (gettoken s2)) + 4 \<le> n" using snd_gettoken_less [OF True] l 1 by simp
        from Suc(1) [OF this m(2)] show ?thesis using m p Inr b k True by (auto split: sum.splits prod.splits)
      qed (use m p Inr b k in simp)
    qed (use m p in simp)
  next
    case 2
    then obtain m' where m: "m = Suc m'" "n \<le> m'" by (cases m) auto
    have p: "parseexec m' s = parseexec n s" "parseexec n s \<noteq> Inl ''fuel''" using Suc(4) [of s m'] 2 m by simp_all
    show ?case
    proof (cases "parseexec n s")
      case (Inr b)
      obtain c1 s1 where b: "b = (c1, s1)" by (cases b)
      have l: "length s1 \<le> length s" using parse_le(4) [of n s c1 s1] Inr b by simp
      show ?thesis
      proof (cases "peek s1 [0x7C]")
        case True
        have "4 * length (snd (gettoken s1)) + 3 \<le> n" using snd_gettoken_less [OF True] l 2 by simp
        from Suc(2) [OF this m(2)] show ?thesis using m p Inr b True by (auto split: sum.splits prod.splits)
      qed (use m p Inr b in simp)
    qed (use m p in simp)
  next
    case 3
    then obtain m' where m: "m = Suc m'" "n \<le> m'" by (cases m) auto
    show ?case
    proof (cases "peek s [0x28]")
      case True
      have "4 * length (snd (gettoken s)) + 4 \<le> n" using snd_gettoken_less [OF True] 3 by simp
      from Suc(1) [OF this m(2)] show ?thesis using m True parseredirs_fuel by (auto split: sum.splits prod.splits)
    qed (use m in simp)
  next
    case 4
    then obtain m' where m: "m = Suc m'" "n \<le> m'" by (cases m) auto
    show ?case
      using Suc(3) [of s m'] 4 m parseredirs_fuel [of "Exec []" s] parseargs_fuel
      by (auto split: sum.splits prod.splits)
  }
qed simp_all

text \<open>
  C28. The parser of the shell ends on every line: a recursion depth of four times the length of the
  line, plus four, is enough. With it or with any greater depth \<open>parseline\<close> gives the same result and
  never runs out.
\<close>

theorem parser_terminates:
  "parseline (4 * length s + 4 + k) s = parseline (4 * length s + 4) s \<and>
   parseline (4 * length s + 4) s \<noteq> Inl ''fuel'' \<and> parsecmd s \<noteq> Inl ''fuel''"
proof -
  have "parseline (4 * length s + 4 + k) s = parseline (4 * length s + 4) s"
    and n: "parseline (4 * length s + 4) s \<noteq> Inl ''fuel''"
    using parse_fuel(1) [of s "4 * length s + 4" "4 * length s + 4 + k"] by simp_all
  moreover have "parsecmd s \<noteq> Inl ''fuel''"
    using n unfolding parsecmd_def by (auto split: sum.splits prod.splits if_splits)
  ultimately show ?thesis by blast
qed

section \<open>A command written as a line\<close>

text \<open>
  \<open>text_of\<close> writes a command the way a user would type it, with a block in parentheses wherever the
  grammar needs one. \<open>wf_cmd\<close>: the commands the shell can represent: at most nine arguments, words
  without white space and symbols, and the two kinds of redirection.
\<close>

definition word_char :: "u8 \<Rightarrow> bool" where
  "word_char c \<longleftrightarrow> \<not> is_white c \<and> \<not> is_symbol c"

definition is_word :: "u8 list \<Rightarrow> bool" where
  "is_word w \<longleftrightarrow> w \<noteq> [] \<and> (\<forall>c\<in>set w. word_char c)"

fun wf_cmd :: "cmd \<Rightarrow> bool" where
  "wf_cmd (Exec as) = (length as < MAXARGS \<and> (\<forall>a\<in>set as. is_word a))"
| "wf_cmd (Redir c f m fd) = (wf_cmd c \<and> is_word f \<and> ((m, fd) = (RD_MODE, 0) \<or> (m, fd) = (WR_MODE, 1)))"
| "wf_cmd (Pipe a b) = (wf_cmd a \<and> wf_cmd b)"
| "wf_cmd (LList a b) = (wf_cmd a \<and> wf_cmd b)"
| "wf_cmd (Back a) = wf_cmd a"

fun exec_level :: "cmd \<Rightarrow> bool" where
  "exec_level (Exec _) = True"
| "exec_level (Redir _ _ _ _) = True"
| "exec_level _ = False"

definition paren :: "cmd \<Rightarrow> u8 list \<Rightarrow> u8 list" where
  "paren c t = (if exec_level c then t else [0x28] @ t @ [0x29])"

definition redir_text :: "u8 list \<Rightarrow> nat \<Rightarrow> u8 list" where
  "redir_text f fd = (if fd = 0 then 0x3C else 0x3E) # f"

fun text_of :: "cmd \<Rightarrow> u8 list" where
  "text_of (Exec as) = concat (map (\<lambda>a. a @ [32]) as)"
| "text_of (Redir c f m fd) = paren c (text_of c) @ redir_text f fd"
| "text_of (Pipe a b) = paren a (text_of a) @ [0x7C] @ paren b (text_of b)"
| "text_of (LList a b) = paren a (text_of a) @ [0x3B] @ paren b (text_of b)"
| "text_of (Back a) = paren a (text_of a) @ [0x26]"

abbreviation atom :: "cmd \<Rightarrow> u8 list" where
  "atom c \<equiv> paren c (text_of c)"

text \<open>What follows a command: nothing, or a symbol that ends it.\<close>

definition stop :: "u8 list \<Rightarrow> bool" where
  "stop r \<longleftrightarrow> r = [] \<or> hd r \<in> {0x7C, 0x29, 0x26, 0x3B}"

definition no_word :: "u8 list \<Rightarrow> bool" where
  "no_word r \<longleftrightarrow> r = [] \<or> \<not> word_char (hd r)"

subsection \<open>Tokens\<close>

lemma word_char_iff: "word_char c \<longleftrightarrow> c \<notin> {32, 9, 13, 10, 11} \<and> c \<notin> {0x7C, 0x28, 0x29, 0x3B, 0x26, 0x3C, 0x3E}"
  by (auto simp: word_char_def is_symbol_iff is_white_def)

lemma is_white_iff: "is_white c \<longleftrightarrow> c \<in> {32, 9, 13, 10, 11}"
  by (auto simp: is_white_def)

lemma skip_white_Cons: "skip_white (c # s) = (if is_white c then skip_white s else c # s)"
  by (simp add: skip_white_def)

lemma skip_white_Nil [simp]: "skip_white [] = []"
  by (simp add: skip_white_def)

lemma skip_space [simp]: "skip_white (32 # s) = skip_white s"
  by (simp add: skip_white_Cons is_white_iff)

lemma skip_stop: "stop r \<Longrightarrow> skip_white r = r"
  by (cases r) (auto simp: stop_def skip_white_Cons is_white_iff)

lemma skip_word: "is_word w \<Longrightarrow> skip_white (w @ s) = w @ s"
  by (cases w) (auto simp: is_word_def skip_white_Cons word_char_def)

lemma peek_Cons: "\<not> is_white c \<Longrightarrow> peek (c # s) toks \<longleftrightarrow> strchr toks c \<noteq> None"
  by (simp add: peek_def skip_white_Cons)

lemma peek_Nil [simp]: "\<not> peek [] toks"
  by (simp add: peek_def)

lemma gettoken_sym:
  "c \<in> {0x7C, 0x28, 0x29, 0x3B, 0x26, 0x3C} \<Longrightarrow> gettoken (c # s) = (TSym c, skip_white s)"
  by (auto simp: gettoken_def skip_white_Cons is_white_iff)

lemma gettoken_gt: "is_word f \<Longrightarrow> gettoken (0x3E # f @ s) = (TSym 0x3E, f @ s)"
  by (cases f) (auto simp: gettoken_def skip_white_Cons is_white_iff is_word_def word_char_iff)

lemma takeWhile_word:
  "is_word w \<Longrightarrow> no_word s \<Longrightarrow> takeWhile (\<lambda>c. \<not> is_white c \<and> \<not> is_symbol c) (w @ s) = w"
  by (cases s) (simp_all add: is_word_def no_word_def word_char_def takeWhile_append2 takeWhile_eq_all_conv)

lemma gettoken_word:
  assumes w: "is_word w" and n: "no_word s"
  shows "gettoken (w @ s) = (TWord w, skip_white s)"
proof -
  obtain c w' where c: "w = c # w'" "word_char c" using w by (cases w) (auto simp: is_word_def)
  have t: "takeWhile (\<lambda>c. \<not> is_white c \<and> \<not> is_symbol c) (c # w' @ s) = c # w'"
    using takeWhile_word [OF w n] c by simp
  have s: "skip_white (c # w' @ s) = c # w' @ s" using skip_word [OF w, of s] c by simp
  show ?thesis using c(2) unfolding gettoken_def c(1) append_Cons s list.case t Let_def
    by (simp add: word_char_iff)
qed

subsection \<open>Redirections and arguments\<close>

fun wrap :: "cmd \<Rightarrow> (u8 list \<times> u32 \<times> nat) list \<Rightarrow> cmd" where
  "wrap c [] = c"
| "wrap c ((f, m, fd) # rs) = wrap (Redir c f m fd) rs"

fun rtext :: "(u8 list \<times> u32 \<times> nat) list \<Rightarrow> u8 list" where
  "rtext [] = []"
| "rtext ((f, m, fd) # rs) = redir_text f fd @ rtext rs"

definition ok_redir :: "u8 list \<times> u32 \<times> nat \<Rightarrow> bool" where
  "ok_redir x \<longleftrightarrow> (case x of (f, m, fd) \<Rightarrow> is_word f \<and> ((m, fd) = (RD_MODE, 0) \<or> (m, fd) = (WR_MODE, 1)))"

fun base :: "cmd \<Rightarrow> cmd" where
  "base (Redir c f m fd) = base c"
| "base c = c"

lemma wrap_snoc: "wrap c (rs @ [(f, m, fd)]) = Redir (wrap c rs) f m fd"
  by (induction c rs rule: wrap.induct) simp_all

lemma rtext_snoc: "rtext (rs @ [(f, m, fd)]) = rtext rs @ redir_text f fd"
  by (induction rs rule: rtext.induct) simp_all

lemma wrap_base:
  "wf_cmd c \<Longrightarrow> \<exists>rs. c = wrap (base c) rs \<and> atom c = atom (base c) @ rtext rs \<and> (\<forall>x\<in>set rs. ok_redir x)"
proof (induction c)
  case (Redir c f m fd)
  then obtain rs where rs: "c = wrap (base c) rs" "atom c = atom (base c) @ rtext rs" "\<forall>x\<in>set rs. ok_redir x"
    by auto
  have "Redir c f m fd = wrap (base c) (rs @ [(f, m, fd)])"
    "atom (Redir c f m fd) = atom (base c) @ rtext (rs @ [(f, m, fd)])"
    "\<forall>x\<in>set (rs @ [(f, m, fd)]). ok_redir x"
    using rs Redir.prems by (simp_all add: wrap_snoc rtext_snoc paren_def ok_redir_def)
  then show ?case by (metis base.simps(1))
qed (auto intro: exI [of _ "[]"])

lemma set_args_wrap: "set_args as (wrap (Exec xs) rs) = wrap (Exec as) rs"
proof -
  have "set_args as (wrap c rs) = wrap (set_args as c) rs" for c
    by (induction c rs rule: wrap.induct) simp_all
  then show ?thesis by simp
qed

lemma redir_head:
  assumes "\<forall>x\<in>set rs. ok_redir x" "stop r"
  shows "skip_white (rtext rs @ r) = rtext rs @ r" "no_word (rtext rs @ r)"
    "\<not> peek (rtext rs @ r) [0x28]"
proof -
  consider "rs = []" | f m fd rs' where "rs = (f, m, fd) # rs'" by (cases rs) auto
  then have "skip_white (rtext rs @ r) = rtext rs @ r \<and> no_word (rtext rs @ r) \<and> \<not> peek (rtext rs @ r) [0x28]"
  proof cases
    case 1
    then show ?thesis using assms(2)
      by (cases r) (auto simp: stop_def skip_white_Cons is_white_iff no_word_def word_char_iff peek_Cons)
  qed (auto simp: redir_text_def skip_white_Cons is_white_iff no_word_def word_char_iff peek_Cons)
  then show "skip_white (rtext rs @ r) = rtext rs @ r" "no_word (rtext rs @ r)" "\<not> peek (rtext rs @ r) [0x28]"
    by simp_all
qed

lemma parseredirs_rtext:
  assumes "\<forall>x\<in>set rs. ok_redir x" "stop r"
  shows "parseredirs c (rtext rs @ r) = Inr (wrap c rs, r)"
  using assms(1)
proof (induction rs arbitrary: c)
  case Nil
  have "\<not> peek r [0x3C, 0x3E]"
    using assms(2) by (cases r) (auto simp: stop_def peek_Cons is_white_iff)
  then show ?case by (subst parseredirs.simps) (simp add: skip_stop [OF assms(2)])
next
  case (Cons x rs)
  obtain f m fd where x: "x = (f, m, fd)" by (cases x)
  have f: "is_word f" and m: "(m, fd) = (RD_MODE, 0) \<or> (m, fd) = (WR_MODE, 1)"
    using Cons.prems x by (auto simp: ok_redir_def)
  have rest: "gettoken (f @ rtext rs @ r) = (TWord f, rtext rs @ r)"
    using gettoken_word [OF f, of "rtext rs @ r"] redir_head [of rs r] Cons.prems assms(2) by simp
  have ih: "parseredirs c' (rtext rs @ r) = Inr (wrap c' rs, r)" for c' using Cons by simp
  show ?case using m
  proof
    assume "(m, fd) = (RD_MODE, 0)"
    then show ?thesis using rest ih skip_word [OF f] x
      by (subst parseredirs.simps) (simp add: redir_text_def peek_Cons is_white_iff gettoken_sym)
  next
    assume "(m, fd) = (WR_MODE, 1)"
    then show ?thesis using rest ih x gettoken_gt [OF f]
      by (subst parseredirs.simps) (simp add: redir_text_def peek_Cons is_white_iff)
  qed
qed

lemma word_head:
  assumes "is_word w"
  shows "\<not> peek (w @ s) [0x28]" "\<not> peek (w @ s) [0x3C, 0x3E]" "\<not> peek (w @ s) [0x7C, 0x29, 0x26, 0x3B]"
  using assms by (cases w; auto simp: is_word_def word_char_iff is_white_iff peek_Cons)+

lemma parseargs_stop: "stop r \<Longrightarrow> parseargs args ret r = Inr (set_args args ret, r)"
  by (cases r; subst parseargs.simps)
    (auto simp: stop_def peek_Cons is_white_iff skip_white_Cons gettoken_Nil)

lemma parseargs_words:
  assumes "as \<noteq> []" "\<forall>a\<in>set as. is_word a" "length args + length as < MAXARGS"
    and r: "\<forall>x\<in>set rs. ok_redir x" "stop r"
  shows "parseargs args ret (text_of (Exec as) @ rtext rs @ r) = Inr (set_args (args @ as) (wrap ret rs), r)"
  using assms(1-3)
proof (induction as arbitrary: args)
  case (Cons a as)
  let ?rest = "text_of (Exec as) @ rtext rs @ r"
  have a: "is_word a" using Cons.prems by simp
  have sp: "no_word (32 # ?rest)" by (simp add: no_word_def word_char_iff)
  have sk: "skip_white ?rest = ?rest"
  proof (cases as)
    case Nil
    then show ?thesis using redir_head [OF r] by simp
  next
    case (Cons b bs)
    then show ?thesis using skip_word [of b] Cons.prems by simp
  qed
  have g: "gettoken (a @ 32 # ?rest) = (TWord a, ?rest)" using gettoken_word [OF a sp] sk by simp
  have "parseargs args ret (text_of (Exec (a # as)) @ rtext rs @ r) = parseargs args ret (a @ 32 # ?rest)" by simp
  also have "\<dots> = (case parseredirs ret ?rest of Inl e \<Rightarrow> Inl e | Inr (ret, s) \<Rightarrow> parseargs (args @ [a]) ret s)"
    using word_head(3) [OF a] g Cons.prems(3) by (subst parseargs.simps) (simp add: Let_def)
  also have "\<dots> = Inr (set_args (args @ a # as) (wrap ret rs), r)"
  proof (cases "as = []")
    case True
    then show ?thesis using parseredirs_rtext [OF r] parseargs_stop [OF r(2)] by simp
  next
    case False
    then obtain b bs where b: "as = b # bs" by (cases as) auto
    then have "parseredirs ret ?rest = Inr (ret, ?rest)"
      using word_head(2) [of b] sk Cons.prems by (subst parseredirs.simps) simp
    then show ?thesis using Cons.IH [of "args @ [a]"] Cons.prems False by simp
  qed
  finally show ?case .
qed simp

lemma parseexec_words:
  assumes "wf_cmd (Exec as)" and r: "\<forall>x\<in>set rs. ok_redir x" "stop r"
  shows "parseexec (Suc n) (text_of (Exec as) @ rtext rs @ r) = Inr (wrap (Exec as) rs, r)"
proof (cases as)
  case Nil
  then show ?thesis
    using redir_head [OF r] parseredirs_rtext [OF r] parseargs_stop [OF r(2)] set_args_wrap by simp
next
  case (Cons a as')
  let ?s = "text_of (Exec as) @ rtext rs @ r"
  have a: "is_word a" using assms(1) Cons by simp
  have "parseredirs (Exec []) ?s = Inr (Exec [], ?s)"
    using word_head(2) [OF a] skip_word [OF a] Cons by (subst parseredirs.simps) simp
  moreover have "\<not> peek ?s [0x28]" using word_head(1) [OF a] Cons by simp
  moreover have "parseargs [] (Exec []) ?s = Inr (wrap (Exec as) rs, r)"
    using parseargs_words [of as "[]" rs r "Exec []"] assms Cons by (simp add: set_args_wrap)
  ultimately show ?thesis by simp
qed

subsection \<open>Blocks and lines\<close>

lemma base_cases: "(\<exists>as. base c = Exec as) \<or> \<not> exec_level (base c)"
  by (induction c) simp_all

lemma wf_base: "wf_cmd c \<Longrightarrow> wf_cmd (base c)"
  by (induction c) simp_all

lemma size_base: "size (base c) \<le> size c"
  by (induction c) simp_all

lemma skip_atom:
  assumes "wf_cmd c" "stop r"
  shows "skip_white (atom c @ r) = atom c @ r"
proof -
  obtain rs where rs: "atom c = atom (base c) @ rtext rs" "\<forall>x\<in>set rs. ok_redir x"
    using wrap_base [OF assms(1)] by blast
  show ?thesis
  proof (cases "exec_level (base c)")
    case True
    then obtain as where as: "base c = Exec as" using base_cases [of c] by blast
    show ?thesis
    proof (cases as)
      case Nil
      then show ?thesis using rs as redir_head(1) [OF rs(2) assms(2)] by (simp add: paren_def)
    next
      case (Cons a as')
      then have "is_word a" using wf_base [OF assms(1)] as by simp
      then show ?thesis using rs as Cons skip_word [of a] by (simp add: paren_def)
    qed
  next
    case False
    then show ?thesis using rs by (simp add: paren_def skip_white_Cons is_white_iff)
  qed
qed

definition parses_line :: "cmd \<Rightarrow> bool" where
  "parses_line c \<longleftrightarrow> (\<forall>n r. (r = [] \<or> hd r = 0x29) \<longrightarrow> 4 * length (text_of c @ r) + 4 \<le> n \<longrightarrow>
     parseline n (text_of c @ r) = Inr (c, r))"

lemma skip_text:
  assumes "wf_cmd c" "stop r"
  shows "skip_white (text_of c @ r) = text_of c @ r"
proof (cases c)
  case (Pipe a b)
  then show ?thesis using assms skip_atom [of a "[0x7C] @ atom b @ r"] by (simp add: stop_def)
next
  case (LList a b)
  then show ?thesis using assms skip_atom [of a "[0x3B] @ atom b @ r"] by (simp add: stop_def)
next
  case (Back a)
  then show ?thesis using assms skip_atom [of a "[0x26] @ r"] by (simp add: stop_def)
qed (use skip_atom [OF assms] in \<open>simp_all add: paren_def\<close>)

lemma parseexec_atom:
  assumes wf: "wf_cmd c" and r: "stop r" and n: "4 * length (atom c @ r) + 2 \<le> n"
    and line: "\<not> exec_level (base c) \<Longrightarrow> parses_line (base c)"
  shows "parseexec n (atom c @ r) = Inr (c, r)"
proof -
  obtain rs where rs: "c = wrap (base c) rs" "atom c = atom (base c) @ rtext rs" "\<forall>x\<in>set rs. ok_redir x"
    using wrap_base [OF wf] by blast
  obtain k where k: "n = Suc k" using n by (cases n) auto
  show ?thesis
  proof (cases "exec_level (base c)")
    case True
    then obtain as where as: "base c = Exec as" using base_cases [of c] by blast
    then show ?thesis using parseexec_words [of as rs r k] wf_base [OF wf] rs r k by (simp add: paren_def)
  next
    case False
    let ?t = "text_of (base c)" and ?r = "0x29 # rtext rs @ r"
    have s: "atom c @ r = 0x28 # ?t @ ?r" using rs(2) False by (simp add: paren_def)
    then obtain j where j: "k = Suc j" "4 * length (?t @ ?r) + 4 \<le> j" using n k by (cases k) auto
    have l: "parseline j (?t @ ?r) = Inr (base c, ?r)" using line [OF False] j unfolding parses_line_def by simp
    have sk: "skip_white (?t @ ?r) = ?t @ ?r" using skip_text [OF wf_base [OF wf], of ?r] by (simp add: stop_def)
    have pk: "peek (0x28 # ?t @ ?r) [0x28]" "peek ?r [0x29]" by (simp_all add: peek_Cons is_white_iff)
    have g: "snd (gettoken (0x28 # ?t @ ?r)) = ?t @ ?r" "snd (gettoken ?r) = rtext rs @ r"
      using sk redir_head(1) [OF rs(3) r] by (simp_all add: gettoken_sym)
    have "parseexec n (atom c @ r) = parseblock k (0x28 # ?t @ ?r)" unfolding s k using pk(1) by simp
    also have "\<dots> = parseredirs (base c) (rtext rs @ r)" unfolding j using pk l g by simp
    finally show ?thesis using parseredirs_rtext [OF rs(3) r] rs(1) by simp
  qed
qed

lemma parsepipe_atom:
  assumes "parseexec n s = Inr (c, r)" "stop r" "r = [] \<or> hd r \<noteq> 0x7C"
  shows "parsepipe (Suc n) s = Inr (c, r)"
proof -
  have "\<not> peek r [0x7C]" using assms(2,3) by (cases r) (auto simp: stop_def peek_Cons is_white_iff)
  then show ?thesis using assms by (simp add: skip_stop)
qed

lemma parsebacks_none: "stop r \<Longrightarrow> r = [] \<or> hd r \<noteq> 0x26 \<Longrightarrow> parsebacks c r = (c, r)"
  by (cases r; subst parsebacks.simps) (auto simp: stop_def peek_Cons is_white_iff skip_white_Cons)

lemma parseline_end:
  assumes "parsepipe n s = Inr (c, r)" "r = [] \<or> hd r = 0x29"
  shows "parseline (Suc n) s = Inr (c, r)"
proof -
  have st: "stop r" using assms(2) by (auto simp: stop_def)
  have "parsebacks c r = (c, r)" by (rule parsebacks_none [OF st]) (use assms(2) in auto)
  moreover have "\<not> peek r [0x3B]" using assms(2) by (cases r) (auto simp: peek_Cons is_white_iff)
  ultimately show ?thesis using assms st by (simp add: skip_stop)
qed

lemma atom_line:
  assumes e: "parseexec n s = Inr (c, r)" and r: "r = [] \<or> hd r = 0x29"
  shows "parseline (Suc (Suc n)) s = Inr (c, r)"
proof -
  have st: "stop r" "r = [] \<or> hd r \<noteq> 0x7C" using r by (auto simp: stop_def)
  show ?thesis by (rule parseline_end [OF parsepipe_atom [OF e st] r])
qed

lemma line_Pipe:
  assumes a: "parseexec (Suc k) (atom a @ 0x7C # atom b @ r) = Inr (a, 0x7C # atom b @ r)"
    and b: "parseexec k (atom b @ r) = Inr (b, r)" and wf: "wf_cmd b" and r: "r = [] \<or> hd r = 0x29"
  shows "parseline (Suc (Suc (Suc k))) (text_of (Pipe a b) @ r) = Inr (Pipe a b, r)"
proof -
  let ?r = "0x7C # atom b @ r"
  have st: "stop r" "r = [] \<or> hd r \<noteq> 0x7C" using r by (auto simp: stop_def)
  have "parsepipe (Suc k) (atom b @ r) = Inr (b, r)" by (rule parsepipe_atom [OF b st])
  moreover have "peek ?r [0x7C]" "snd (gettoken ?r) = atom b @ r"
    using skip_atom [OF wf st(1)] by (simp_all add: peek_Cons is_white_iff gettoken_sym)
  ultimately have "parsepipe (Suc (Suc k)) (text_of (Pipe a b) @ r) = Inr (Pipe a b, r)" using a by simp
  from parseline_end [OF this r] show ?thesis .
qed

lemma line_LList:
  assumes a: "parseexec (Suc k) (atom a @ 0x3B # atom b @ r) = Inr (a, 0x3B # atom b @ r)"
    and b: "parseexec k (atom b @ r) = Inr (b, r)" and wf: "wf_cmd b" and r: "r = [] \<or> hd r = 0x29"
  shows "parseline (Suc (Suc (Suc k))) (text_of (LList a b) @ r) = Inr (LList a b, r)"
proof -
  let ?r = "0x3B # atom b @ r"
  have st: "stop r" using r by (auto simp: stop_def)
  have "parsepipe (Suc (Suc k)) (atom a @ ?r) = Inr (a, ?r)" by (rule parsepipe_atom [OF a]) (simp_all add: stop_def)
  moreover have "parsebacks a ?r = (a, ?r)" by (rule parsebacks_none) (simp_all add: stop_def)
  moreover have "peek ?r [0x3B]" "snd (gettoken ?r) = atom b @ r"
    using skip_atom [OF wf st] by (simp_all add: peek_Cons is_white_iff gettoken_sym)
  ultimately show ?thesis using atom_line [OF b r] by simp
qed

lemma line_Back:
  assumes a: "parseexec k (atom a @ 0x26 # r) = Inr (a, 0x26 # r)" and r: "r = [] \<or> hd r = 0x29"
  shows "parseline (Suc (Suc k)) (text_of (Back a) @ r) = Inr (Back a, r)"
proof -
  have st: "stop r" using r by (auto simp: stop_def)
  have "parsepipe (Suc k) (atom a @ 0x26 # r) = Inr (a, 0x26 # r)" by (rule parsepipe_atom [OF a]) (simp_all add: stop_def)
  moreover have "parsebacks (Back a) r = (Back a, r)" by (rule parsebacks_none [OF st]) (use r in auto)
  then have "parsebacks a (0x26 # r) = (Back a, r)" using skip_stop [OF st]
    by (subst parsebacks.simps) (simp add: peek_Cons is_white_iff gettoken_sym)
  moreover have "\<not> peek r [0x3B]" using r by (cases r) (auto simp: peek_Cons is_white_iff)
  ultimately show ?thesis using skip_stop [OF st] by simp
qed

lemma line_of_text: "wf_cmd c \<Longrightarrow> parses_line c"
proof (induction "size c" arbitrary: c rule: less_induct)
  case less
  have sub: "parseexec n (atom d @ r) = Inr (d, r)"
    if "size (base d) < size c" "wf_cmd d" "stop r" "4 * length (atom d @ r) + 2 \<le> n" for d n r
    using parseexec_atom [OF that(2-4)] less(1) [OF that(1) wf_base [OF that(2)]] by simp
  have sz: "size (base d) < size c" if "size d < size c" for d using size_base [of d] that by simp
  show ?case unfolding parses_line_def
  proof (intro allI impI)
    fix n r assume r: "r = [] \<or> hd r = (0x29 :: u8)" and n: "4 * length (text_of c @ r) + 4 \<le> n"
    then obtain k where k: "n = Suc (Suc (Suc k))" "4 * length (text_of c @ r) + 1 \<le> k"
      by (cases n; cases "n - 1"; cases "n - 2") auto
    have st: "stop r" using r by (auto simp: stop_def)
    have ex: "parseline n (text_of c @ r) = Inr (c, r)" if "exec_level c"
    proof -
      have "parseexec (Suc k) (atom c @ r) = Inr (c, r)"
        using parseexec_atom [OF less(2) st, of "Suc k"] less(1) [of "base c"] sz wf_base [OF less(2)] k that
        by (cases c) (simp_all add: paren_def)
      from atom_line [OF this r] show ?thesis using k that by (simp add: paren_def)
    qed
    show "parseline n (text_of c @ r) = Inr (c, r)"
    proof (cases c)
      case (Pipe a b)
      then show ?thesis using line_Pipe [OF sub [of a _ "Suc k"] sub [of b r k]] less(2) sz st r k by (simp add: stop_def)
    next
      case (LList a b)
      then show ?thesis using line_LList [OF sub [of a _ "Suc k"] sub [of b r k]] less(2) sz st r k by (simp add: stop_def)
    next
      case (Back a)
      then show ?thesis using line_Back [OF sub [of a _ "Suc k"]] less(2) sz r k by (simp add: stop_def)
    qed (use ex in simp_all)
  qed
qed

text \<open>
  C27. Writing a command and parsing it: for every command the shell can represent, nested in any way,
  \<open>parsecmd\<close> reads the line that spells it out back to the same command.
\<close>

theorem parse_text:
  assumes "wf_cmd c"
  shows "parsecmd (text_of c) = Inr c"
  using line_of_text [OF assms] unfolding parses_line_def parsecmd_def
  by (auto dest!: spec [of _ "4 * length (text_of c) + 4"] spec [of _ "[]"])

theorem parse_text_witness:
  "parsecmd (text_of (LList (Back (Redir (Pipe (Exec [[0x61], [0x62]]) (Exec [[0x63]])) [0x64] WR_MODE 1)) (Exec [[0x65]]))) =
   Inr (LList (Back (Redir (Pipe (Exec [[0x61], [0x62]]) (Exec [[0x63]])) [0x64] WR_MODE 1)) (Exec [[0x65]]))"
  by (rule parse_text) (simp add: is_word_def word_char_iff)

end
