(* ===== verification/Spec2Isabelle.thy ===== *)
theory Spec2Isabelle
  imports Spinlock Durable Swap Icache Syscall Grep Sh
begin

text \<open>
  A verification library for the xv6 kernel and user programs under \<open>src/\<close>.
\<close>

end
